(* ===== verification/Prelude.thy ===== *)
theory Prelude
  imports Main "HOL-Library.Word" "HOL-Library.Multiset"
begin

text \<open>
  Shared vocabulary of the development: the machine types of the code (bytes, fixed-width
  words, pointers), the theorem collections the components add their facts to, and the generic
  lemmas on lists, array updates and words that several components use.
\<close>

unbundle bit_operations_syntax

section \<open>Types and constants shared by the components\<close>

type_synonym byte = "8 word"
type_synonym uint16 = "16 word"
type_synonym uint32 = "32 word"
type_synonym uint64 = "64 word"

text \<open>A \<open>void*\<close> handed through by a container is an address; 0 is the null pointer.\<close>

type_synonym ptr = nat

abbreviation (input) NULL :: ptr where
  "NULL \<equiv> 0"

text \<open>\<open>htons\<close> and \<open>ntohs\<close> of a little-endian machine.\<close>

definition htons :: "uint16 \<Rightarrow> uint16" where
  "htons v = push_bit 8 v OR drop_bit 8 v"

text \<open>The loop idiom \<open>while (i < n && P(i)) i++\<close> of the code: the first index at which it stops.\<close>

function scan :: "(nat \<Rightarrow> bool) \<Rightarrow> nat \<Rightarrow> nat \<Rightarrow> nat" where
  "scan P n i = (if i < n \<and> P i then scan P n (i + 1) else i)"
  by pat_completeness auto
termination
  by (relation "measure (\<lambda>(P, n, i). n - i)") auto

declare scan.simps [simp del]

text \<open>Decimal numbers as \<open>printf\<close> and \<open>std::to_string\<close> write them.\<close>

fun dec_nat :: "nat \<Rightarrow> string" where
  "dec_nat n = (if n < 10 then [char_of (48 + n)] else dec_nat (n div 10) @ [char_of (48 + n mod 10)])"

declare dec_nat.simps [simp del]

definition lld :: "int \<Rightarrow> string" where
  "lld i = (if i < 0 then ''-'' @ dec_nat (nat (- i)) else dec_nat (nat i))"

named_theorems sip_defs \<open>definitions unfolded to compare two SipHash kernels\<close>

section \<open>Byte order\<close>

lemma htons_htons: "htons (htons v) = v"
  by (rule bit_word_eqI) (auto simp: htons_def bit_simps not_less dest: bit_imp_le_length)

section \<open>Decimal numbers\<close>

definition dec_value :: "string \<Rightarrow> nat" where
  "dec_value s = foldl (\<lambda>n c. 10 * n + (of_char c - 48)) 0 s"

lemma dec_value_dec_nat [simp]: "dec_value (dec_nat n) = n"
proof (induction n rule: dec_nat.induct)
  case (1 n)
  have "of_char (char_of (48 + n mod 10) :: char) = 48 + n mod 10" by (subst of_char_of) simp
  then show ?case using 1 by (cases "n < 10") (simp_all add: dec_nat.simps [of n] dec_value_def)
qed

lemma dec_nat_inject: "dec_nat m = dec_nat n \<longleftrightarrow> m = n"
  by (metis dec_value_dec_nat)

lemma dec_nat_digits: "c \<in> set (dec_nat n) \<Longrightarrow> 48 \<le> (of_char c :: nat) \<and> (of_char c :: nat) < 58"
proof (induction n rule: dec_nat.induct)
  case (1 n)
  have "of_char (char_of (48 + n mod 10) :: char) = 48 + n mod 10" by (subst of_char_of) simp
  then show ?case using 1 by (cases "n < 10") (auto simp: dec_nat.simps [of n])
qed

section \<open>Array updates\<close>

lemma nth_list_update_if:
  "i < length xs \<Longrightarrow> xs[j := x] ! i = (if i = j then x else xs ! i)"
  by simp

section \<open>Association lists up to permutation\<close>

lemma map_of_mset_cong:
  assumes "mset xs = mset ys" "distinct (map fst xs)"
  shows "map_of xs = map_of ys" "distinct (map fst ys)"
proof -
  have "mset (map fst xs) = mset (map fst ys)" using assms(1) by simp
  then show d: "distinct (map fst ys)" using assms(2) mset_eq_imp_distinct_iff by blast
  show "map_of xs = map_of ys"
    using map_of_inject_set [OF assms(2) d] mset_eq_setD [OF assms(1)] by simp
qed

lemma map_of_add_mset:
  assumes "mset ys = add_mset (k, v) (mset xs)" "distinct (map fst ys)"
  shows "map_of ys = (map_of xs)(k \<mapsto> v)" "map_of xs k = None" "map_of xs = (map_of ys)(k := None)"
    "distinct (map fst xs)"
proof -
  have eq: "mset ys = mset ((k, v) # xs)" using assms(1) by simp
  show m: "map_of ys = (map_of xs)(k \<mapsto> v)" using map_of_mset_cong(1) [OF eq assms(2)] by simp
  have d: "distinct (map fst ((k, v) # xs))" using map_of_mset_cong(2) [OF eq assms(2)] .
  then show n: "map_of xs k = None" and "distinct (map fst xs)" by (auto simp: map_of_eq_None_iff)
  show "map_of xs = (map_of ys)(k := None)" using m n by auto
qed

section \<open>Scanning loops\<close>

lemma scan_ge: "i \<le> scan P n i"
  by (induction P n i rule: scan.induct) (subst scan.simps, auto)

lemma scan_le: "i \<le> n \<Longrightarrow> scan P n i \<le> n"
  by (induction P n i rule: scan.induct) (subst scan.simps, auto)

lemma scan_holds: "i \<le> k \<Longrightarrow> k < scan P n i \<Longrightarrow> P k \<and> k < n"
proof (induction P n i rule: scan.induct)
  case (1 P n i)
  then show ?case
    by (cases "k = i") (auto simp: scan.simps [of P n i] split: if_splits)
qed

lemma scan_stop: "scan P n i < n \<Longrightarrow> \<not> P (scan P n i)"
proof (induction P n i rule: scan.induct)
  case (1 P n i)
  then show ?case by (auto simp: scan.simps [of P n i] split: if_splits)
qed

lemma scan_step: "i < n \<Longrightarrow> P i \<Longrightarrow> Suc i \<le> scan P n i"
  by (subst scan.simps) (auto simp: scan_ge)

lemma scan_stay: "\<not> (i < n \<and> P i) \<Longrightarrow> scan P n i = i"
  by (subst scan.simps) auto

lemma scan_eqI:
  assumes "i \<le> j" "j \<le> n" "\<And>k. i \<le> k \<Longrightarrow> k < j \<Longrightarrow> P k" "j < n \<Longrightarrow> \<not> P j"
  shows "scan P n i = j"
proof (rule antisym)
  show "scan P n i \<le> j"
    using scan_holds [of i j P n] assms by (meson le_less_linear)
  show "j \<le> scan P n i"
    using scan_stop [of P n i] scan_ge [of i P n] assms(2,3) by (meson le_less_linear less_le_trans)
qed

end
