(* ===== verification/SipHash.thy ===== *)
theory SipHash
  imports Prelude
begin

text \<open>
  The SipHash-2-4 implementations of the repository: the reference kernel of
  \<open>dict/siphash24.cc\<close> (and its copy in \<open>hashing/stock\<close>), the word-at-a-time variant of
  \<open>hashing/siphash-bench\<close> and the C variant of \<open>hashing/floodyberry\<close>.
\<close>

section \<open>The reference kernel: dict/siphash24.cc\<close>

type_synonym sipstate = "uint64 \<times> uint64 \<times> uint64 \<times> uint64"

definition ROTL :: "uint64 \<Rightarrow> nat \<Rightarrow> uint64" where
  "ROTL x b = push_bit b x OR drop_bit (64 - b) x"

definition U32TO8_LE :: "uint32 \<Rightarrow> byte list" where
  "U32TO8_LE v = [ucast v, ucast (drop_bit 8 v), ucast (drop_bit 16 v), ucast (drop_bit 24 v)]"

definition U64TO8_LE :: "uint64 \<Rightarrow> byte list" where
  "U64TO8_LE v = U32TO8_LE (ucast v) @ U32TO8_LE (ucast (drop_bit 32 v))"

definition U8TO64_LE :: "byte list \<Rightarrow> uint64" where
  "U8TO64_LE p =
     ucast (p ! 0) OR push_bit 8 (ucast (p ! 1)) OR push_bit 16 (ucast (p ! 2))
     OR push_bit 24 (ucast (p ! 3)) OR push_bit 32 (ucast (p ! 4)) OR push_bit 40 (ucast (p ! 5))
     OR push_bit 48 (ucast (p ! 6)) OR push_bit 56 (ucast (p ! 7))"

definition SIPROUND :: "sipstate \<Rightarrow> sipstate" where
  "SIPROUND v = (case v of (v0, v1, v2, v3) \<Rightarrow>
     let v0 = v0 + v1;
         v1 = ROTL v1 13;
         v1 = v1 XOR v0;
         v0 = ROTL v0 32;
         v2 = v2 + v3;
         v3 = ROTL v3 16;
         v3 = v3 XOR v2;
         v0 = v0 + v3;
         v3 = ROTL v3 21;
         v3 = v3 XOR v0;
         v2 = v2 + v1;
         v1 = ROTL v1 17;
         v1 = v1 XOR v2;
         v2 = ROTL v2 32
     in (v0, v1, v2, v3))"

definition cROUNDS :: nat where "cROUNDS = 2"
definition dROUNDS :: nat where "dROUNDS = 4"

text \<open>The body of the block loop: \<open>v3 ^= m\<close>, \<open>cROUNDS\<close> rounds, \<open>v0 ^= m\<close>.\<close>

definition sip_block :: "uint64 \<Rightarrow> sipstate \<Rightarrow> sipstate" where
  "sip_block m v = (case v of (v0, v1, v2, v3) \<Rightarrow>
     (case (SIPROUND ^^ cROUNDS) (v0, v1, v2, v3 XOR m) of (v0, v1, v2, v3) \<Rightarrow>
        (v0 XOR m, v1, v2, v3)))"

primrec sip_blocks :: "nat \<Rightarrow> byte list \<Rightarrow> sipstate \<Rightarrow> sipstate" where
  "sip_blocks 0 p v = v"
| "sip_blocks (Suc n) p v = sip_blocks n (drop 8 p) (sip_block (U8TO64_LE p) v)"

text \<open>The \<open>switch (left)\<close> falls through from case \<open>left\<close> down to case 1.\<close>

definition sip_tail :: "nat \<Rightarrow> byte list \<Rightarrow> uint64 \<Rightarrow> uint64" where
  "sip_tail left p b =
     (let b = (if 7 \<le> left then b OR push_bit 48 (ucast (p ! 6)) else b);
          b = (if 6 \<le> left then b OR push_bit 40 (ucast (p ! 5)) else b);
          b = (if 5 \<le> left then b OR push_bit 32 (ucast (p ! 4)) else b);
          b = (if 4 \<le> left then b OR push_bit 24 (ucast (p ! 3)) else b);
          b = (if 3 \<le> left then b OR push_bit 16 (ucast (p ! 2)) else b);
          b = (if 2 \<le> left then b OR push_bit 8 (ucast (p ! 1)) else b);
          b = (if 1 \<le> left then b OR ucast (p ! 0) else b)
      in b)"

definition sip_init :: "byte list \<Rightarrow> sipstate" where
  "sip_init k =
     (let k0 = U8TO64_LE k; k1 = U8TO64_LE (drop 8 k)
      in (0x736f6d6570736575 XOR k0, 0x646f72616e646f6d XOR k1,
          0x6c7967656e657261 XOR k0, 0x7465646279746573 XOR k1))"

definition sip_finish :: "uint64 \<Rightarrow> sipstate \<Rightarrow> uint64" where
  "sip_finish b v = (case sip_block b v of (v0, v1, v2, v3) \<Rightarrow>
     (case (SIPROUND ^^ dROUNDS) (v0, v1, v2 XOR 0xff, v3) of (v0, v1, v2, v3) \<Rightarrow>
        v0 XOR v1 XOR v2 XOR v3))"

definition siphash_bytes :: "byte list \<Rightarrow> byte list \<Rightarrow> byte list" where
  "siphash_bytes inp k =
     (let inlen = length inp;
          left = inlen mod 8;
          b = push_bit 56 (of_nat inlen);
          v = sip_blocks (inlen div 8) inp (sip_init k);
          b = sip_tail left (drop (inlen - left) inp) b
      in U64TO8_LE (sip_finish b v))"

definition siphash :: "byte list \<Rightarrow> byte list \<Rightarrow> uint64" where
  "siphash inp key = U8TO64_LE (siphash_bytes inp key)"

section \<open>The stock copy and its self test: hashing/stock/siphash24.cc\<close>

text \<open>
  \<open>hashing/stock\<close> holds the same macros and the same \<open>_siphash\<close> body; the self test loads the
  digest back from the eight output bytes of a little-endian host.
\<close>

definition stock_siphash :: "byte list \<Rightarrow> byte list \<Rightarrow> byte list" where
  "stock_siphash inp k =
     (let inlen = length inp;
          left = inlen mod 8;
          b = push_bit 56 (of_nat inlen);
          v = sip_blocks (inlen div 8) inp (sip_init k);
          b = sip_tail left (drop (inlen - left) inp) b
      in U64TO8_LE (sip_finish b v))"

definition kSipHashOutput :: "uint64 list" where
  "kSipHashOutput =
    [0x726FDB47DD0E0E31, 0x74F839C593DC67FD, 0x0D6C8009D9A94F5A, 0x85676696D7FB7E2D,
     0xCF2794E0277187B7, 0x18765564CD99A68D, 0xCBC9466E58FEE3CE, 0xAB0200F58B01D137,
     0x93F5F5799A932462, 0x9E0082DF0BA9E4B0, 0x7A5DBBC594DDB9F3, 0xF4B32F46226BADA7,
     0x751E8FBC860EE5FB, 0x14EA5627C0843D90, 0xF723CA908E7AF2EE, 0xA129CA6149BE45E5,
     0x3F2ACC7F57C29BDB, 0x699AE9F52CBE4794, 0x4BC1B3F0968DD39C, 0xBB6DC91DA77961BD,
     0xBED65CF21AA2EE98, 0xD0F2CBB02E3B67C7, 0x93536795E3A33E88, 0xA80C038CCD5CCEC8,
     0xB8AD50C6F649AF94, 0xBCE192DE8A85B8EA, 0x17D835B85BBB15F3, 0x2F2E6163076BCFAD,
     0xDE4DAAACA71DC9A5, 0xA6A2506687956571, 0xAD87A3535C49EF28, 0x32D892FAD841C342,
     0x7127512F72F27CCE, 0xA7F32346F95978E3, 0x12E0B01ABB051238, 0x15E034D40FA197AE,
     0x314DFFBE0815A3B4, 0x027990F029623981, 0xCADCD4E59EF40C4D, 0x9ABFD8766A33735C,
     0x0E3EA96B5304A7D0, 0xAD0C42D6FC585992, 0x187306C89BC215A9, 0xD4A60ABCF3792B95,
     0xF935451DE4F21DF2, 0xA9538F0419755787, 0xDB9ACDDFF56CA510, 0xD06C98CD5C0975EB,
     0xE612A3CB9ECBA951, 0xC766E62CFCADAF96, 0xEE64435A9752FE72, 0xA192D576B245165A,
     0x0A8787BF8ECB74B2, 0x81B3E73D20B49B6F, 0x7FA8220BA3B2ECEA, 0x245731C13CA42499,
     0xB78DBFAF3A8D83BD, 0xEA1AD565322A1A0B, 0x60E61C23A3795013, 0x6606D7E446282B93,
     0x6CA4ECB15C5F91E1, 0x9F626DA15C9625F3, 0xE51B38608EF25F57, 0x958A324CEB064572]"

text \<open>
  \<open>verify\<close>: iteration \<open>size\<close> stores the byte \<open>size\<close> into \<open>in[size]\<close>, hashes the first
  \<open>size\<close> bytes of the 64-byte buffer and stops with \<open>false\<close> at the first mismatch.
\<close>

function verify_loop :: "(byte list \<Rightarrow> uint64) \<Rightarrow> nat \<Rightarrow> byte list \<Rightarrow> bool" where
  "verify_loop H sz inp =
     (if sz < 64 then
        (let inp = inp[sz := of_nat sz] in
         if H (take sz inp) \<noteq> kSipHashOutput ! sz then False
         else verify_loop H (Suc sz) inp)
      else True)"
  by pat_completeness auto
termination
  by (relation "measure (\<lambda>(H, sz, inp). 64 - sz)") auto

declare verify_loop.simps [simp del]

definition stock_verify :: "byte list \<Rightarrow> byte list \<Rightarrow> bool" where
  "stock_verify buf key = verify_loop (\<lambda>m. U8TO64_LE (stock_siphash m key)) 0 buf"

section \<open>The word-at-a-time variant: hashing/siphash-bench/siphash24.cc\<close>

definition ROTATE :: "uint64 \<Rightarrow> nat \<Rightarrow> uint64" where
  "ROTATE x b = push_bit b x OR drop_bit (64 - b) x"

definition HALF_ROUND :: "uint64 \<Rightarrow> uint64 \<Rightarrow> uint64 \<Rightarrow> uint64 \<Rightarrow> nat \<Rightarrow> nat \<Rightarrow> sipstate" where
  "HALF_ROUND a b c d s t =
     (let a = a + b; c = c + d;
          b = ROTATE b s XOR a;
          d = ROTATE d t XOR c;
          a = ROTATE a 32
      in (a, b, c, d))"

definition DOUBLE_ROUND :: "sipstate \<Rightarrow> sipstate" where
  "DOUBLE_ROUND v = (case v of (v0, v1, v2, v3) \<Rightarrow>
     (case HALF_ROUND v0 v1 v2 v3 13 16 of (v0, v1, v2, v3) \<Rightarrow>
     (case HALF_ROUND v2 v1 v0 v3 17 21 of (v2, v1, v0, v3) \<Rightarrow>
     (case HALF_ROUND v0 v1 v2 v3 13 16 of (v0, v1, v2, v3) \<Rightarrow>
     (case HALF_ROUND v2 v1 v0 v3 17 21 of (v2, v1, v0, v3) \<Rightarrow> (v0, v1, v2, v3))))))"

text \<open>
  The block loop of \<open>siphash24\<close>: \<open>while (src_sz >= 8)\<close>, the input pointer advancing by one
  64-bit word; it returns the state, the remaining input and the remaining size.
\<close>

function bench_loop :: "nat \<Rightarrow> byte list \<Rightarrow> sipstate \<Rightarrow> nat \<times> byte list \<times> sipstate" where
  "bench_loop src_sz inp v =
     (if 8 \<le> src_sz then
        (case v of (v0, v1, v2, v3) \<Rightarrow>
           (let mi = U8TO64_LE inp in
            case DOUBLE_ROUND (v0, v1, v2, v3 XOR mi) of (v0, v1, v2, v3) \<Rightarrow>
              bench_loop (src_sz - 8) (drop 8 inp) (v0 XOR mi, v1, v2, v3)))
      else (src_sz, inp, v))"
  by pat_completeness auto
termination
  by (relation "measure (\<lambda>(src_sz, inp, v). src_sz)") auto

declare bench_loop.simps [simp del]

text \<open>
  The \<open>switch (src_sz)\<close> copies the last bytes into the zeroed 8-byte \<open>t\<close>: cases 7, 6 and 5
  fall through to case 4, which copies four bytes at once and breaks; cases 3, 2 and 1 fall
  through to the end.
\<close>

definition bench_tail :: "nat \<Rightarrow> byte list \<Rightarrow> byte list" where
  "bench_tail src_sz m =
     (let pt = replicate 8 0 in
      if 4 \<le> src_sz then
        (let pt = (if 7 \<le> src_sz then pt[6 := m ! 6] else pt);
             pt = (if 6 \<le> src_sz then pt[5 := m ! 5] else pt);
             pt = (if 5 \<le> src_sz then pt[4 := m ! 4] else pt)
         in pt[0 := m ! 0, 1 := m ! 1, 2 := m ! 2, 3 := m ! 3])
      else
        (let pt = (if 3 \<le> src_sz then pt[2 := m ! 2] else pt);
             pt = (if 2 \<le> src_sz then pt[1 := m ! 1] else pt);
             pt = (if 1 \<le> src_sz then pt[0 := m ! 0] else pt)
         in pt))"

definition siphash24 :: "byte list \<Rightarrow> byte list \<Rightarrow> uint64" where
  "siphash24 src key =
     (let k0 = U8TO64_LE key; k1 = U8TO64_LE (drop 8 key);
          src_sz = length src;
          b = push_bit 56 (of_nat src_sz);
          v = (k0 XOR 0x736f6d6570736575, k1 XOR 0x646f72616e646f6d,
               k0 XOR 0x6c7967656e657261, k1 XOR 0x7465646279746573)
      in case bench_loop src_sz src v of (src_sz, m, (v0, v1, v2, v3)) \<Rightarrow>
         (let b = b OR U8TO64_LE (bench_tail src_sz m) in
          case DOUBLE_ROUND (v0, v1, v2, v3 XOR b) of (v0, v1, v2, v3) \<Rightarrow>
          case DOUBLE_ROUND (v0 XOR b, v1, v2 XOR 0xff, v3) of v \<Rightarrow>
          case DOUBLE_ROUND v of (v0, v1, v2, v3) \<Rightarrow> (v0 XOR v1) XOR (v2 XOR v3)))"

definition bench_verify :: "byte list \<Rightarrow> byte list \<Rightarrow> bool" where
  "bench_verify buf key = verify_loop (\<lambda>m. siphash24 m key) 0 buf"

section \<open>The C variant: hashing/floodyberry/siphash.c\<close>

definition sipcompress :: "sipstate \<Rightarrow> sipstate" where
  "sipcompress v = (case v of (v0, v1, v2, v3) \<Rightarrow>
     let v0 = v0 + v1; v2 = v2 + v3;
         v1 = ROTATE v1 13; v3 = ROTATE v3 16;
         v1 = v1 XOR v0; v3 = v3 XOR v2;
         v0 = ROTATE v0 32;
         v2 = v2 + v1; v0 = v0 + v3;
         v1 = ROTATE v1 17; v3 = ROTATE v3 21;
         v1 = v1 XOR v2; v3 = v3 XOR v0;
         v2 = ROTATE v2 32
     in (v0, v1, v2, v3))"

function floody_loop :: "nat \<Rightarrow> nat \<Rightarrow> byte list \<Rightarrow> sipstate \<Rightarrow> sipstate" where
  "floody_loop i blocks m v =
     (if i < blocks then
        (case v of (v0, v1, v2, v3) \<Rightarrow>
           (let mi = U8TO64_LE (drop i m) in
            case sipcompress (sipcompress (v0, v1, v2, v3 XOR mi)) of (v0, v1, v2, v3) \<Rightarrow>
              floody_loop (i + 8) blocks m (v0 XOR mi, v1, v2, v3)))
      else v)"
  by pat_completeness auto
termination
  by (relation "measure (\<lambda>(i, blocks, m, v). blocks - i)") auto

declare floody_loop.simps [simp del]

text \<open>
  After the block loop \<open>i = blocks\<close>; \<open>len & ~7\<close> is \<open>len - len mod 8\<close>. The length byte is
  masked before the shift here, and the \<open>switch (len - blocks)\<close> is the fall-through cascade of
  \<^const>\<open>sip_tail\<close> on \<open>last7\<close>.
\<close>

definition floody_siphash :: "byte list \<Rightarrow> byte list \<Rightarrow> uint64" where
  "floody_siphash key m =
     (let k0 = U8TO64_LE key; k1 = U8TO64_LE (drop 8 key);
          v = (k0 XOR 0x736f6d6570736575, k1 XOR 0x646f72616e646f6d,
               k0 XOR 0x6c7967656e657261, k1 XOR 0x7465646279746573);
          len = length m;
          last7 = push_bit 56 (of_nat len AND 0xff);
          blocks = len - len mod 8
      in case floody_loop 0 blocks m v of (v0, v1, v2, v3) \<Rightarrow>
         (let last7 = sip_tail (len - blocks) (drop blocks m) last7
          in case sipcompress (sipcompress (v0, v1, v2, v3 XOR last7)) of (v0, v1, v2, v3) \<Rightarrow>
             case sipcompress (sipcompress (sipcompress (sipcompress
                    (v0 XOR last7, v1, v2 XOR 0xff, v3)))) of (v0, v1, v2, v3) \<Rightarrow>
               v0 XOR v1 XOR v2 XOR v3))"

definition floody_verify :: "byte list \<Rightarrow> byte list \<Rightarrow> bool" where
  "floody_verify buf key = verify_loop (\<lambda>m. floody_siphash key m) 0 buf"

section \<open>The SipHash-2-4 function the three kernels compute\<close>

text \<open>
  The reference digest as one expression: compress the whole 8-byte blocks, absorb the length
  byte and the remaining bytes, finalise.
\<close>

definition sip_result :: "byte list \<Rightarrow> byte list \<Rightarrow> uint64" where
  "sip_result inp k =
     sip_finish (sip_tail (length inp mod 8) (drop (length inp - length inp mod 8) inp)
                   (push_bit 56 (of_nat (length inp))))
                (sip_blocks (length inp div 8) inp (sip_init k))"

section \<open>Little-endian loads and stores\<close>

lemma len_byte: "LENGTH(8) = 8"
  by simp

lemma bit_byte_beyond: "8 \<le> n \<Longrightarrow> \<not> bit (w :: byte) n"
  by (metis bit_imp_le_length len_byte leD)
lemma bit_U8TO64_LE:
  assumes "i < 8" "j < 8"
  shows "bit (U8TO64_LE p) (8 * i + j) = bit (p ! i) j"
proof -
  from assms(1) consider "i = 0" | "i = 1" | "i = 2" | "i = 3" | "i = 4" | "i = 5" | "i = 6" | "i = 7"
    by linarith
  then show ?thesis
    by cases (use assms(2) in \<open>simp_all add: U8TO64_LE_def bit_simps bit_byte_beyond\<close>)
qed
lemma U64TO8_LE_nth:
  assumes "i < 8"
  shows "U64TO8_LE v ! i = ucast (drop_bit (8 * i) v)"
proof -
  from assms(1) consider "i = 0" | "i = 1" | "i = 2" | "i = 3" | "i = 4" | "i = 5" | "i = 6" | "i = 7"
    by linarith
  then show ?thesis
    by cases (auto intro!: bit_word_eqI simp add: U64TO8_LE_def U32TO8_LE_def bit_simps)
qed
lemma length_U64TO8_LE [simp]: "length (U64TO8_LE v) = 8"
  by (simp add: U64TO8_LE_def U32TO8_LE_def)
lemma U8TO64_U64TO8: "U8TO64_LE (U64TO8_LE v) = v"
proof (rule bit_word_eqI)
  fix n assume "n < LENGTH(64)"
  then have i: "n div 8 < 8" and j: "n mod 8 < 8" by auto
  have "bit (U8TO64_LE (U64TO8_LE v)) (8 * (n div 8) + n mod 8) = bit v (8 * (n div 8) + n mod 8)"
    by (simp only: bit_U8TO64_LE [OF i j] U64TO8_LE_nth [OF i]) (use i j in \<open>simp add: bit_simps\<close>)
  then show "bit (U8TO64_LE (U64TO8_LE v)) n = bit v n" by simp
qed

lemma U64TO8_U8TO64:
  assumes "length p = 8"
  shows "U64TO8_LE (U8TO64_LE p) = p"
proof (rule nth_equalityI)
  show "length (U64TO8_LE (U8TO64_LE p)) = length p" by (simp add: assms)
  fix i assume "i < length (U64TO8_LE (U8TO64_LE p))"
  then have i: "i < 8" by simp
  show "U64TO8_LE (U8TO64_LE p) ! i = p ! i"
  proof (rule bit_word_eqI)
    fix j assume "j < LENGTH(8)"
    then have j: "j < 8" by simp
    with i have "8 * i + j < 64" by linarith
    then show "bit (U64TO8_LE (U8TO64_LE p) ! i) j = bit (p ! i) j"
      using bit_U8TO64_LE [OF i j, of p] i j by (simp add: U64TO8_LE_nth bit_simps)
  qed
qed

section \<open>Rounds, block loops and tails\<close>

lemma DOUBLE_ROUND_eq: "DOUBLE_ROUND v = SIPROUND (SIPROUND v)"
  by (simp add: DOUBLE_ROUND_def HALF_ROUND_def SIPROUND_def ROTATE_def ROTL_def Let_def split: prod.split)
lemma sipcompress_eq: "sipcompress v = SIPROUND v"
  by (simp add: sipcompress_def SIPROUND_def ROTATE_def ROTL_def Let_def split: prod.split)

lemma SIPROUND_cROUNDS: "(SIPROUND ^^ cROUNDS) v = SIPROUND (SIPROUND v)"
  by (simp add: cROUNDS_def numeral_2_eq_2)
lemma SIPROUND_dROUNDS: "(SIPROUND ^^ dROUNDS) v = SIPROUND (SIPROUND (SIPROUND (SIPROUND v)))"
  by (simp add: dROUNDS_def numeral_eq_Suc)

lemma sip_block_eq:
  "sip_block m (v0, v1, v2, v3) =
     (case SIPROUND (SIPROUND (v0, v1, v2, v3 XOR m)) of (w0, w1, w2, w3) \<Rightarrow> (w0 XOR m, w1, w2, w3))"
  by (simp add: sip_block_def SIPROUND_cROUNDS)

lemma bench_loop_step:
  "8 \<le> n \<Longrightarrow> bench_loop n inp v = bench_loop (n - 8) (drop 8 inp) (sip_block (U8TO64_LE inp) v)"
  by (cases v) (simp add: bench_loop.simps [of n] DOUBLE_ROUND_eq sip_block_eq split: prod.split)

lemma bench_loop_eq:
  "bench_loop n inp v = (n mod 8, drop (n - n mod 8) inp, sip_blocks (n div 8) inp v)"
proof (induction n arbitrary: inp v rule: less_induct)
  case (less n)
  show ?case
  proof (cases "8 \<le> n")
    case True
    then have d: "n div 8 = Suc ((n - 8) div 8)" and m: "(n - 8) mod 8 = n mod 8"
      by (simp_all add: le_div_geq le_mod_geq)
    have s: "n - (8 + n mod 8) + 8 = n - n mod 8"
      using True div_mult_mod_eq [of n 8] d by linarith
    show ?thesis
      using True less.IH [of "n - 8"] by (simp add: bench_loop_step d m s)
  next
    case False
    then show ?thesis by (simp add: bench_loop.simps [of n])
  qed
qed

lemma floody_loop_eq:
  "floody_loop i (i + 8 * k) m v = sip_blocks k (drop i m) v"
proof (induction k arbitrary: i v)
  case 0
  then show ?case by (simp add: floody_loop.simps)
next
  case (Suc k)
  have "floody_loop i (i + 8 * Suc k) m v
      = floody_loop (i + 8) (i + 8 * Suc k) m (sip_block (U8TO64_LE (drop i m)) v)"
    by (cases v) (simp add: floody_loop.simps [of i] sipcompress_eq sip_block_eq split: prod.split)
  then show ?case
    using Suc.IH [of "i + 8"] by (simp add: algebra_simps)
qed

lemma bench_tail_eq:
  assumes "r < 8"
  shows "b OR U8TO64_LE (bench_tail r m) = sip_tail r m b"
proof -
  from assms consider "r = 0" | "r = 1" | "r = 2" | "r = 3" | "r = 4" | "r = 5" | "r = 6" | "r = 7"
    by linarith
  then show ?thesis
    by cases (simp_all add: bench_tail_def sip_tail_def U8TO64_LE_def numeral_eq_Suc ac_simps)
qed

lemma push_bit_mask_byte: "push_bit 56 (w AND 0xff) = push_bit 56 (w :: uint64)"
proof -
  have "w AND 0xff = take_bit 8 w" by (simp add: take_bit_eq_mask mask_eq_exp_minus_1)
  then show ?thesis
    by (auto intro!: bit_word_eqI simp: bit_simps)
qed


lemma sip_init_eq:
  "(U8TO64_LE key XOR 0x736f6d6570736575, U8TO64_LE (drop 8 key) XOR 0x646f72616e646f6d,
    U8TO64_LE key XOR 0x6c7967656e657261, U8TO64_LE (drop 8 key) XOR 0x7465646279746573) = sip_init key"
  by (simp add: sip_init_def Let_def xor.commute)

lemma sip_finish_eq:
  "sip_finish b v = (case sip_block b v of (v0, v1, v2, v3) \<Rightarrow>
     (case SIPROUND (SIPROUND (SIPROUND (SIPROUND (v0, v1, v2 XOR 0xff, v3)))) of (v0, v1, v2, v3) \<Rightarrow>
        v0 XOR v1 XOR v2 XOR v3))"
  by (simp add: sip_finish_def SIPROUND_dROUNDS)

lemma siphash24_eq: "siphash24 src key = sip_result src key"
proof -
  obtain v0 v1 v2 v3 where v: "sip_blocks (length src div 8) src (sip_init key) = (v0, v1, v2, v3)"
    by (metis prod.exhaust)
  show ?thesis
    by (simp only: siphash24_def Let_def sip_init_eq bench_loop_eq v prod.case sip_result_def
        bench_tail_eq [OF mod_less_divisor] zero_less_numeral DOUBLE_ROUND_eq)
      (simp add: sip_finish_eq sip_block_eq xor.assoc split: prod.split)
qed

lemma floody_siphash_eq: "floody_siphash key m = sip_result m key"
proof -
  obtain v0 v1 v2 v3 where v: "sip_blocks (length m div 8) m (sip_init key) = (v0, v1, v2, v3)"
    by (metis prod.exhaust)
  have l: "floody_loop 0 (length m - length m mod 8) m (sip_init key) = (v0, v1, v2, v3)"
    using floody_loop_eq [of 0 "length m div 8" m "sip_init key"] v
    by (simp add: minus_mod_eq_mult_div)
  have r: "length m - (length m - length m mod 8) = length m mod 8" by simp
  show ?thesis
    by (simp only: floody_siphash_def Let_def sip_init_eq r sip_result_def push_bit_mask_byte
        l v prod.case sipcompress_eq)
      (simp add: sip_finish_eq sip_block_eq split: prod.split)
qed

lemma siphash_eq: "siphash inp key = sip_result inp key"
  by (simp add: siphash_def siphash_bytes_def Let_def U8TO64_U64TO8 sip_result_def)

lemma stock_siphash_eq: "U8TO64_LE (stock_siphash inp key) = sip_result inp key"
  by (simp add: stock_siphash_def Let_def U8TO64_U64TO8 sip_result_def)

section \<open>The kernel interface and its self test\<close>

text \<open>A kernel promises the reference digest; the self test only relies on that promise.\<close>

locale sip_kernel =
  fixes H :: "byte list \<Rightarrow> byte list \<Rightarrow> uint64"
  assumes digest: "H m key = sip_result m key"
begin

lemma verify_reference: "verify_loop (\<lambda>m. H m key) 0 buf = verify_loop (\<lambda>m. sip_result m key) 0 buf"
  by (simp add: digest)

end

interpretation dict_kernel: sip_kernel siphash
  by unfold_locales (rule siphash_eq)

interpretation stock_kernel: sip_kernel "\<lambda>m key. U8TO64_LE (stock_siphash m key)"
  by unfold_locales (rule stock_siphash_eq)

interpretation bench_kernel: sip_kernel siphash24
  by unfold_locales (rule siphash24_eq)

interpretation floody_kernel: sip_kernel "\<lambda>m key. floody_siphash key m"
  by unfold_locales (rule floody_siphash_eq)

text \<open>
  C12. The word-at-a-time \<open>siphash24\<close> of \<open>hashing/siphash-bench\<close> (\<open>DOUBLE_ROUND\<close> macro, tail
  copied into a zeroed word) returns the digest of the reference kernel of
  \<open>dict/siphash24.cc\<close>, for every message and key.
\<close>

theorem siphash24_equiv: "siphash24 src key = siphash src key"
  by (simp add: bench_kernel.digest dict_kernel.digest)

text \<open>
  C13. The C kernel of \<open>hashing/floodyberry\<close> (interleaved \<open>sipcompress\<close>, masked length byte)
  returns the digest of the reference kernel, for every message and key.
\<close>

theorem floody_siphash_equiv: "floody_siphash key m = siphash m key"
  by (simp add: floody_kernel.digest dict_kernel.digest)

text \<open>
  The self tests of the three benchmark programs accept and reject together: they compare
  the same digests with the same 64 published vectors, in the same order.
\<close>

theorem verify_agree:
  "stock_verify buf key = bench_verify buf key \<and> floody_verify buf key = bench_verify buf key"
  by (simp add: stock_verify_def bench_verify_def floody_verify_def
      stock_kernel.verify_reference bench_kernel.verify_reference floody_kernel.verify_reference)

text \<open>
  Storing a 64-bit digest with \<open>U64TO8_LE\<close> and loading it with \<open>U8TO64_LE\<close> is the
  identity, and so is loading eight bytes and storing them again.
\<close>

theorem le64_roundtrip:
  "U8TO64_LE (U64TO8_LE v) = v \<and> (length p = 8 \<longrightarrow> U64TO8_LE (U8TO64_LE p) = p)"
  by (simp add: U8TO64_U64TO8 U64TO8_U8TO64)

theorem le64_roundtrip_witness:
  "U8TO64_LE (U64TO8_LE 0x0706050403020100) = 0x0706050403020100
   \<and> U64TO8_LE (U8TO64_LE [0, 1, 2, 3, 4, 5, 6, 7]) = [0, 1, 2, 3, 4, 5, 6, 7]"
  using le64_roundtrip [of "0x0706050403020100" "[0, 1, 2, 3, 4, 5, 6, 7]"] by simp

end
