(* ===== verification/PQ_Spec.thy ===== *)
theory PQ_Spec
  imports Prelude
begin

text \<open>
  What a priority queue of the repository promises its users, as a locale over the operations a
  client calls, and the two client loops of \<open>queue/main.cc\<close>: filling a queue from a sequence of
  elements and draining it until it is empty.
\<close>

section \<open>The client loops of queue/main.cc\<close>

text \<open>The fill loop: \<open>for ( auto r : randoms ) q.Add(e)\<close>.\<close>

fun fill :: "('q \<Rightarrow> 'e \<Rightarrow> 'q) \<Rightarrow> 'e list \<Rightarrow> 'q \<Rightarrow> 'q" where
  "fill add [] q = q"
| "fill add (e # es) q = fill add es (add q e)"

text \<open>
  The drain loop: \<open>while (auto* e = q.Remove()) ordered.push_back(...)\<close>. The loop ends when the
  queue answers with the null pointer; \<open>n\<close> bounds the number of calls, and running out of calls is
  \<open>None\<close>.
\<close>

fun drain :: "('q \<Rightarrow> 'e option \<times> 'q) \<Rightarrow> nat \<Rightarrow> 'q \<Rightarrow> 'e list option" where
  "drain pop 0 q = None"
| "drain pop (Suc n) q =
     (case pop q of
        (None, q') \<Rightarrow> Some []
      | (Some e, q') \<Rightarrow> map_option (Cons e) (drain pop n q'))"

section \<open>The interface\<close>

locale pq_laws =
  fixes inv :: "'q \<Rightarrow> bool"
    and contents :: "'q \<Rightarrow> 'e multiset"
    and prio :: "'q \<Rightarrow> 'e \<Rightarrow> 't::linorder"
    and can_add :: "'q \<Rightarrow> 'e \<Rightarrow> bool"
    and add :: "'q \<Rightarrow> 'e \<Rightarrow> 'q"
    and pop :: "'q \<Rightarrow> 'e option \<times> 'q"
  assumes pop_empty: "inv q \<Longrightarrow> contents q = {#} \<Longrightarrow> pop q = (None, q)"
    and pop_min: "inv q \<Longrightarrow> contents q \<noteq> {#} \<Longrightarrow>
      \<exists>e q'. pop q = (Some e, q') \<and> e \<in># contents q \<and> contents q' = contents q - {#e#} \<and>
        (\<forall>x \<in># contents q. prio q e \<le> prio q x) \<and> inv q' \<and> prio q' = prio q"
    and add_inv: "inv q \<Longrightarrow> can_add q e \<Longrightarrow> inv (add q e)"
    and add_contents: "inv q \<Longrightarrow> can_add q e \<Longrightarrow> contents (add q e) = add_mset e (contents q)"
    and add_prio: "inv q \<Longrightarrow> can_add q e \<Longrightarrow> prio (add q e) = prio q"
    and add_again: "inv q \<Longrightarrow> can_add q e \<Longrightarrow> can_add q x \<Longrightarrow> x \<noteq> e \<Longrightarrow> can_add (add q e) x"
begin

lemma drain_sorted:
  "inv q \<Longrightarrow> size (contents q) < n \<Longrightarrow>
   \<exists>es. drain pop n q = Some es \<and> mset es = contents q \<and> sorted (map (prio q) es)"
proof (induction n arbitrary: q)
  case 0
  then show ?case by simp
next
  case (Suc n)
  show ?case
  proof (cases "contents q = {#}")
    case True
    with Suc.prems show ?thesis by (simp add: pop_empty)
  next
    case False
    then obtain e q' where p: "pop q = (Some e, q')" and e: "e \<in># contents q"
      and c: "contents q' = contents q - {#e#}" and le: "\<forall>x \<in># contents q. prio q e \<le> prio q x"
      and i: "inv q'" and k: "prio q' = prio q"
      using pop_min [OF Suc.prems(1)] by blast
    have "size (contents q') < n"
      using Suc.prems(2) e by (simp add: c size_Diff_singleton) (metis False Suc_less_eq Suc_pred size_eq_0_iff_empty nonempty_has_size)
    then obtain es where es: "drain pop n q' = Some es" "mset es = contents q'" "sorted (map (prio q) es)"
      using Suc.IH [OF i] k by auto
    have "\<forall>x \<in> set es. prio q e \<le> prio q x"
      using le in_diffD es(2) c by (metis set_mset_mset)
    with es p e c show ?thesis by simp
  qed
qed

lemma fill_contents:
  "inv q \<Longrightarrow> distinct es \<Longrightarrow> (\<And>e. e \<in> set es \<Longrightarrow> can_add q e) \<Longrightarrow>
   inv (fill add es q) \<and> contents (fill add es q) = mset es + contents q \<and>
   prio (fill add es q) = prio q"
proof (induction es arbitrary: q)
  case Nil
  then show ?case by simp
next
  case (Cons e es)
  have a: "can_add q e" using Cons.prems(3) by simp
  have i: "inv (add q e)" using Cons.prems(1) a by (rule add_inv)
  have "can_add (add q e) x" if "x \<in> set es" for x
    using add_again [OF Cons.prems(1) a] Cons.prems(2,3) that by auto
  then show ?case
    using Cons.IH [OF i] Cons.prems(1,2) a by (simp add: add_contents add_prio)
qed

text \<open>Filling an empty queue and draining it lists the elements by ascending priority.\<close>

lemma fill_drain:
  assumes "inv q" "contents q = {#}" "distinct es" "\<And>e. e \<in> set es \<Longrightarrow> can_add q e"
  shows "\<exists>out. drain pop (Suc (length es)) (fill add es q) = Some out \<and> mset out = mset es \<and>
    sorted (map (prio q) out)"
proof -
  from fill_contents [OF assms(1,3,4)] assms(2)
  have f: "inv (fill add es q)" "contents (fill add es q) = mset es" "prio (fill add es q) = prio q"
    by auto
  then have "size (contents (fill add es q)) < Suc (length es)" by simp
  from drain_sorted [OF f(1) this] f(2,3) show ?thesis by (simp del: drain.simps)
qed

end

text \<open>Queues that accept every element at any time need no distinctness.\<close>

locale pq_total = pq_laws +
  assumes can_add_any: "can_add q e"
begin

lemma fill_any:
  "inv q \<Longrightarrow> inv (fill add es q) \<and> contents (fill add es q) = mset es + contents q \<and>
   prio (fill add es q) = prio q"
proof (induction es arbitrary: q)
  case Nil
  then show ?case by simp
next
  case (Cons e es)
  then show ?case
    using Cons.IH [OF add_inv [OF Cons.prems can_add_any]]
    by (simp add: add_contents [OF Cons.prems can_add_any] add_prio [OF Cons.prems can_add_any])
qed

lemma fill_drain_any:
  assumes "inv q" "contents q = {#}"
  shows "\<exists>out. drain pop (Suc (length es)) (fill add es q) = Some out \<and> mset out = mset es \<and>
    sorted (map (prio q) out)"
proof -
  from fill_any [OF assms(1), of es] assms(2)
  have f: "inv (fill add es q)" "contents (fill add es q) = mset es" "prio (fill add es q) = prio q"
    by auto
  then have "size (contents (fill add es q)) < Suc (length es)" by simp
  from drain_sorted [OF f(1) this] f(2,3) show ?thesis by (simp del: drain.simps)
qed

end

end
