(* ===== verification/PriorityQueue.thy ===== *)
theory PriorityQueue
  imports PQ_Spec
begin

text \<open>
  The binary heap of \<open>queue/PriorityQueue.{h,cc}\<close> over \<open>PQ_Element\<close> objects, and the variant of
  \<open>queue/PriorityQueueUnrolled.{h,cc}\<close> whose \<open>BubbleDown\<close> is a loop. The heap is an array of
  pointers; the pointed-to objects (time and offset) live in the store \<^term>\<open>elems\<close>. Slot 0 has
  the single child 1, and slot \<open>i > 0\<close> has the children \<open>2 * i\<close> and \<open>2 * i + 1\<close>. Times are
  doubles that are only compared; they are a linear order with a least element, \<open>-HUGE_VAL\<close>
  (not-a-number values are excluded).
\<close>

section \<open>Elements and the queue\<close>

record 't PQ_Element =
  elt_time :: 't
  elt_offset :: int

definition new_PQ_Element :: "'t \<Rightarrow> 't PQ_Element" where
  "new_PQ_Element t = \<lparr>elt_time = t, elt_offset = -1\<rparr>"

definition MinimizeTime :: "'t::order_bot PQ_Element \<Rightarrow> 't PQ_Element" where
  "MinimizeTime e = e\<lparr>elt_time := bot\<rparr>"

definition SetOffset :: "'t PQ_Element \<Rightarrow> int \<Rightarrow> 't PQ_Element" where
  "SetOffset e off = e\<lparr>elt_offset := off\<rparr>"

record 't PriorityQueue =
  heap :: "ptr list"
  heap_size :: nat
  peak_heap_size :: nat
  max_heap_size :: nat
  cumulative_num :: uint64
  elems :: "ptr \<Rightarrow> 't PQ_Element"

text \<open>The outcome \<open>abort()\<close> of \<open>Remove(PQ_Element*)\<close>.\<close>

datatype pq_error = Inconsistency

definition new_PriorityQueue :: "(ptr \<Rightarrow> 't PQ_Element) \<Rightarrow> nat \<Rightarrow> 't PriorityQueue" where
  "new_PriorityQueue st initial_size =
     \<lparr>heap = replicate initial_size 0, heap_size = 0, peak_heap_size = 0,
      max_heap_size = initial_size, cumulative_num = 0, elems = st\<rparr>"

definition Time :: "'t PriorityQueue \<Rightarrow> ptr \<Rightarrow> 't" where
  "Time q e = elt_time (elems q e)"

definition Offset :: "'t PriorityQueue \<Rightarrow> ptr \<Rightarrow> int" where
  "Offset q e = elt_offset (elems q e)"

definition Top :: "'t PriorityQueue \<Rightarrow> ptr option" where
  "Top q = (if heap_size q = 0 then None else Some (heap q ! 0))"

definition Size :: "'t PriorityQueue \<Rightarrow> nat" where
  "Size q = heap_size q"

definition PeakSize :: "'t PriorityQueue \<Rightarrow> nat" where
  "PeakSize q = peak_heap_size q"

definition CumulativeNum :: "'t PriorityQueue \<Rightarrow> uint64" where
  "CumulativeNum q = cumulative_num q"

definition Parent :: "nat \<Rightarrow> nat" where
  "Parent bin = drop_bit 1 bin"

definition LeftChild :: "nat \<Rightarrow> nat" where
  "LeftChild bin = push_bit 1 bin"

definition RightChild :: "nat \<Rightarrow> nat" where
  "RightChild bin = LeftChild bin + 1"

definition SetElement :: "'t PriorityQueue \<Rightarrow> nat \<Rightarrow> ptr \<Rightarrow> 't PriorityQueue" where
  "SetElement q bin e =
     q\<lparr>heap := (heap q)[bin := e], elems := (elems q)(e := SetOffset (elems q e) (int bin))\<rparr>"

definition Swap :: "'t PriorityQueue \<Rightarrow> nat \<Rightarrow> nat \<Rightarrow> 't PriorityQueue" where
  "Swap q bin1 bin2 =
     (let t = heap q ! bin1;
          q = SetElement q bin1 (heap q ! bin2)
      in SetElement q bin2 t)"

definition Resize :: "'t PriorityQueue \<Rightarrow> nat \<Rightarrow> 't PriorityQueue \<times> bool" where
  "Resize q new_size =
     (q\<lparr>heap := take (max_heap_size q) (heap q) @ replicate (new_size - max_heap_size q) 0,
        max_heap_size := new_size\<rparr>, True)"

lemma Parent_eq [simp]: "Parent bin = bin div 2"
  by (simp add: Parent_def drop_bit_eq_div)

lemma LeftChild_eq [simp]: "LeftChild bin = 2 * bin"
  by (simp add: LeftChild_def push_bit_eq_mult)

lemma RightChild_eq [simp]: "RightChild bin = 2 * bin + 1"
  by (simp add: RightChild_def)

lemma Swap_frame [simp]:
  "heap_size (Swap q a b) = heap_size q" "max_heap_size (Swap q a b) = max_heap_size q"
  "peak_heap_size (Swap q a b) = peak_heap_size q" "cumulative_num (Swap q a b) = cumulative_num q"
  "length (heap (Swap q a b)) = length (heap q)"
  by (simp_all add: Swap_def SetElement_def Let_def)

section \<open>Sifting\<close>

abbreviation time_at :: "'t PriorityQueue \<Rightarrow> nat \<Rightarrow> 't" where
  "time_at q bin \<equiv> Time q (heap q ! bin)"

function BubbleUp :: "'t::linorder PriorityQueue \<Rightarrow> nat \<Rightarrow> 't PriorityQueue" where
  "BubbleUp q bin =
     (if bin = 0 then q
      else let p = Parent bin in
        if time_at q p > time_at q bin then BubbleUp (Swap q p bin) p else q)"
  by pat_completeness auto
termination
  by (relation "measure (\<lambda>(q, bin). bin)") auto

function BubbleDown :: "'t::linorder PriorityQueue \<Rightarrow> nat \<Rightarrow> 't PriorityQueue" where
  "BubbleDown q bin =
     (let l = LeftChild bin in
      if heap_size q \<le> l then q
      else
        let v = time_at q bin; r = RightChild bin in
        if heap_size q \<le> r then
          (if time_at q l < v then Swap q l bin else q)
        else
          let lv = time_at q l; rv = time_at q r in
          if lv < rv then
            (if lv < v then BubbleDown (Swap q l bin) l else q)
          else if rv < v then BubbleDown (Swap q r bin) r
          else q)"
  by pat_completeness auto
termination
proof (relation "measure (\<lambda>(q, bin). heap_size q - bin)", goal_cases)
  case 1
  show ?case by simp
next
  case (2 q bin)
  then have "bin \<noteq> 0" by (cases "bin = 0") auto
  with 2 show ?case by auto
next
  case (3 q bin)
  then show ?case by auto
qed

declare BubbleUp.simps [simp del] BubbleDown.simps [simp del]

section \<open>The operations\<close>

definition Remove :: "'t::linorder PriorityQueue \<Rightarrow> ptr option \<times> 't PriorityQueue" where
  "Remove q =
     (if heap_size q = 0 then (None, q)
      else
        let top = heap q ! 0;
            q = q\<lparr>heap_size := heap_size q - 1\<rparr>;
            q = SetElement q 0 (heap q ! heap_size q);
            q = BubbleDown q 0;
            q = q\<lparr>elems := (elems q)(top := SetOffset (elems q top) (-1))\<rparr>
        in (Some top, q))"

definition Remove_element ::
  "'t::{linorder, order_bot} PriorityQueue \<Rightarrow> ptr \<Rightarrow> pq_error + ptr option \<times> 't PriorityQueue" where
  "Remove_element q e =
     (if Offset q e < 0 \<or> int (heap_size q) \<le> Offset q e \<or> heap q ! nat (Offset q e) \<noteq> e
      then Inr (None, q)
      else
        let q = q\<lparr>elems := (elems q)(e := MinimizeTime (elems q e))\<rparr>;
            q = BubbleUp q (nat (Offset q e));
            (e2, q) = Remove q
        in if Some e \<noteq> e2 then Inl Inconsistency else Inr (e2, q))"

definition Add :: "'t::linorder PriorityQueue \<Rightarrow> ptr \<Rightarrow> 't PriorityQueue \<times> bool" where
  "Add q e =
     (let q = SetElement q (heap_size q) e;
          q = BubbleUp q (heap_size q);
          q = q\<lparr>cumulative_num := cumulative_num q + 1\<rparr>;
          q = q\<lparr>heap_size := heap_size q + 1\<rparr>;
          q = (if heap_size q > peak_heap_size q then q\<lparr>peak_heap_size := heap_size q\<rparr> else q)
      in if heap_size q \<ge> max_heap_size q then Resize q (max_heap_size q * 2) else (q, True))"


section \<open>PriorityQueueUnrolled\<close>

text \<open>
  The class has the same fields and the same \<open>SetElement\<close>, \<open>Swap\<close> and \<open>Resize\<close>; the bucket
  arithmetic is written out and \<open>BubbleDown\<close> is a \<open>while (old_bin != bin)\<close> loop that leaves by
  not changing \<open>bin\<close>.
\<close>

function Unrolled_BubbleUp :: "'t::linorder PriorityQueue \<Rightarrow> nat \<Rightarrow> 't PriorityQueue" where
  "Unrolled_BubbleUp q bin =
     (if bin = 0 then q
      else let p = drop_bit 1 bin in
        if time_at q p > time_at q bin then Unrolled_BubbleUp (Swap q p bin) p else q)"
  by pat_completeness auto
termination
  by (relation "measure (\<lambda>(q, bin). bin)") (auto simp: drop_bit_eq_div)

declare Unrolled_BubbleUp.simps [simp del]

function Unrolled_loop :: "'t::linorder PriorityQueue \<Rightarrow> int \<Rightarrow> nat \<Rightarrow> 't PriorityQueue" where
  "Unrolled_loop q old_bin bin =
     (if old_bin \<noteq> int bin then
        let l = push_bit 1 bin in
        if heap_size q \<le> l then q
        else
          let old_bin = int bin; v = time_at q bin; r = l + 1 in
          if heap_size q \<le> r then
            (if time_at q l < v then Unrolled_loop (Swap q l bin) old_bin bin
             else Unrolled_loop q old_bin bin)
          else
            let lv = time_at q l; rv = time_at q r in
            if lv < rv then
              (if lv < v then Unrolled_loop (Swap q l bin) old_bin l
               else Unrolled_loop q old_bin bin)
            else if rv < v then Unrolled_loop (Swap q r bin) old_bin r
            else Unrolled_loop q old_bin bin
      else q)"
  by pat_completeness auto
termination
proof (relation "measures [\<lambda>(q, old_bin, bin). heap_size q - bin,
    \<lambda>(q, old_bin, bin). if old_bin = int bin then 0 else 1]", goal_cases)
  case (4 q old_bin bin)
  then have "bin \<noteq> 0" by (cases "bin = 0") auto
  with 4 show ?case by (auto simp: push_bit_eq_mult)
qed (auto simp: push_bit_eq_mult)

declare Unrolled_loop.simps [simp del]

definition Unrolled_BubbleDown :: "'t::linorder PriorityQueue \<Rightarrow> nat \<Rightarrow> 't PriorityQueue" where
  "Unrolled_BubbleDown q bin = Unrolled_loop q (-1) bin"

definition Unrolled_Remove :: "'t::linorder PriorityQueue \<Rightarrow> ptr option \<times> 't PriorityQueue" where
  "Unrolled_Remove q =
     (if heap_size q = 0 then (None, q)
      else
        let top = heap q ! 0;
            q = q\<lparr>heap_size := heap_size q - 1\<rparr>;
            q = SetElement q 0 (heap q ! heap_size q);
            q = Unrolled_BubbleDown q 0;
            q = q\<lparr>elems := (elems q)(top := (elems q top)\<lparr>elt_offset := -1\<rparr>)\<rparr>
        in (Some top, q))"

definition Unrolled_Remove_element ::
  "'t::{linorder, order_bot} PriorityQueue \<Rightarrow> ptr \<Rightarrow> pq_error + ptr option \<times> 't PriorityQueue" where
  "Unrolled_Remove_element q e =
     (if Offset q e < 0 \<or> int (heap_size q) \<le> Offset q e \<or> heap q ! nat (Offset q e) \<noteq> e
      then Inr (None, q)
      else
        let q = q\<lparr>elems := (elems q)(e := MinimizeTime (elems q e))\<rparr>;
            q = Unrolled_BubbleUp q (nat (Offset q e));
            (e2, q) = Unrolled_Remove q
        in if Some e \<noteq> e2 then Inl Inconsistency else Inr (e2, q))"

definition Unrolled_Add :: "'t::linorder PriorityQueue \<Rightarrow> ptr \<Rightarrow> 't PriorityQueue \<times> bool" where
  "Unrolled_Add q e =
     (let q = SetElement q (heap_size q) e;
          q = Unrolled_BubbleUp q (heap_size q);
          q = q\<lparr>cumulative_num := cumulative_num q + 1\<rparr>;
          q = q\<lparr>heap_size := heap_size q + 1\<rparr>;
          q = (if heap_size q > peak_heap_size q then q\<lparr>peak_heap_size := heap_size q\<rparr> else q)
      in if heap_size q \<ge> max_heap_size q then Resize q (max_heap_size q * 2) else (q, True))"

section \<open>The invariant\<close>

text \<open>
  Every queued element's offset is its slot; no element is earlier than the one in its parent
  slot; there is always a free slot. \<open>up_ok\<close> and \<open>down_ok\<close> are the order with one slot in doubt,
  towards the root and towards the leaves.
\<close>

definition offsets_ok :: "'t PriorityQueue \<Rightarrow> nat \<Rightarrow> bool" where
  "offsets_ok q n \<longleftrightarrow> (\<forall>i<n. Offset q (heap q ! i) = int i)"

definition ordered :: "'t::linorder PriorityQueue \<Rightarrow> nat \<Rightarrow> bool" where
  "ordered q n \<longleftrightarrow> (\<forall>i. 0 < i \<and> i < n \<longrightarrow> time_at q (i div 2) \<le> time_at q i)"

definition up_ok :: "'t::linorder PriorityQueue \<Rightarrow> nat \<Rightarrow> nat \<Rightarrow> bool" where
  "up_ok q n k \<longleftrightarrow>
     (\<forall>i. 0 < i \<and> i < n \<and> i \<noteq> k \<longrightarrow> time_at q (i div 2) \<le> time_at q i) \<and>
     (\<forall>i. 0 < i \<and> i < n \<and> i div 2 = k \<and> 0 < k \<longrightarrow> time_at q (k div 2) \<le> time_at q i)"

definition down_ok :: "'t::linorder PriorityQueue \<Rightarrow> nat \<Rightarrow> nat \<Rightarrow> bool" where
  "down_ok q n k \<longleftrightarrow>
     (\<forall>i. 0 < i \<and> i < n \<and> i div 2 \<noteq> k \<longrightarrow> time_at q (i div 2) \<le> time_at q i) \<and>
     (\<forall>i. 0 < i \<and> i < n \<and> i div 2 = k \<and> 0 < k \<longrightarrow> time_at q (k div 2) \<le> time_at q i)"

definition bag :: "'t PriorityQueue \<Rightarrow> nat \<Rightarrow> ptr multiset" where
  "bag q n = mset (take n (heap q))"

definition contents :: "'t PriorityQueue \<Rightarrow> ptr multiset" where
  "contents q = bag q (heap_size q)"

definition pq_inv :: "'t::linorder PriorityQueue \<Rightarrow> bool" where
  "pq_inv q \<longleftrightarrow> length (heap q) = max_heap_size q \<and> heap_size q < max_heap_size q \<and>
     heap_size q \<le> peak_heap_size q \<and>
     offsets_ok q (heap_size q) \<and> ordered q (heap_size q)"


section \<open>Swapping two slots\<close>

lemma Time_SetElement [simp]: "Time (SetElement q b e) x = Time q x"
  by (simp add: SetElement_def Time_def SetOffset_def)

lemma Time_Swap [simp]: "Time (Swap q a b) x = Time q x"
  by (simp add: Swap_def Let_def)

lemma heap_Swap: "heap (Swap q a b) = (heap q)[a := heap q ! b, b := heap q ! a]"
  by (simp add: Swap_def SetElement_def Let_def)

lemma Offset_Swap:
  "Offset (Swap q a b) x =
     (if x = heap q ! a then int b else if x = heap q ! b then int a else Offset q x)"
  by (simp add: Swap_def SetElement_def Offset_def SetOffset_def Let_def)

lemma offsets_ok_inj:
  "offsets_ok q n \<Longrightarrow> i < n \<Longrightarrow> j < n \<Longrightarrow> heap q ! i = heap q ! j \<Longrightarrow> i = j"
  by (metis offsets_ok_def of_nat_eq_iff)

lemma offsets_ok_Swap:
  assumes "offsets_ok q n" "a < n" "b < n" "n \<le> length (heap q)"
  shows "offsets_ok (Swap q a b) n"
  unfolding offsets_ok_def
proof (intro allI impI)
  fix i assume "i < n"
  then show "Offset (Swap q a b) (heap (Swap q a b) ! i) = int i"
    using assms offsets_ok_inj [OF assms(1)]
    by (auto simp: heap_Swap Offset_Swap nth_list_update offsets_ok_def)
qed

lemma bag_Swap:
  assumes "a < n" "b < n" "n \<le> length (heap q)"
  shows "bag (Swap q a b) n = bag q n"
  using mset_swap [of b "take n (heap q)" a] assms
  by (simp add: bag_def heap_Swap take_update_swap)

lemma time_at_Swap:
  "a < length (heap q) \<Longrightarrow> b < length (heap q) \<Longrightarrow>
   time_at (Swap q a b) i =
     (if i = a then time_at q b else if i = b then time_at q a else time_at q i)"
  by (auto simp: heap_Swap nth_list_update)

section \<open>BubbleUp restores the order above a slot\<close>

lemma up_ok_Swap:
  assumes k: "0 < k" "k < n" and n: "n \<le> length (heap q)" and ok: "up_ok q n k"
    and lt: "time_at q k < time_at q (k div 2)"
  shows "up_ok (Swap q (k div 2) k) n (k div 2)"
proof -
  let ?p = "k div 2"
  have len: "?p < length (heap q)" "k < length (heap q)" using k n by auto
  note T = time_at_Swap [OF len]
  have pk: "?p < k" using k by simp
  have A: "time_at q (i div 2) \<le> time_at q i" if "0 < i" "i < n" "i \<noteq> k" for i
    using ok that by (simp add: up_ok_def)
  have B: "time_at q ?p \<le> time_at q i" if "0 < i" "i < n" "i div 2 = k" for i
    using ok that k by (simp add: up_ok_def)
  show ?thesis
    unfolding up_ok_def T
  proof (intro conjI allI impI, goal_cases)
    case (1 i)
    then show ?case
      using A [of i] B [of i] lt pk by (auto simp: T intro: order.trans less_imp_le)
  next
    case (2 i)
    then have pp: "?p div 2 < ?p" by simp
    have "time_at q (?p div 2) \<le> time_at q ?p" using A [of ?p] 2 k pk by auto
    then show ?case
      using A [of i] 2 pp pk by (auto simp: T intro: order.trans)
  qed
qed

lemma BubbleUp_frame [simp]:
  "heap_size (BubbleUp q k) = heap_size q \<and> max_heap_size (BubbleUp q k) = max_heap_size q \<and>
   peak_heap_size (BubbleUp q k) = peak_heap_size q \<and>
   cumulative_num (BubbleUp q k) = cumulative_num q \<and>
   length (heap (BubbleUp q k)) = length (heap q) \<and> Time (BubbleUp q k) = Time q"
  apply (induction q k rule: BubbleUp.induct)
  subgoal for q k by (subst (1 2 3 4 5 6) BubbleUp.simps) (auto simp: Let_def fun_eq_iff)
  done

lemma BubbleUp_correct:
  "k < n \<Longrightarrow> n \<le> length (heap q) \<Longrightarrow> offsets_ok q n \<Longrightarrow>
   offsets_ok (BubbleUp q k) n \<and> bag (BubbleUp q k) n = bag q n \<and>
   (up_ok q n k \<longrightarrow> ordered (BubbleUp q k) n)"
proof (induction q k rule: BubbleUp.induct)
  case (1 q k)
  show ?case
  proof (cases "0 < k \<and> time_at q k < time_at q (k div 2)")
    case True
    let ?q = "Swap q (k div 2) k"
    have p: "k div 2 < n" using 1 by auto
    have e: "BubbleUp q k = BubbleUp ?q (k div 2)"
      using True by (simp add: BubbleUp.simps [of q k] Let_def)
    have "offsets_ok ?q n" "bag ?q n = bag q n"
      using 1 p by (auto intro: offsets_ok_Swap bag_Swap)
    moreover have "up_ok q n k \<longrightarrow> up_ok ?q n (k div 2)"
      using True 1 up_ok_Swap by blast
    ultimately show ?thesis
      using "1.IH" True p 1(3) by (simp add: e)
  next
    case False
    then have e: "BubbleUp q k = q" by (auto simp: BubbleUp.simps [of q k] Let_def)
    have "ordered q n" if "up_ok q n k"
      unfolding ordered_def
    proof (intro allI impI)
      fix i assume "0 < i \<and> i < n"
      then show "time_at q (i div 2) \<le> time_at q i"
        using False that by (cases "i = k") (auto simp: up_ok_def)
    qed
    then show ?thesis using 1 by (simp add: e)
  qed
qed

section \<open>BubbleDown restores the order below a slot\<close>

lemma down_ok_Swap:
  assumes c: "0 < c" "c < n" "c div 2 = k" "c \<noteq> k" and n: "n \<le> length (heap q)" and ok: "down_ok q n k"
    and le: "\<And>i. 0 < i \<Longrightarrow> i < n \<Longrightarrow> i div 2 = k \<Longrightarrow> time_at q c \<le> time_at q i"
    and lt: "time_at q c < time_at q k"
  shows "down_ok (Swap q c k) n c"
proof -
  have kc: "k < c" using c by auto
  have len: "c < length (heap q)" "k < length (heap q)" using c n kc by auto
  note T = time_at_Swap [OF len]
  have A: "time_at q (i div 2) \<le> time_at q i" if "0 < i" "i < n" "i div 2 \<noteq> k" for i
    using ok that by (simp add: down_ok_def)
  have B: "time_at q (k div 2) \<le> time_at q i" if "0 < i" "i < n" "i div 2 = k" "0 < k" for i
    using ok that by (simp add: down_ok_def)
  show ?thesis
    unfolding down_ok_def T
  proof (intro conjI allI impI, goal_cases)
    case (1 i)
    show ?case
    proof (cases "i div 2 = k")
      case True
      then show ?thesis using 1 le [of i] lt kc by (auto simp: T)
    next
      case False
      show ?thesis
      proof (cases "i = k")
        case True
        then show ?thesis using 1 B [of c] c kc by (auto simp: T)
      next
        case ik: False
        have "i \<noteq> c" using c False by auto
        then show ?thesis using 1 A [of i] False ik by (auto simp: T)
      qed
    qed
  next
    case (2 i)
    then have "time_at q c \<le> time_at q i" using A [of i] kc c by auto
    moreover have "i \<noteq> c" "i \<noteq> k" using 2 c kc by auto
    ultimately show ?case using c kc by (simp add: T)
  qed
qed

lemma down_ok_ordered:
  assumes "down_ok q n k" "\<And>i. 0 < i \<Longrightarrow> i < n \<Longrightarrow> i div 2 = k \<Longrightarrow> time_at q k \<le> time_at q i"
  shows "ordered q n"
  unfolding ordered_def
proof (intro allI impI)
  fix i assume i: "0 < i \<and> i < n"
  show "time_at q (i div 2) \<le> time_at q i"
    using assms i by (cases "i div 2 = k") (auto simp: down_ok_def)
qed

lemma BubbleDown_frame [simp]:
  "heap_size (BubbleDown q k) = heap_size q \<and> max_heap_size (BubbleDown q k) = max_heap_size q \<and>
   peak_heap_size (BubbleDown q k) = peak_heap_size q \<and>
   cumulative_num (BubbleDown q k) = cumulative_num q \<and>
   length (heap (BubbleDown q k)) = length (heap q) \<and> Time (BubbleDown q k) = Time q"
  apply (induction q k rule: BubbleDown.induct)
  subgoal for q k by (subst (1 2 3 4 5 6) BubbleDown.simps) (auto simp: Let_def fun_eq_iff)
  done

text \<open>One step of the descent: which child moves up, or that the slot already is in place.\<close>

lemma BubbleDown_cases:
  obtains (stop) "BubbleDown q k = q"
      "\<And>i. 0 < i \<Longrightarrow> i < heap_size q \<Longrightarrow> i div 2 = k \<Longrightarrow> time_at q k \<le> time_at q i"
  | (move) c where "0 < c" "c < heap_size q" "c div 2 = k" "k < c" "time_at q c < time_at q k"
      "\<And>i. 0 < i \<Longrightarrow> i < heap_size q \<Longrightarrow> i div 2 = k \<Longrightarrow> time_at q c \<le> time_at q i"
      "BubbleDown q k = BubbleDown (Swap q c k) c \<or> (BubbleDown q k = Swap q c k \<and> heap_size q \<le> 2 * c)"
proof -
  let ?n = "heap_size q" and ?l = "2 * k" and ?r = "2 * k + 1"
  have ch: "i = ?l \<or> i = ?r" if "i div 2 = k" for i
    using that by auto
  consider "?n \<le> ?l" | "?l < ?n" "?n \<le> ?r" "time_at q ?l < time_at q k"
    | "?l < ?n" "?n \<le> ?r" "\<not> time_at q ?l < time_at q k"
    | "?r < ?n" "time_at q ?l < time_at q ?r" "time_at q ?l < time_at q k"
    | "?r < ?n" "time_at q ?l < time_at q ?r" "\<not> time_at q ?l < time_at q k"
    | "?r < ?n" "\<not> time_at q ?l < time_at q ?r" "time_at q ?r < time_at q k"
    | "?r < ?n" "\<not> time_at q ?l < time_at q ?r" "\<not> time_at q ?r < time_at q k"
    by linarith
  then show thesis
  proof cases
    case 1
    then show ?thesis by (intro stop) (auto simp: BubbleDown.simps [of q k] Let_def)
  next
    case 2
    then have "k \<noteq> 0" by (cases "k = 0") auto
    have "time_at q ?l \<le> time_at q i" if "i < ?n" "i div 2 = k" for i
      using ch [OF that(2)] that(1) 2 by auto
    with 2 \<open>k \<noteq> 0\<close> show ?thesis
      by (intro move [of ?l]) (auto simp: BubbleDown.simps [of q k] Let_def)
  next
    case 3
    have "time_at q k \<le> time_at q i" if "i < ?n" "i div 2 = k" for i
      using ch [OF that(2)] that(1) 3 by auto
    with 3 show ?thesis
      by (intro stop) (auto simp: BubbleDown.simps [of q k] Let_def)
  next
    case 4
    then have "k \<noteq> 0" by (cases "k = 0") auto
    have "time_at q ?l \<le> time_at q i" if "i < ?n" "i div 2 = k" for i
      using ch [OF that(2)] that(1) 4 by auto
    with 4 \<open>k \<noteq> 0\<close> show ?thesis
      by (intro move [of ?l]) (auto simp: BubbleDown.simps [of q k] Let_def)
  next
    case 5
    have "time_at q k \<le> time_at q i" if "i < ?n" "i div 2 = k" for i
      using ch [OF that(2)] that(1) 5 by auto
    with 5 show ?thesis
      by (intro stop) (auto simp: BubbleDown.simps [of q k] Let_def)
  next
    case 6
    have "time_at q ?r \<le> time_at q i" if "i < ?n" "i div 2 = k" for i
      using ch [OF that(2)] that(1) 6 by auto
    with 6 show ?thesis
      by (intro move [of ?r]) (auto simp: BubbleDown.simps [of q k] Let_def)
  next
    case 7
    have "time_at q k \<le> time_at q i" if "i < ?n" "i div 2 = k" for i
      using ch [OF that(2)] that(1) 7 by auto
    with 7 show ?thesis
      by (intro stop) (auto simp: BubbleDown.simps [of q k] Let_def)
  qed
qed

lemma BubbleDown_correct:
  "k < heap_size q \<Longrightarrow> heap_size q \<le> length (heap q) \<Longrightarrow> offsets_ok q (heap_size q) \<Longrightarrow>
   offsets_ok (BubbleDown q k) (heap_size q) \<and> bag (BubbleDown q k) (heap_size q) = bag q (heap_size q) \<and>
   (down_ok q (heap_size q) k \<longrightarrow> ordered (BubbleDown q k) (heap_size q))"
proof (induction "heap_size q - k" arbitrary: q k rule: less_induct)
  case less
  show ?case
  proof (cases rule: BubbleDown_cases [where q = q and k = k])
    case stop
    then show ?thesis using less.prems down_ok_ordered by auto
  next
    case (move c)
    let ?q = "Swap q c k" and ?n = "heap_size q"
    have ok: "offsets_ok ?q ?n" and bg: "bag ?q ?n = bag q ?n"
      using move less.prems by (auto intro: offsets_ok_Swap bag_Swap)
    have dn: "down_ok q ?n k \<Longrightarrow> down_ok ?q ?n c"
      using down_ok_Swap [of c ?n k q] move less.prems by auto
    have IH: "offsets_ok (BubbleDown ?q c) ?n \<and> bag (BubbleDown ?q c) ?n = bag q ?n \<and>
      (down_ok q ?n k \<longrightarrow> ordered (BubbleDown ?q c) ?n)"
      using less.hyps [of ?q c] move less.prems ok bg dn by simp
    from move(7) show ?thesis
    proof
      assume "BubbleDown q k = Swap q c k \<and> heap_size q \<le> 2 * c"
      moreover have "BubbleDown ?q c = ?q" if "heap_size q \<le> 2 * c"
        using that by (simp add: BubbleDown.simps [of ?q c])
      ultimately show ?thesis using IH by simp
    qed (use IH in simp)
  qed
qed


section \<open>Add\<close>

lemma contents_iff: "heap_size q \<le> length (heap q) \<Longrightarrow> e \<in># contents q \<longleftrightarrow> (\<exists>i<heap_size q. heap q ! i = e)"
  by (auto simp: contents_def bag_def in_set_conv_nth)

lemma ordered_root_min: "ordered q n \<Longrightarrow> i < n \<Longrightarrow> time_at q 0 \<le> time_at q i"
proof (induction i rule: less_induct)
  case (less i)
  show ?case
  proof (cases "i = 0")
    case False
    then have "time_at q 0 \<le> time_at q (i div 2)" using less by auto
    also have "\<dots> \<le> time_at q i" using less.prems False by (auto simp: ordered_def)
    finally show ?thesis .
  qed simp
qed


lemma slots_cong:
  assumes "elems q' = elems q" and "take n (heap q') = take n (heap q)"
    and "n \<le> length (heap q)" and "n \<le> length (heap q')"
  shows "offsets_ok q' n = offsets_ok q n" and "ordered q' n = ordered q n" and "bag q' n = bag q n"
proof -
  have h: "heap q' ! i = heap q ! i" if "i < n" for i
    using assms(2) that by (metis nth_take)
  show "offsets_ok q' n = offsets_ok q n"
    using h by (simp add: offsets_ok_def Offset_def assms(1))
  show "ordered q' n = ordered q n"
    using h by (auto simp: ordered_def Time_def assms(1))
  show "bag q' n = bag q n" by (simp add: bag_def assms(2))
qed

lemma Time_cong: "elems q' = elems q \<Longrightarrow> Time q' = Time q"
  by (simp add: Time_def fun_eq_iff)

lemma finish_Add:
  assumes q: "length (heap q) = max_heap_size q" "Suc n \<le> max_heap_size q"
    and slots: "offsets_ok q (Suc n)" "ordered q (Suc n)"
    and q': "elems q' = elems q" "take (Suc n) (heap q') = take (Suc n) (heap q)"
      "length (heap q') = max_heap_size q'" "Suc n < max_heap_size q'" "heap_size q' = Suc n"
      "Suc n \<le> peak_heap_size q'"
  shows "pq_inv q'" and "contents q' = bag q (Suc n)" and "Time q' = Time q"
  using slots_cong [of q' q "Suc n"] assms Time_cong [of q' q]
  by (auto simp: pq_inv_def contents_def)

lemma Add_slots:
  assumes q: "pq_inv q" and e: "e \<notin># contents q" and q2: "q2 = BubbleUp (SetElement q (heap_size q) e) (heap_size q)"
  shows "offsets_ok q2 (Suc (heap_size q))" and "ordered q2 (Suc (heap_size q))"
    and "bag q2 (Suc (heap_size q)) = add_mset e (contents q)"
proof -
  let ?n = "heap_size q"
  let ?q1 = "SetElement q ?n e"
  from q have n: "?n < length (heap q)" by (auto simp: pq_inv_def)
  have ne: "i < ?n \<Longrightarrow> heap q ! i \<noteq> e" for i
    using e n contents_iff [of q] by auto
  have h: "heap ?q1 = (heap q)[?n := e]" by (simp add: SetElement_def)
  have off: "offsets_ok ?q1 (Suc ?n)"
    using q n ne
    by (auto simp: offsets_ok_def pq_inv_def Offset_def SetElement_def SetOffset_def nth_list_update less_Suc_eq)
  have bg: "bag ?q1 (Suc ?n) = add_mset e (contents q)"
    using n by (simp add: bag_def contents_def h take_Suc_conv_app_nth)
  have up: "up_ok ?q1 (Suc ?n) ?n"
    using q n by (auto simp: up_ok_def pq_inv_def ordered_def h nth_list_update)
  show "offsets_ok q2 (Suc ?n)" "ordered q2 (Suc ?n)" "bag q2 (Suc ?n) = add_mset e (contents q)"
    using BubbleUp_correct [of ?n "Suc ?n" ?q1] off up bg n by (auto simp: h q2)
qed

lemma Add_eq:
  assumes "q2 = BubbleUp (SetElement q (heap_size q) e) (heap_size q)"
  shows "Add q e =
    (let q3 = q2\<lparr>cumulative_num := cumulative_num q + 1, heap_size := heap_size q + 1,
                 peak_heap_size := max (peak_heap_size q) (heap_size q + 1)\<rparr>
     in if heap_size q + 1 \<ge> max_heap_size q then Resize q3 (max_heap_size q * 2) else (q3, True))"
proof -
  have f: "heap_size q2 = heap_size q" "max_heap_size q2 = max_heap_size q"
      "peak_heap_size q2 = peak_heap_size q" "cumulative_num q2 = cumulative_num q"
    by (simp_all add: assms SetElement_def)
  have h: "heap_size (SetElement q (heap_size q) e) = heap_size q"
    by (simp add: SetElement_def)
  define q3 where "q3 = q2\<lparr>cumulative_num := cumulative_num q + 1, heap_size := heap_size q + 1\<rparr>"
  have p: "q3\<lparr>peak_heap_size := max (peak_heap_size q) (heap_size q + 1)\<rparr> =
      (if heap_size q3 > peak_heap_size q3 then q3\<lparr>peak_heap_size := heap_size q3\<rparr> else q3)"
    by (cases q2) (use f in \<open>auto simp: q3_def max_def\<close>)
  show ?thesis
    unfolding Add_def h assms [symmetric] Let_def f
    by (simp add: f p [unfolded q3_def, simplified] Let_def)
qed

lemma Add_correct:
  assumes q: "pq_inv q" and e: "e \<notin># contents q"
  shows "pq_inv (fst (Add q e))" and "snd (Add q e)"
    and "contents (fst (Add q e)) = add_mset e (contents q)" and "Time (fst (Add q e)) = Time q"
proof -
  define q2 where "q2 = BubbleUp (SetElement q (heap_size q) e) (heap_size q)"
  note sl = Add_slots [OF q e q2_def]
  have len: "length (heap q2) = max_heap_size q2" "max_heap_size q2 = max_heap_size q"
    and T: "Time q2 = Time q"
    using q by (simp_all add: q2_def SetElement_def pq_inv_def) (simp add: Time_def SetOffset_def fun_eq_iff)
  have le: "Suc (heap_size q) \<le> max_heap_size q" using q by (simp add: pq_inv_def)
  have "pq_inv (fst (Add q e)) \<and> contents (fst (Add q e)) = bag q2 (Suc (heap_size q)) \<and> Time (fst (Add q e)) = Time q2"
    using finish_Add [OF len(1) le [folded len(2)] sl(1,2), of "fst (Add q e)"] le len
    by (auto simp: Add_eq [OF q2_def] Resize_def Let_def)
  then show "pq_inv (fst (Add q e))" "contents (fst (Add q e)) = add_mset e (contents q)" "Time (fst (Add q e)) = Time q"
    using sl T by auto
  show "snd (Add q e)" by (simp add: Add_eq [OF q2_def] Resize_def Let_def)
qed


section \<open>Remove\<close>

lemma Time_update [simp]: "Time (q\<lparr>heap_size := n\<rparr>) = Time q"
  by (simp add: Time_def fun_eq_iff)

lemma Remove_empty: "pq_inv q \<Longrightarrow> contents q = {#} \<Longrightarrow> Remove q = (None, q)"
  by (auto simp: Remove_def contents_def bag_def pq_inv_def)

lemma Remove_slots:
  assumes len: "length (heap q) = max_heap_size q" "heap_size q = Suc n" "Suc n \<le> max_heap_size q"
    and off: "offsets_ok q (Suc n)" and ord: "ordered q (Suc n)"
    and q2: "q2 = BubbleDown (SetElement (q\<lparr>heap_size := n\<rparr>) 0 (heap q ! n)) 0"
  shows "offsets_ok q2 n" and "ordered q2 n" and "bag q2 n = bag q (Suc n) - {#heap q ! 0#}"
proof -
  let ?q1 = "SetElement (q\<lparr>heap_size := n\<rparr>) 0 (heap q ! n)"
  have h: "heap ?q1 = (heap q)[0 := heap q ! n]" "heap_size ?q1 = n" by (simp_all add: SetElement_def)
  have inj: "heap q ! i \<noteq> heap q ! n" if "i < n" for i
    using offsets_ok_inj [OF off, of i n] that by auto
  have off1: "offsets_ok ?q1 n"
    using off len inj
    by (auto simp: offsets_ok_def Offset_def SetElement_def SetOffset_def nth_list_update)
  have bg: "bag ?q1 n = bag q (Suc n) - {#heap q ! 0#}"
  proof (cases n)
    case 0
    then show ?thesis using len by (simp add: bag_def h take_Suc_conv_app_nth)
  next
    case (Suc m)
    then have "bag ?q1 n = add_mset (heap q ! n) (mset (take n (heap q)) - {#heap q ! 0#})"
      using len unfolding bag_def h by (simp add: take_update_swap mset_update)
    moreover have "heap q ! 0 \<in># mset (take n (heap q))"
      using len Suc by (auto simp: in_set_conv_nth intro!: exI [of _ 0])
    ultimately show ?thesis
      using len by (simp add: bag_def take_Suc_conv_app_nth)
  qed
  have dn: "down_ok ?q1 n 0"
    using ord len by (auto simp: down_ok_def ordered_def h nth_list_update)
  have "offsets_ok q2 n \<and> ordered q2 n \<and> bag q2 n = bag ?q1 n"
  proof (cases "n = 0")
    case True
    then show ?thesis by (simp add: offsets_ok_def ordered_def bag_def)
  next
    case False
    then show ?thesis
      using BubbleDown_correct [of 0 ?q1] off1 dn len by (simp add: q2 h)
  qed
  then show "offsets_ok q2 n" "ordered q2 n" "bag q2 n = bag q (Suc n) - {#heap q ! 0#}"
    using bg by auto
qed

lemma offsets_ok_other:
  assumes "offsets_ok q n" "\<And>i. i < n \<Longrightarrow> heap q ! i \<noteq> e"
  shows "offsets_ok (q\<lparr>elems := (elems q)(e := SetOffset (elems q e) x)\<rparr>) n"
  using assms by (simp add: offsets_ok_def Offset_def)

lemma bag_count_le_1: "offsets_ok q n \<Longrightarrow> n \<le> length (heap q) \<Longrightarrow> distinct (take n (heap q))"
  by (auto simp: distinct_conv_nth dest: offsets_ok_inj)

lemma Remove_core:
  assumes len: "length (heap q) = max_heap_size q" "heap_size q = Suc n" "Suc n \<le> max_heap_size q"
      "Suc n \<le> peak_heap_size q"
    and off: "offsets_ok q (Suc n)" and ord: "ordered q (Suc n)"
  shows "\<exists>q'. Remove q = (Some (heap q ! 0), q') \<and> pq_inv q' \<and>
    contents q' = contents q - {#heap q ! 0#} \<and> Time q' = Time q \<and> Offset q' (heap q ! 0) = -1 \<and>
    heap_size q' = n"
proof -
  define q2 where "q2 = BubbleDown (SetElement (q\<lparr>heap_size := n\<rparr>) 0 (heap q ! n)) 0"
  note sl = Remove_slots [OF len(1,2,3) off ord q2_def]
  let ?t = "heap q ! 0"
  let ?q' = "q2\<lparr>elems := (elems q2)(?t := SetOffset (elems q2 ?t) (- 1))\<rparr>"
  have f: "heap_size q2 = n" "max_heap_size q2 = max_heap_size q" "peak_heap_size q2 = peak_heap_size q"
      "length (heap q2) = length (heap q)"
    by (simp_all add: q2_def SetElement_def)
  have T: "Time q2 = Time q"
    by (simp add: q2_def Time_def SetElement_def SetOffset_def fun_eq_iff)
  have R: "Remove q = (Some ?t, ?q')"
    using len by (simp add: Remove_def Let_def q2_def)
  have hd: "take (Suc n) (heap q) = ?t # take n (tl (heap q))"
    using len by (cases "heap q") auto
  have "distinct (take (Suc n) (heap q))" using bag_count_le_1 [OF off] len by simp
  then have "?t \<notin># bag q2 n" unfolding sl(3) by (simp add: bag_def hd)
  then have ne: "heap q2 ! i \<noteq> ?t" if "i < n" for i
    using that len f by (auto simp: bag_def in_set_conv_nth)
  have "offsets_ok ?q' n" using sl(1) ne by (rule offsets_ok_other)
  moreover have T': "Time ?q' = Time q2" by (simp add: Time_def SetOffset_def fun_eq_iff)
  then have "ordered ?q' n" using sl(2) by (simp add: ordered_def)
  moreover have "bag ?q' n = bag q2 n" by (simp add: bag_def)
  moreover note T'
  ultimately show ?thesis
    unfolding R using f len sl(3) T
    by (auto simp: pq_inv_def contents_def Offset_def SetOffset_def)
qed

lemma Remove_correct:
  assumes q: "pq_inv q" and ne: "contents q \<noteq> {#}"
  shows "\<exists>q'. Remove q = (Some (heap q ! 0), q') \<and> heap q ! 0 \<in># contents q \<and>
    contents q' = contents q - {#heap q ! 0#} \<and>
    (\<forall>x \<in># contents q. Time q (heap q ! 0) \<le> Time q x) \<and> pq_inv q' \<and> Time q' = Time q \<and>
    Offset q' (heap q ! 0) = -1"
proof -
  obtain n where n: "heap_size q = Suc n"
    using ne by (cases "heap_size q") (auto simp: contents_def bag_def)
  have "heap q ! 0 \<in># contents q"
    using q n contents_iff [of q] by (auto simp: pq_inv_def)
  moreover have "\<forall>x \<in># contents q. Time q (heap q ! 0) \<le> Time q x"
    using q ordered_root_min contents_iff [of q] by (auto simp: pq_inv_def)
  ultimately show ?thesis
    using Remove_core [of q n] q n by (auto simp: pq_inv_def)
qed

lemma Offset_in_heap:
  assumes "pq_inv q"
  shows "e \<in># contents q \<longleftrightarrow>
    \<not> (Offset q e < 0 \<or> int (heap_size q) \<le> Offset q e \<or> heap q ! nat (Offset q e) \<noteq> e)"
  using assms contents_iff [of q e] by (auto simp: pq_inv_def offsets_ok_def)

lemma Remove_element_absent:
  "pq_inv q \<Longrightarrow> e \<notin># contents q \<Longrightarrow> Remove_element q e = Inr (None, q)"
  by (simp add: Offset_in_heap Remove_element_def)

lemma Remove_element_present:
  assumes q: "pq_inv q" and e: "e \<in># contents q"
    and least: "\<And>x. x \<in># contents q \<Longrightarrow> x \<noteq> e \<Longrightarrow> Time q x \<noteq> bot"
  shows "\<exists>q'. Remove_element q e = Inr (Some e, q') \<and> pq_inv q' \<and>
    contents q' = contents q - {#e#} \<and> Time q' = (Time q)(e := bot) \<and> Offset q' e = -1"
proof -
  define k where "k = nat (Offset q e)"
  define q1 where "q1 = q\<lparr>elems := (elems q)(e := MinimizeTime (elems q e))\<rparr>"
  define q2 where "q2 = BubbleUp q1 k"
  have k: "k < heap_size q" "heap q ! k = e" "Offset q e = int k"
    using e Offset_in_heap [OF q, of e] by (auto simp: k_def)
  have n: "heap_size q \<le> length (heap q)" using q by (simp add: pq_inv_def)
  have off1: "offsets_ok q1 (heap_size q)"
    using q by (auto simp: q1_def pq_inv_def offsets_ok_def Offset_def MinimizeTime_def)
  have T1: "Time q1 = (Time q)(e := bot)"
    by (simp add: q1_def Time_def MinimizeTime_def fun_eq_iff)
  have inj: "heap q ! i = e \<longleftrightarrow> i = k" if "i < heap_size q" for i
    using offsets_ok_inj [of q "heap_size q" i k] q k that by (auto simp: pq_inv_def)
  have h1: "heap q1 = heap q" "heap_size q1 = heap_size q" by (simp_all add: q1_def)
  have ord: "time_at q (i div 2) \<le> time_at q i" if "0 < i" "i < heap_size q" for i
    using q that by (simp add: pq_inv_def ordered_def)
  have up: "up_ok q1 (heap_size q) k"
    unfolding up_ok_def h1
  proof (intro conjI allI impI, goal_cases)
    case (1 i)
    then show ?case using ord [of i] inj [of i] inj [of "i div 2"] by (simp add: T1)
  next
    case (2 i)
    then have "time_at q (k div 2) \<le> time_at q i"
      using ord [of i] ord [of k] k by auto
    moreover have "i \<noteq> k" "k div 2 \<noteq> k" "k div 2 < heap_size q" using 2 k by auto
    ultimately show ?case using inj [of i] inj [of "k div 2"] 2 by (simp add: T1)
  qed
  have r: "offsets_ok q2 (heap_size q) \<and> bag q2 (heap_size q) = bag q (heap_size q) \<and> ordered q2 (heap_size q)"
    using BubbleUp_correct [of k "heap_size q" q1] off1 up k n by (simp add: q2_def h1 bag_def)
  have f: "heap_size q2 = heap_size q" "max_heap_size q2 = max_heap_size q" "peak_heap_size q2 = peak_heap_size q"
      "length (heap q2) = length (heap q)" "Time q2 = (Time q)(e := bot)"
    using T1 by (simp_all add: q2_def h1) (simp_all add: q1_def)
  have inv2: "pq_inv q2" and c2: "contents q2 = contents q"
    using r q by (simp_all add: pq_inv_def f contents_def)
  have ne: "contents q2 \<noteq> {#}" using e c2 by auto
  from Remove_correct [OF inv2 ne] obtain q' where R: "Remove q2 = (Some (heap q2 ! 0), q')"
      "heap q2 ! 0 \<in># contents q" "contents q' = contents q - {#heap q2 ! 0#}"
      "Time q2 (heap q2 ! 0) \<le> Time q2 e" "pq_inv q'" "Time q' = Time q2" "Offset q' (heap q2 ! 0) = -1"
    using e c2 by auto
  have "Time q2 (heap q2 ! 0) = bot" using R(4) by (simp add: f bot_unique)
  then have top: "heap q2 ! 0 = e"
    using least R(2) by (auto simp: f split: if_splits)
  have "Offset q1 e = int k" using k by (simp add: q1_def Offset_def MinimizeTime_def)
  then have "Remove_element q e = Inr (Some e, q')"
    using k R(1) top by (simp add: Remove_element_def Let_def q1_def [symmetric] q2_def [symmetric])
  then show ?thesis using R top f by auto
qed

section \<open>The unrolled variant computes the same queues\<close>

lemma Unrolled_loop_stop [simp]: "Unrolled_loop q (int bin) bin = q"
  by (simp add: Unrolled_loop.simps)

lemma Unrolled_loop_eq: "old_bin \<noteq> int bin \<Longrightarrow> Unrolled_loop q old_bin bin = BubbleDown q bin"
proof (induction q bin arbitrary: old_bin rule: BubbleDown.induct)
  case (1 q bin)
  have l: "push_bit 1 bin = 2 * bin" by (simp add: push_bit_eq_mult)
  have "bin \<noteq> 0" if "time_at q (2 * bin) < time_at q bin"
    using that by (cases "bin = 0") auto
  then show ?case
    unfolding Unrolled_loop.simps [of q old_bin bin] BubbleDown.simps [of q bin] l Let_def
      LeftChild_eq RightChild_eq
    using 1 by (simp add: Let_def)
qed

lemma Unrolled_BubbleDown_eq: "Unrolled_BubbleDown q bin = BubbleDown q bin"
  by (simp add: Unrolled_BubbleDown_def Unrolled_loop_eq)

lemma Unrolled_BubbleUp_eq: "Unrolled_BubbleUp q bin = BubbleUp q bin"
proof (induction q bin rule: BubbleUp.induct)
  case (1 q bin)
  then show ?case
    by (simp add: Unrolled_BubbleUp.simps [of q bin] BubbleUp.simps [of q bin] drop_bit_eq_div Let_def)
qed

lemma Unrolled_Remove_eq: "Unrolled_Remove q = Remove q"
  by (simp add: Unrolled_Remove_def Remove_def Unrolled_BubbleDown_eq SetOffset_def)

section \<open>The queue as a priority queue\<close>

interpretation pq: pq_laws pq_inv contents Time "\<lambda>q e. e \<notin># contents q" "\<lambda>q e. fst (Add q e)" Remove
proof (unfold_locales, goal_cases)
  case (2 q)
  from Remove_correct [OF this] show ?case by blast
qed (simp_all add: Remove_empty Add_correct)

lemma new_PriorityQueue_inv:
  "0 < n \<Longrightarrow> pq_inv (new_PriorityQueue st n) \<and> contents (new_PriorityQueue st n) = {#} \<and>
   Time (new_PriorityQueue st n) = (\<lambda>e. elt_time (st e))"
  by (simp add: new_PriorityQueue_def pq_inv_def offsets_ok_def ordered_def contents_def bag_def
      Time_def fun_eq_iff)

lemma isl_Inconsistency: "isl x \<Longrightarrow> x = Inl Inconsistency"
  by (metis isl_def pq_error.exhaust)

section \<open>Properties\<close>

text \<open>
  C14. \<open>Add\<close> of an element that is not queued succeeds, keeps the invariant of the heap array
  (order, offsets, a free slot) and adds exactly that element; no element's time changes.
\<close>

theorem PQ_Add:
  assumes "pq_inv q" and "e \<notin># contents q"
  shows "pq_inv (fst (Add q e)) \<and> snd (Add q e) \<and>
    contents (fst (Add q e)) = add_mset e (contents q) \<and> Time (fst (Add q e)) = Time q"
  using Add_correct [OF assms] by simp

text \<open>A queue of two elements, times 5 and 3, used by the witnesses below.\<close>

definition demo_store :: "ptr \<Rightarrow> nat PQ_Element" where
  "demo_store p = new_PQ_Element (if p = 10 then 5 else if p = 11 then 3 else 7)"

definition demo_queue :: "nat PriorityQueue" where
  "demo_queue = fill (\<lambda>q e. fst (Add q e)) [10, 11] (new_PriorityQueue demo_store 16)"

lemma demo_queue_inv:
  "pq_inv demo_queue" "contents demo_queue = {#10, 11#}" "Time demo_queue = (\<lambda>e. elt_time (demo_store e))"
  using pq.fill_contents [of "new_PriorityQueue demo_store 16" "[10, 11]"]
    new_PriorityQueue_inv [of 16 demo_store]
  by (simp_all add: demo_queue_def add_mset_commute)

theorem PQ_Add_witness:
  "contents (fst (Add demo_queue 12)) = {#10, 11, 12#} \<and> snd (Add demo_queue 12)"
  using PQ_Add [OF demo_queue_inv(1), of 12] demo_queue_inv(2) by (simp add: add_mset_commute)

text \<open>
  C15. \<open>Remove()\<close> on a non-empty queue returns the element \<open>Top()\<close> shows, which is queued and has
  the least time; exactly that element leaves, its offset becomes -1, the invariant is kept.
\<close>

theorem PQ_Remove_min:
  assumes "pq_inv q" and "contents q \<noteq> {#}"
  shows "\<exists>e q'. Top q = Some e \<and> Remove q = (Some e, q') \<and> e \<in># contents q \<and>
    (\<forall>x \<in># contents q. Time q e \<le> Time q x) \<and> pq_inv q' \<and> contents q' = contents q - {#e#} \<and>
    Time q' = Time q \<and> Offset q' e = -1"
proof -
  have "heap_size q \<noteq> 0" using assms(2) by (auto simp: contents_def bag_def)
  then show ?thesis using Remove_correct [OF assms] by (auto simp: Top_def)
qed

theorem PQ_Remove_min_witness:
  "\<exists>q'. Remove demo_queue = (Some 11, q') \<and> contents q' = {#10#}"
proof -
  from PQ_Remove_min [OF demo_queue_inv(1)] demo_queue_inv(2) obtain e q' where
    "Remove demo_queue = (Some e, q')" "e = 10 \<or> e = 11" "Time demo_queue e \<le> Time demo_queue 11"
    "contents q' = {#10, 11#} - {#e#}"
    by auto
  then show ?thesis by (auto simp: demo_queue_inv(3) demo_store_def new_PQ_Element_def)
qed

text \<open>
  C16. \<open>Remove(e)\<close> of a queued element returns \<open>e\<close> and takes exactly \<open>e\<close> out, wherever it sits in
  the heap, with its time minimised and its offset -1, provided no other queued element already has
  the time \<open>-HUGE_VAL\<close>; the \<open>abort()\<close> branch is not reached. For an element that is not queued it
  returns the null pointer and changes nothing.
\<close>

theorem PQ_Remove_element:
  assumes "pq_inv q" and "\<forall>x \<in># contents q. x \<noteq> e \<longrightarrow> Time q x \<noteq> bot"
  shows "if e \<in># contents q
    then (\<exists>q'. Remove_element q e = Inr (Some e, q') \<and> pq_inv q' \<and> contents q' = contents q - {#e#} \<and>
           Time q' = (Time q)(e := bot) \<and> Offset q' e = -1)
    else Remove_element q e = Inr (None, q)"
  using Remove_element_present [OF assms(1)] Remove_element_absent [OF assms(1)] assms(2) by auto

theorem PQ_Remove_element_witness:
  "\<exists>q'. Remove_element demo_queue 10 = Inr (Some 10, q') \<and> contents q' = {#11#}"
  using PQ_Remove_element [OF demo_queue_inv(1), of 10]
  by (auto simp: demo_queue_inv demo_store_def new_PQ_Element_def bot_nat_def)

text \<open>
  The condition of the previous property is needed: with an element of time \<open>-HUGE_VAL\<close> at the
  root, removing another queued element ends in the \<open>abort()\<close> of \<open>Remove\<close>, because the minimised
  element does not rise above an equal one.
\<close>

theorem PQ_Remove_element_tie_aborts:
  "Remove_element
     (fill (\<lambda>q e. fst (Add q e)) [10, 11]
        (new_PriorityQueue (\<lambda>p. new_PQ_Element (if p = 10 then 0 else 5 :: nat)) 4)) 11
   = Inl Inconsistency"
  by (rule isl_Inconsistency) code_simp

text \<open>
  C17. \<open>PriorityQueueUnrolled\<close> is observably the same queue as \<open>PriorityQueue\<close>: its three operations,
  with the recursion of \<open>BubbleDown\<close> turned into a loop, return the same results and the same heap
  arrays, on every state.
\<close>

theorem Unrolled_equiv:
  "Unrolled_Add q e = Add q e \<and> Unrolled_Remove q = Remove q \<and>
   Unrolled_Remove_element q e = Remove_element q e"
  by (simp add: Unrolled_Add_def Add_def Unrolled_Remove_eq Unrolled_Remove_element_def
      Remove_element_def Unrolled_BubbleUp_eq)

text \<open>
  The benchmark's fill and drain loops: distinct elements added to a new queue of positive
  initial size come out of the \<open>while (e = q.Remove())\<close> loop as a permutation of the input in
  ascending order of time, and the loop ends after one call more than there are elements.
\<close>

theorem PQ_fill_drain_sorted:
  assumes "0 < n" and "distinct es"
  shows "\<exists>out. drain Remove (Suc (length es))
      (fill (\<lambda>q e. fst (Add q e)) es (new_PriorityQueue st n)) = Some out \<and>
    mset out = mset es \<and> sorted (map (\<lambda>e. elt_time (st e)) out)"
  using pq.fill_drain [of "new_PriorityQueue st n" es] new_PriorityQueue_inv [OF assms(1), of st] assms(2)
  by simp

theorem PQ_fill_drain_sorted_witness:
  "\<exists>out. drain Remove 3 (fill (\<lambda>q e. fst (Add q e)) [10, 11] (new_PriorityQueue demo_store 16)) = Some out \<and>
    mset out = {#10, 11#} \<and> sorted (map (\<lambda>e. elt_time (demo_store e)) out)"
  using PQ_fill_drain_sorted [of 16 "[10, 11]" demo_store] by (simp add: numeral_3_eq_3)

end
