(* ===== verification/PriorityQueueVect.thy ===== *)
theory PriorityQueueVect
  imports PriorityQueue
begin

text \<open>
  The sorted-vector queue of \<open>queue/PriorityQueueVect.{h,cc}\<close>: a vector of pointers in descending
  order of time, whose last element is the top of the queue.
\<close>

section \<open>The vector queue\<close>

record 't PriorityQueueVect =
  v_heap :: "ptr list"
  v_peak_heap_size :: nat
  v_cumulative_num :: uint64
  v_elems :: "ptr \<Rightarrow> 't PQ_Element"

text \<open>\<open>heap.reserve(initial_size)\<close> changes no element of the vector.\<close>

definition new_PriorityQueueVect :: "(ptr \<Rightarrow> 't PQ_Element) \<Rightarrow> nat \<Rightarrow> 't PriorityQueueVect" where
  "new_PriorityQueueVect st initial_size =
     \<lparr>v_heap = [], v_peak_heap_size = 0, v_cumulative_num = 0, v_elems = st\<rparr>"

definition Vect_Time :: "'t PriorityQueueVect \<Rightarrow> ptr \<Rightarrow> 't" where
  "Vect_Time q e = elt_time (v_elems q e)"

definition Vect_Offset :: "'t PriorityQueueVect \<Rightarrow> ptr \<Rightarrow> int" where
  "Vect_Offset q e = elt_offset (v_elems q e)"

definition Vect_Top :: "'t PriorityQueueVect \<Rightarrow> ptr option" where
  "Vect_Top q = (if v_heap q = [] then None else Some (last (v_heap q)))"

definition Vect_Size :: "'t PriorityQueueVect \<Rightarrow> nat" where
  "Vect_Size q = length (v_heap q)"

definition Vect_SetOffset :: "'t PriorityQueueVect \<Rightarrow> ptr \<Rightarrow> int \<Rightarrow> 't PriorityQueueVect" where
  "Vect_SetOffset q e off = q\<lparr>v_elems := (v_elems q)(e := SetOffset (v_elems q e) off)\<rparr>"

definition Vect_SetElement :: "'t PriorityQueueVect \<Rightarrow> nat \<Rightarrow> ptr \<Rightarrow> 't PriorityQueueVect" where
  "Vect_SetElement q bin e = Vect_SetOffset (q\<lparr>v_heap := (v_heap q)[bin := e]\<rparr>) e (int bin)"

definition Vect_Swap :: "'t PriorityQueueVect \<Rightarrow> nat \<Rightarrow> nat \<Rightarrow> 't PriorityQueueVect" where
  "Vect_Swap q bin1 bin2 =
     (let t = v_heap q ! bin1;
          q = Vect_SetElement q bin1 (v_heap q ! bin2)
      in Vect_SetElement q bin2 t)"

definition Vect_Remove :: "'t PriorityQueueVect \<Rightarrow> ptr option \<times> 't PriorityQueueVect" where
  "Vect_Remove q =
     (if v_heap q = [] then (None, q)
      else
        let e = last (v_heap q);
            q = q\<lparr>v_heap := butlast (v_heap q)\<rparr>
        in (Some e, Vect_SetOffset q e (-1)))"

text \<open>
  \<open>std::find\<close> returns the first position of \<open>e\<close>; \<open>heap.erase\<close> takes that one element out. When
  \<open>e\<close> is not found the code aborts.
\<close>

definition Vect_Remove_element ::
  "'t::order_bot PriorityQueueVect \<Rightarrow> ptr \<Rightarrow> pq_error + ptr option \<times> 't PriorityQueueVect" where
  "Vect_Remove_element q e =
     (if Vect_Offset q e < 0 \<or> int (length (v_heap q)) \<le> Vect_Offset q e \<or>
         v_heap q ! nat (Vect_Offset q e) \<noteq> e
      then Inr (None, q)
      else
        let q = q\<lparr>v_elems := (v_elems q)(e := MinimizeTime (v_elems q e))\<rparr>
        in if e \<in> set (v_heap q) then Inr (Some e, q\<lparr>v_heap := remove1 e (v_heap q)\<rparr>)
           else Inl Inconsistency)"

text \<open>\<open>std::lower_bound\<close> over \<open>[first, first + cnt)\<close> with the code's comparator, by bisection.\<close>

function lower_bound :: "('a \<Rightarrow> bool) \<Rightarrow> 'a list \<Rightarrow> nat \<Rightarrow> nat \<Rightarrow> nat" where
  "lower_bound before xs first cnt =
     (if cnt = 0 then first
      else let step = cnt div 2; it = first + step in
        if before (xs ! it) then lower_bound before xs (it + 1) (cnt - (step + 1))
        else lower_bound before xs first step)"
  by pat_completeness auto
termination
  by (relation "measure (\<lambda>(before, xs, first, cnt). cnt)") auto

declare lower_bound.simps [simp del]

definition Vect_Add :: "'t::linorder PriorityQueueVect \<Rightarrow> ptr \<Rightarrow> 't PriorityQueueVect \<times> bool" where
  "Vect_Add q e =
     (let q = (if v_heap q = [] then Vect_SetOffset (q\<lparr>v_heap := v_heap q @ [e]\<rparr>) e 0
               else
                 let it = lower_bound (\<lambda>l. Vect_Time q l > Vect_Time q e) (v_heap q) 0 (length (v_heap q));
                     q = q\<lparr>v_heap := take it (v_heap q) @ e # drop it (v_heap q)\<rparr>
                 in Vect_SetOffset q e 1);
          q = q\<lparr>v_cumulative_num := v_cumulative_num q + 1\<rparr>;
          q = (if length (v_heap q) > v_peak_heap_size q
               then q\<lparr>v_peak_heap_size := length (v_heap q)\<rparr> else q)
      in (q, True))"

text \<open>The unused \<open>BubbleUp\<close> returns how many swaps it did.\<close>

function Vect_BubbleUp :: "'t::linorder PriorityQueueVect \<Rightarrow> nat \<Rightarrow> 't PriorityQueueVect \<times> nat" where
  "Vect_BubbleUp q bin =
     (if bin = 0 then (q, 0)
      else let p = Parent bin in
        if Vect_Time q (v_heap q ! p) < Vect_Time q (v_heap q ! bin)
        then (let (q, n) = Vect_BubbleUp (Vect_Swap q p bin) p in (q, n + 1))
        else (q, 0))"
  by pat_completeness auto
termination
  by (relation "measure (\<lambda>(q, bin). bin)") auto

declare Vect_BubbleUp.simps [simp del]

section \<open>The invariant\<close>

definition descending :: "'t::linorder PriorityQueueVect \<Rightarrow> ptr list \<Rightarrow> bool" where
  "descending q xs \<longleftrightarrow> sorted_wrt (\<lambda>a b. Vect_Time q b \<le> Vect_Time q a) xs"

definition vq_inv :: "'t::linorder PriorityQueueVect \<Rightarrow> bool" where
  "vq_inv q \<longleftrightarrow> descending q (v_heap q) \<and> length (v_heap q) \<le> v_peak_heap_size q"

definition vcontents :: "'t PriorityQueueVect \<Rightarrow> ptr multiset" where
  "vcontents q = mset (v_heap q)"

section \<open>Bisection finds the partition point\<close>

lemma lower_bound_partition:
  assumes "\<And>i. i < k \<Longrightarrow> before (xs ! i)" and "\<And>i. k \<le> i \<Longrightarrow> i < n \<Longrightarrow> \<not> before (xs ! i)"
  shows "first \<le> k \<Longrightarrow> k \<le> first + cnt \<Longrightarrow> first + cnt \<le> n \<Longrightarrow> lower_bound before xs first cnt = k"
proof (induction cnt arbitrary: first rule: less_induct)
  case (less cnt)
  show ?case
  proof (cases "cnt = 0")
    case True
    then show ?thesis using less.prems by (simp add: lower_bound.simps)
  next
    case False
    let ?s = "cnt div 2"
    show ?thesis
    proof (cases "before (xs ! (first + ?s))")
      case True
      then have "first + ?s < k" using assms(2) [of "first + ?s"] less.prems False by force
      then show ?thesis
        using less.IH [of "cnt - (?s + 1)" "first + ?s + 1"] less.prems False True
        by (simp add: lower_bound.simps [of before xs first cnt] Let_def)
    next
      case nb: False
      then have "k \<le> first + ?s" using assms(1) not_le by blast
      then show ?thesis
        using less.IH [of ?s first] less.prems False nb
        by (simp add: lower_bound.simps [of before xs first cnt] Let_def)
    qed
  qed
qed

lemma lower_bound_descending:
  assumes "descending q xs"
    and kd: "k = lower_bound (\<lambda>l. Vect_Time q l > Vect_Time q e) xs 0 (length xs)"
  shows "descending q (take k xs @ e # drop k xs)" and "k \<le> length xs"
    and "k = length (takeWhile (\<lambda>l. Vect_Time q l > Vect_Time q e) xs)"
proof -
  let ?b = "\<lambda>l. Vect_Time q l > Vect_Time q e"
  let ?k = "length (takeWhile ?b xs)"
  have lo: "?b (xs ! i)" if "i < ?k" for i
    using that by (metis nth_mem set_takeWhileD takeWhile_nth)
  have hi: "\<not> ?b (xs ! i)" if "?k \<le> i" "i < length xs" for i
  proof (cases "i = ?k")
    case True
    then show ?thesis using nth_length_takeWhile that by blast
  next
    case False
    with that have "Vect_Time q (xs ! i) \<le> Vect_Time q (xs ! ?k)" "?k < length xs"
      using assms(1) by (auto simp: descending_def sorted_wrt_iff_nth_less)
    then show ?thesis using nth_length_takeWhile [of ?b xs] by auto
  qed
  have k: "k = ?k"
    unfolding kd
    by (rule lower_bound_partition [where n = "length xs"]) (auto simp: lo hi length_takeWhile_le)
  from k show "k = ?k" .
  show "k \<le> length xs" by (simp add: k length_takeWhile_le)
  have "\<forall>x \<in> set (take k xs). Vect_Time q e \<le> Vect_Time q x"
    using lo by (auto simp: k in_set_conv_nth less_imp_le)
  moreover have "\<forall>x \<in> set (drop k xs). Vect_Time q x \<le> Vect_Time q e"
    using hi by (auto simp: k in_set_conv_nth not_less)
  moreover have "descending q (take k xs @ drop k xs)" using assms(1) by simp
  ultimately show "descending q (take k xs @ e # drop k xs)"
    by (auto simp: descending_def sorted_wrt_append simp del: append_take_drop_id)
qed

lemma lower_bound_empty [simp]: "lower_bound before xs first 0 = first"
  by (subst lower_bound.simps) simp

section \<open>The operations keep the order\<close>

lemma Vect_SetOffset_frame [simp]:
  "v_heap (Vect_SetOffset q e x) = v_heap q" "Vect_Time (Vect_SetOffset q e x) = Vect_Time q"
  "v_peak_heap_size (Vect_SetOffset q e x) = v_peak_heap_size q"
  "v_cumulative_num (Vect_SetOffset q e x) = v_cumulative_num q"
  "Vect_Offset (Vect_SetOffset q e x) e = x"
  by (simp_all add: Vect_SetOffset_def Vect_Time_def Vect_Offset_def SetOffset_def fun_eq_iff)

lemma Vect_Time_update [simp]:
  "Vect_Time (q\<lparr>v_heap := h\<rparr>) = Vect_Time q" "Vect_Time (q\<lparr>v_peak_heap_size := n\<rparr>) = Vect_Time q"
  "Vect_Time (q\<lparr>v_cumulative_num := c\<rparr>) = Vect_Time q"
  by (simp_all add: Vect_Time_def fun_eq_iff)

lemma Vect_Add_heap:
  "v_heap (fst (Vect_Add q e)) =
     (let it = lower_bound (\<lambda>l. Vect_Time q l > Vect_Time q e) (v_heap q) 0 (length (v_heap q))
      in take it (v_heap q) @ e # drop it (v_heap q))"
  by (simp add: Vect_Add_def Let_def)

lemma Vect_Add_Time: "Vect_Time (fst (Vect_Add q e)) = Vect_Time q"
  by (simp add: Vect_Add_def Let_def)

lemma Vect_Add_peak:
  "v_peak_heap_size (fst (Vect_Add q e)) = max (v_peak_heap_size q) (length (v_heap (fst (Vect_Add q e))))"
  by (simp add: Vect_Add_def Let_def max_def)

lemma Vect_Add_inv: "vq_inv q \<Longrightarrow> vq_inv (fst (Vect_Add q e))"
  using lower_bound_descending [of q "v_heap q" _ e, OF _ refl]
  by (simp add: vq_inv_def Vect_Add_peak Vect_Add_heap Let_def) (simp add: descending_def Vect_Add_Time)

text \<open>Where the new element goes: behind every later time, before every time that is not later, an equal one included.\<close>

lemma Vect_Add_position:
  assumes "vq_inv q"
  shows "v_heap (fst (Vect_Add q e)) =
    takeWhile (\<lambda>l. Vect_Time q e < Vect_Time q l) (v_heap q) @ e # dropWhile (\<lambda>l. Vect_Time q e < Vect_Time q l) (v_heap q)"
  using lower_bound_descending(3) [of q "v_heap q" _ e, OF _ refl] assms
  by (simp add: Vect_Add_heap Let_def vq_inv_def takeWhile_eq_take [symmetric] dropWhile_eq_drop [symmetric])

lemma Vect_Add_fields:
  "snd (Vect_Add q e)" "v_cumulative_num (fst (Vect_Add q e)) = v_cumulative_num q + 1"
  "Vect_Offset (fst (Vect_Add q e)) x = (if x = e then if v_heap q = [] then 0 else 1 else Vect_Offset q x)"
  by (simp_all add: Vect_Add_def Let_def Vect_Offset_def Vect_SetOffset_def SetOffset_def)

lemma Vect_Add_contents: "vcontents (fst (Vect_Add q e)) = add_mset e (vcontents q)"
proof -
  have "mset (take k xs) + mset (drop k xs) = mset xs" for k and xs :: "ptr list"
    by (metis append_take_drop_id mset_append)
  then show ?thesis by (simp add: vcontents_def Vect_Add_heap Let_def)
qed

lemma Vect_Remove_min:
  assumes "vq_inv q" "v_heap q \<noteq> []"
  shows "\<exists>q'. Vect_Remove q = (Some (last (v_heap q)), q') \<and>
    vcontents q' = vcontents q - {#last (v_heap q)#} \<and> vq_inv q' \<and> Vect_Time q' = Vect_Time q \<and>
    (\<forall>x \<in># vcontents q. Vect_Time q (last (v_heap q)) \<le> Vect_Time q x) \<and>
    Vect_Offset q' (last (v_heap q)) = -1"
proof -
  obtain xs e where h: "v_heap q = xs @ [e]" using assms(2) by (metis rev_exhaust)
  then have "descending q (xs @ [e])" using assms(1) by (simp add: vq_inv_def)
  then show ?thesis
    using assms(1)
    by (auto simp: h Vect_Remove_def Let_def vcontents_def vq_inv_def descending_def sorted_wrt_append)
qed

interpretation vq: pq_total vq_inv vcontents Vect_Time "\<lambda>q e. True" "\<lambda>q e. fst (Vect_Add q e)" Vect_Remove
proof (unfold_locales, goal_cases)
  case (1 q)
  then show ?case by (simp add: Vect_Remove_def vcontents_def)
next
  case (2 q)
  then have "v_heap q \<noteq> []" "last (v_heap q) \<in># vcontents q" by (auto simp: vcontents_def)
  with Vect_Remove_min [OF 2(1)] show ?case by auto
qed (simp_all add: Vect_Add_inv Vect_Add_contents Vect_Add_Time)

section \<open>Properties\<close>

text \<open>
  C18. \<open>PriorityQueueVect::Add\<close> puts the new element at the position that \<open>std::lower_bound\<close> finds by bisection: behind all elements
  with a later time and before all others, so that an element of the same time stays nearer to the top. The vector stays in
  descending order, no other element moves past another, no time changes, the counters are updated, and the offset written is 0
  for the first element and 1 for every other one, wherever it was put.
\<close>

theorem Vect_Add_sorted:
  assumes "vq_inv q"
  shows "vq_inv (fst (Vect_Add q e)) \<and>
    (\<exists>later others. v_heap q = later @ others \<and> v_heap (fst (Vect_Add q e)) = later @ e # others \<and>
      (\<forall>l \<in> set later. Vect_Time q e < Vect_Time q l) \<and> (\<forall>l \<in> set others. Vect_Time q l \<le> Vect_Time q e)) \<and>
    snd (Vect_Add q e) \<and> Vect_Time (fst (Vect_Add q e)) = Vect_Time q \<and>
    v_cumulative_num (fst (Vect_Add q e)) = v_cumulative_num q + 1 \<and>
    v_peak_heap_size (fst (Vect_Add q e)) = max (v_peak_heap_size q) (length (v_heap q) + 1) \<and>
    Vect_Offset (fst (Vect_Add q e)) = (Vect_Offset q)(e := if v_heap q = [] then 0 else 1)"
proof -
  let ?b = "\<lambda>l. Vect_Time q e < Vect_Time q l"
  have "descending q (takeWhile ?b (v_heap q) @ e # dropWhile ?b (v_heap q))"
    using Vect_Add_inv [OF assms, of e] Vect_Add_position [OF assms, of e] by (simp add: vq_inv_def descending_def Vect_Add_Time)
  then have "\<forall>l \<in> set (dropWhile ?b (v_heap q)). Vect_Time q l \<le> Vect_Time q e" by (simp add: descending_def sorted_wrt_append)
  moreover have "\<forall>l \<in> set (takeWhile ?b (v_heap q)). ?b l" by (auto dest: set_takeWhileD)
  moreover have "Vect_Offset (fst (Vect_Add q e)) = (Vect_Offset q)(e := if v_heap q = [] then 0 else 1)"
    by (simp add: fun_eq_iff Vect_Add_fields)
  moreover have "length (v_heap (fst (Vect_Add q e))) = length (v_heap q) + 1"
    using Vect_Add_contents [of q e] by (metis Suc_eq_plus1 size_add_mset size_mset vcontents_def)
  ultimately show ?thesis
    using Vect_Add_inv [OF assms, of e] Vect_Add_position [OF assms, of e] Vect_Add_fields(1,2) [of q e] Vect_Add_Time [of q e] Vect_Add_peak [of q e]
      takeWhile_dropWhile_id [of ?b "v_heap q"] by metis
qed

definition tie_queue :: "nat PriorityQueueVect" where
  "tie_queue = fill (\<lambda>q e. fst (Vect_Add q e)) [20, 21, 22]
     (new_PriorityQueueVect (\<lambda>p. new_PQ_Element (if p = 20 then 1 else if p = 21 then 3 else 2)) 16)"

theorem Vect_Add_sorted_witness:
  "v_heap tie_queue = [21, 22, 20] \<and> Vect_Time tie_queue 22 = Vect_Time tie_queue 23 \<and>
   v_heap (fst (Vect_Add tie_queue 23)) = [21, 23, 22, 20]"
proof -
  have h: "v_heap tie_queue = [21, 22, 20]" by code_simp
  have t: "Vect_Time tie_queue 20 = 1" "Vect_Time tie_queue 21 = 3" "Vect_Time tie_queue 22 = 2" "Vect_Time tie_queue 23 = 2" by code_simp+
  have "v_peak_heap_size tie_queue = 3" by code_simp
  then have "vq_inv tie_queue" by (simp add: vq_inv_def descending_def h t)
  from Vect_Add_sorted [OF this, of 23] obtain later others where l: "[21, 22, 20] = later @ others"
      "v_heap (fst (Vect_Add tie_queue 23)) = later @ 23 # others" "\<forall>l \<in> set later. 2 < Vect_Time tie_queue l"
      "\<forall>l \<in> set others. Vect_Time tie_queue l \<le> 2" by (auto simp: h t)
  from l(1) have "later = [] \<and> others = [21, 22, 20] \<or> later = [21] \<and> others = [22, 20] \<or> 22 \<in> set later"
    by (auto simp: Cons_eq_append_conv)
  then have "later = [21] \<and> others = [22, 20]" using l(3,4) t by auto
  then show ?thesis using h l(2) t by simp
qed

text \<open>
  The sorted vector and the binary heap drain to the same sequence of times: filled with the
  same distinct elements, both loops end and list the same times in ascending order.
\<close>

theorem Vect_heap_drain_agree:
  assumes "0 < n" and "distinct es"
  shows "\<exists>a b. drain Vect_Remove (Suc (length es))
       (fill (\<lambda>q e. fst (Vect_Add q e)) es (new_PriorityQueueVect st m)) = Some a \<and>
     drain Remove (Suc (length es))
       (fill (\<lambda>q e. fst (Add q e)) es (new_PriorityQueue st n)) = Some b \<and>
     map (\<lambda>e. elt_time (st e)) a = map (\<lambda>e. elt_time (st e)) b"
proof -
  let ?t = "\<lambda>e. elt_time (st e)"
  have "vq_inv (new_PriorityQueueVect st m)" "vcontents (new_PriorityQueueVect st m) = {#}"
      "Vect_Time (new_PriorityQueueVect st m) = ?t"
    by (simp_all add: vq_inv_def vcontents_def new_PriorityQueueVect_def descending_def Vect_Time_def fun_eq_iff)
  with vq.fill_drain_any [of "new_PriorityQueueVect st m" es] obtain a where
    a: "drain Vect_Remove (Suc (length es)) (fill (\<lambda>q e. fst (Vect_Add q e)) es (new_PriorityQueueVect st m)) = Some a"
      "mset a = mset es" "sorted (map ?t a)"
    by auto
  from pq.fill_drain [of "new_PriorityQueue st n" es] new_PriorityQueue_inv [OF assms(1), of st] assms(2)
  obtain b where
    b: "drain Remove (Suc (length es)) (fill (\<lambda>q e. fst (Add q e)) es (new_PriorityQueue st n)) = Some b"
      "mset b = mset es" "sorted (map ?t b)"
    by auto
  have "mset (map ?t a) = mset (map ?t b)" using a(2) b(2) by simp
  then have "map ?t a = map ?t b" using a(3) b(3) by (metis properties_for_sort)
  with a(1) b(1) show ?thesis by blast
qed

theorem Vect_heap_drain_agree_witness:
  "\<exists>a b. drain Vect_Remove 3
       (fill (\<lambda>q e. fst (Vect_Add q e)) [10, 11] (new_PriorityQueueVect demo_store 16)) = Some a \<and>
     drain Remove 3 (fill (\<lambda>q e. fst (Add q e)) [10, 11] (new_PriorityQueue demo_store 16)) = Some b \<and>
     map (\<lambda>e. elt_time (demo_store e)) a = map (\<lambda>e. elt_time (demo_store e)) b"
  using Vect_heap_drain_agree [of 16 "[10, 11]" demo_store 16] by (simp add: numeral_3_eq_3)

text \<open>
  \<open>PriorityQueueVect::Remove(e)\<close> does not take out every queued element: \<open>Add\<close> records offset 1
  for all elements after the first and never updates it, so after adding the times 1, 3, 2 the
  request to remove the first element answers with the null pointer although it is queued.
\<close>

theorem Vect_Remove_element_misses:
  "let q = fill (\<lambda>q e. fst (Vect_Add q e)) [20, 21, 22]
             (new_PriorityQueueVect (\<lambda>p. new_PQ_Element (if p = 20 then 1 else if p = 21 then 3 else (2 :: nat))) 16)
   in 20 \<in># vcontents q \<and> v_heap q = [21, 22, 20] \<and>
      (case Vect_Remove_element q 20 of Inr (None, q') \<Rightarrow> v_heap q' = [21, 22, 20] | _ \<Rightarrow> False)"
  by code_simp

end
