(* ===== verification/BHeap.thy ===== *)
theory BHeap
  imports PQ_Spec
begin

text \<open>
  The B-heap of \<open>queue/prio_queue.hpp\<close>: a binary heap whose nodes are numbered block by block, so
  that a path from the root touches few blocks. The first slot of every block stays unused. Keys and
  payloads live in two \<open>skip_vector\<close>s that are changed in step.

  A \<open>skip_vector\<close> is its storage, a list of cells (\<open>None\<close>: raw memory, no object constructed there),
  and \<open>m_end\<close>. The block size is a power of two at least 2. Moving an object leaves the source
  constructed; its value is not read again before it is overwritten or destroyed, so that the model keeps
  it. The comparison is \<open>std::less\<close> on a linear order. Exceptions of constructors and of the allocator
  are outside of the model.
\<close>

section \<open>Skip vectors\<close>

record 'a skip_vector =
  m_ptr :: "'a option list"
  m_end :: nat

definition block_mask :: "nat \<Rightarrow> nat" where
  "block_mask bs = bs - 1"

definition m_storage_size :: "'a skip_vector \<Rightarrow> nat" where
  "m_storage_size v = length (m_ptr v)"

definition new_skip_vector :: "'a skip_vector" where
  "new_skip_vector = \<lparr>m_ptr = [], m_end = 0\<rparr>"

definition sv_nth :: "'a skip_vector \<Rightarrow> nat \<Rightarrow> 'a" where
  "sv_nth v idx = the (m_ptr v ! idx)"

definition sv_set :: "'a skip_vector \<Rightarrow> nat \<Rightarrow> 'a \<Rightarrow> 'a skip_vector" where
  "sv_set v idx x = v\<lparr>m_ptr := (m_ptr v)[idx := Some x]\<rparr>"

definition sv_back :: "'a skip_vector \<Rightarrow> 'a" where
  "sv_back v = the (m_ptr v ! (m_end v - 1))"

definition sv_size :: "'a skip_vector \<Rightarrow> nat" where
  "sv_size v = m_end v"

definition sv_empty :: "'a skip_vector \<Rightarrow> bool" where
  "sv_empty v \<longleftrightarrow> sv_size v = 0"

text \<open>\<open>move_to\<close> of plain data copies every cell; the other versions go from object to object.\<close>

definition move_to_pod :: "'a option list \<Rightarrow> nat \<Rightarrow> 'a option list \<Rightarrow> 'a option list" where
  "move_to_pod b s ptr = take s b @ drop s ptr"

function move_to_loop :: "nat \<Rightarrow> 'a option list \<Rightarrow> nat \<Rightarrow> 'a option list \<Rightarrow> nat \<Rightarrow> 'a option list" where
  "move_to_loop bs b s ptr i =
     (if i < s
      then move_to_loop bs b s (if i AND block_mask bs \<noteq> 0 then ptr[i := b ! i] else ptr) (i + 1)
      else ptr)"
  by pat_completeness auto
termination
  by (relation "measure (\<lambda>(bs, b, s, ptr, i). s - i)") auto

declare move_to_loop.simps [simp del]

definition move_to :: "nat \<Rightarrow> 'a option list \<Rightarrow> nat \<Rightarrow> 'a option list \<Rightarrow> 'a option list" where
  "move_to bs b s ptr = move_to_loop bs b s ptr 1"

definition grow :: "nat \<Rightarrow> 'a skip_vector \<Rightarrow> 'a \<Rightarrow> nat \<times> 'a skip_vector" where
  "grow bs v u =
     (let desired_size = (if m_storage_size v \<noteq> 0 then m_storage_size v * 2 else bs * 16);
          ptr = replicate desired_size None;
          ptr = ptr[m_end v + 1 := Some u];
          idx = m_end v + 1;
          ptr = (if m_storage_size v \<noteq> 0 then move_to bs (m_ptr v) (m_end v) ptr else ptr)
      in (idx, \<lparr>m_ptr = ptr, m_end = idx + 1\<rparr>))"

definition sv_push_back :: "nat \<Rightarrow> 'a skip_vector \<Rightarrow> 'a \<Rightarrow> nat \<times> 'a skip_vector" where
  "sv_push_back bs v u =
     (if m_end v AND block_mask bs \<noteq> 0
      then (m_end v, v\<lparr>m_ptr := (m_ptr v)[m_end v := Some u], m_end := m_end v + 1\<rparr>)
      else if m_end v = m_storage_size v then grow bs v u
      else
        let v = v\<lparr>m_end := m_end v + 1\<rparr>;
            v = v\<lparr>m_ptr := (m_ptr v)[m_end v := Some u]\<rparr>
        in (m_end v, v\<lparr>m_end := m_end v + 1\<rparr>))"

definition sv_pop_back :: "nat \<Rightarrow> 'a skip_vector \<Rightarrow> 'a skip_vector" where
  "sv_pop_back bs v =
     (let v = v\<lparr>m_end := m_end v - 1\<rparr>;
          v = v\<lparr>m_ptr := (m_ptr v)[m_end v := None]\<rparr>
      in v\<lparr>m_end := m_end v - (if m_end v AND block_mask bs = 1 then 1 else 0)\<rparr>)"

fun destroy_loop :: "nat \<Rightarrow> 'a option list \<Rightarrow> nat \<Rightarrow> 'a option list" where
  "destroy_loop bs ptr 0 = ptr"
| "destroy_loop bs ptr (Suc i) =
     destroy_loop bs (if i AND block_mask bs \<noteq> 0 then ptr[i := None] else ptr) i"

text \<open>The storage as the destructor leaves it for deallocation.\<close>

definition sv_destroy :: "nat \<Rightarrow> 'a skip_vector \<Rightarrow> 'a option list" where
  "sv_destroy bs v = destroy_loop bs (m_ptr v) (m_end v)"

section \<open>Addressing\<close>

definition block_offset :: "nat \<Rightarrow> nat \<Rightarrow> nat" where
  "block_offset bs node_no = node_no AND block_mask bs"

definition block_base :: "nat \<Rightarrow> nat \<Rightarrow> nat" where
  "block_base bs node_no = nat (int node_no AND NOT (int (block_mask bs)))"

definition is_block_root :: "nat \<Rightarrow> nat \<Rightarrow> bool" where
  "is_block_root bs node_no \<longleftrightarrow> block_offset bs node_no = 1"

definition is_block_leaf :: "nat \<Rightarrow> nat \<Rightarrow> bool" where
  "is_block_leaf bs node_no \<longleftrightarrow> node_no AND drop_bit 1 bs \<noteq> 0"

definition child_no :: "nat \<Rightarrow> nat \<Rightarrow> nat" where
  "child_no bs node_no = node_no AND drop_bit 1 (block_mask bs)"

definition child_of :: "nat \<Rightarrow> nat \<Rightarrow> nat" where
  "child_of bs node_no =
     (if \<not> is_block_leaf bs node_no then node_no + block_offset bs node_no
      else let base = block_base bs node_no + 1
           in base * bs + child_no bs node_no * bs * 2 + 1)"

definition parent_of :: "nat \<Rightarrow> nat \<Rightarrow> nat" where
  "parent_of bs node_no =
     (let node_root = block_base bs node_no
      in if \<not> is_block_root bs node_no then node_root + block_offset bs node_no div 2
         else
           let parent_base = block_base bs (node_root div bs - 1);
               child = ((node_no - bs) div bs - parent_base) div 2
           in parent_base + bs div 2 + child)"

section \<open>The queue\<close>

record ('k, 'v) prio_queue =
  m_storage :: "'k skip_vector"
  P_storage :: "'v skip_vector"

definition new_prio_queue :: "('k, 'v) prio_queue" where
  "new_prio_queue = \<lparr>m_storage = new_skip_vector, P_storage = new_skip_vector\<rparr>"

text \<open>The pair of statements \<open>m_storage[to] = std::move(m_storage[from]); P::move(from, to);\<close>.\<close>

definition move_node :: "('k, 'v) prio_queue \<Rightarrow> nat \<Rightarrow> nat \<Rightarrow> ('k, 'v) prio_queue" where
  "move_node q from to =
     \<lparr>m_storage = sv_set (m_storage q) to (sv_nth (m_storage q) from),
      P_storage = sv_set (P_storage q) to (sv_nth (P_storage q) from)\<rparr>"

text \<open>The pair of statements \<open>m_storage[idx] = std::move(key); P::store(idx, std::move(val));\<close>.\<close>

definition store_node :: "('k, 'v) prio_queue \<Rightarrow> nat \<Rightarrow> 'k \<Rightarrow> 'v \<Rightarrow> ('k, 'v) prio_queue" where
  "store_node q idx key val =
     \<lparr>m_storage = sv_set (m_storage q) idx key, P_storage = sv_set (P_storage q) idx val\<rparr>"

text \<open>
  The loops end because indices fall or rise along the tree; that is a theorem about valid indices,
  so the loops are partial functions.
\<close>

partial_function (option) up_loop ::
  "nat \<Rightarrow> ('k::linorder, 'v) prio_queue \<Rightarrow> nat \<Rightarrow> 'k \<Rightarrow> (('k, 'v) prio_queue \<times> nat) option" where
  "up_loop bs q hole_idx tmp =
     (if hole_idx \<noteq> 1
      then
        let parent = parent_of bs hole_idx
        in if \<not> tmp < sv_nth (m_storage q) parent then Some (q, hole_idx)
           else up_loop bs (move_node q parent hole_idx) parent tmp
      else Some (q, hole_idx))"

definition push_key :: "nat \<Rightarrow> ('k::linorder, 'v) prio_queue \<Rightarrow> 'k \<Rightarrow> ('k, 'v) prio_queue option" where
  "push_key bs q key =
     (let (hole_idx, s) = sv_push_back bs (m_storage q) key;
          q = q\<lparr>m_storage := s\<rparr>;
          tmp = sv_back (m_storage q);
          val = sv_back (P_storage q)
      in case up_loop bs q hole_idx tmp of
           None \<Rightarrow> None
         | Some (q, hole_idx) \<Rightarrow> Some (store_node q hole_idx tmp val))"

definition bq_push :: "nat \<Rightarrow> ('k::linorder, 'v) prio_queue \<Rightarrow> 'k \<Rightarrow> 'v \<Rightarrow> ('k, 'v) prio_queue option" where
  "bq_push bs q key val =
     (let (_, p) = sv_push_back bs (P_storage q) val
      in push_key bs (q\<lparr>P_storage := p\<rparr>) key)"

definition bq_empty :: "('k, 'v) prio_queue \<Rightarrow> bool" where
  "bq_empty q \<longleftrightarrow> sv_empty (m_storage q)"

definition bq_size :: "nat \<Rightarrow> ('k, 'v) prio_queue \<Rightarrow> nat" where
  "bq_size bs q = sv_size (m_storage q) - (sv_size (m_storage q) + bs - 1) div bs"

definition bq_top :: "('k, 'v) prio_queue \<Rightarrow> 'k \<times> 'v" where
  "bq_top q = (sv_nth (m_storage q) 1, sv_nth (P_storage q) 1)"

text \<open>The first loop of \<open>pop\<close>: the hole left by the top sinks to a node without children.\<close>

partial_function (option) down_loop ::
  "nat \<Rightarrow> ('k::linorder, 'v) prio_queue \<Rightarrow> nat \<Rightarrow> nat \<Rightarrow> (('k, 'v) prio_queue \<times> nat) option" where
  "down_loop bs q last_idx idx =
     (let lc = child_of bs idx
      in if lc > last_idx then Some (q, idx)
         else
           let sibling_offset = (if is_block_leaf bs idx then bs else 1);
               rc = lc + sibling_offset;
               i = (rc < last_idx \<and> \<not> sv_nth (m_storage q) lc < sv_nth (m_storage q) rc);
               nxt = (if i then rc else lc)
           in down_loop bs (move_node q nxt idx) last_idx nxt)"

definition bq_pop :: "nat \<Rightarrow> ('k::linorder, 'v) prio_queue \<Rightarrow> ('k, 'v) prio_queue option" where
  "bq_pop bs q =
     (let last_idx = sv_size (m_storage q) - 1
      in case down_loop bs q last_idx 1 of
           None \<Rightarrow> None
         | Some (q, idx) \<Rightarrow>
             let r = (if idx \<noteq> last_idx
                      then
                        let lst = sv_back (m_storage q); last_val = sv_back (P_storage q)
                        in case up_loop bs q idx lst of
                             None \<Rightarrow> None
                           | Some (q, idx) \<Rightarrow> Some (store_node q idx lst last_val)
                      else Some q)
             in case r of
                  None \<Rightarrow> None
                | Some q \<Rightarrow>
                    Some \<lparr>m_storage = sv_pop_back bs (m_storage q), P_storage = sv_pop_back bs (P_storage q)\<rparr>)"

partial_function (option) resched_loop ::
  "nat \<Rightarrow> ('k::linorder, 'v) prio_queue \<Rightarrow> nat \<Rightarrow> nat \<Rightarrow> 'k \<Rightarrow> (('k, 'v) prio_queue \<times> nat) option" where
  "resched_loop bs q last_idx idx t =
     (let lc = child_of bs idx
      in if lc > last_idx then Some (q, idx)
         else
           let sibling_offset = (if is_block_leaf bs idx then bs else 1);
               rc = lc + sibling_offset;
               i = (rc \<le> last_idx \<and> \<not> sv_nth (m_storage q) lc < sv_nth (m_storage q) rc);
               nxt = (if i then rc else lc)
           in if t < sv_nth (m_storage q) nxt then Some (q, idx)
              else resched_loop bs (move_node q nxt idx) last_idx nxt t)"

definition do_reschedule_top ::
  "nat \<Rightarrow> ('k::linorder, 'v) prio_queue \<Rightarrow> 'k \<Rightarrow> (('k, 'v) prio_queue \<times> nat) option" where
  "do_reschedule_top bs q t =
     (let last_idx = sv_size (m_storage q) - 1
      in case resched_loop bs q last_idx 1 t of
           None \<Rightarrow> None
         | Some (q, idx) \<Rightarrow> Some (q\<lparr>m_storage := sv_set (m_storage q) idx t\<rparr>, idx))"

definition reschedule_top :: "nat \<Rightarrow> ('k::linorder, 'v) prio_queue \<Rightarrow> 'k \<Rightarrow> ('k, 'v) prio_queue option" where
  "reschedule_top bs q t =
     (let val = sv_nth (P_storage q) 1
      in case do_reschedule_top bs q t of
           None \<Rightarrow> None
         | Some (q, idx) \<Rightarrow> Some (q\<lparr>P_storage := sv_set (P_storage q) idx val\<rparr>))"

section \<open>The tree of block addresses\<close>

text \<open>Bit masks as arithmetic, for a block size that is a power of two.\<close>

definition pow2_block :: "nat \<Rightarrow> bool" where
  "pow2_block bs \<longleftrightarrow> (\<exists>k. bs = 2 ^ Suc k)"

definition slot :: "nat \<Rightarrow> nat \<Rightarrow> bool" where
  "slot bs n \<longleftrightarrow> n mod bs \<noteq> 0"

lemma pow2_blockE:
  assumes "pow2_block bs"
  obtains k where "bs = 2 ^ Suc k" "bs = 2 * 2 ^ k" "0 < (2 :: nat) ^ k"
  using assms by (auto simp: pow2_block_def)

lemma pow2_gt1: "pow2_block bs \<Longrightarrow> 1 < bs"
  by (erule pow2_blockE) linarith

lemma and_low_bits: "n AND (2 ^ j - 1) = n mod 2 ^ j" for n :: nat
  by (metis mask_eq_exp_minus_1 take_bit_eq_mask take_bit_eq_mod)

lemma and_high_bits: "x AND NOT (mask j) = 2 ^ j * (x div 2 ^ j)" for x :: int
proof -
  have "x AND NOT (mask j) = push_bit j (drop_bit j x)" by (rule bit_eqI) (auto simp: bit_simps)
  then show ?thesis by (simp add: push_bit_eq_mult drop_bit_eq_div mult.commute)
qed

lemma block_offset_mod: "pow2_block bs \<Longrightarrow> block_offset bs n = n mod bs"
  unfolding pow2_block_def block_offset_def block_mask_def by (metis and_low_bits)

lemma block_base_div: "pow2_block bs \<Longrightarrow> block_base bs n = bs * (n div bs)"
proof -
  assume "pow2_block bs"
  then obtain k where k: "bs = 2 ^ Suc k" by (auto simp: pow2_block_def)
  have m: "int (block_mask bs) = mask (Suc k)"
    by (simp add: block_mask_def k mask_eq_exp_minus_1 of_nat_diff del: power_Suc)
  have "int n AND NOT (mask (Suc k)) = int (bs * (n div bs))"
    unfolding and_high_bits k by (simp add: zdiv_int)
  then show ?thesis by (simp only: block_base_def m nat_int)
qed

lemma is_block_leaf_iff: "bs = 2 ^ Suc k \<Longrightarrow> is_block_leaf bs n \<longleftrightarrow> 2 ^ k \<le> n mod bs"
proof -
  assume bs: "bs = 2 ^ Suc k"
  have "drop_bit 1 bs = 2 ^ k" by (simp add: bs drop_bit_eq_div)
  then have "is_block_leaf bs n \<longleftrightarrow> odd (n div 2 ^ k)"
    by (simp add: is_block_leaf_def and_exp_eq_0_iff_not_bit bit_iff_odd)
  moreover have "n mod bs = n mod 2 ^ k + 2 ^ k * (n div 2 ^ k mod 2)"
    by (simp only: bs power_Suc2 mod_mult2_eq add.commute)
  moreover have "\<not> 2 ^ k \<le> n mod 2 ^ k" by (simp add: not_le)
  ultimately show ?thesis by (cases "even (n div 2 ^ k)") (auto simp: mod_2_eq_odd)
qed

lemma child_no_mod: "bs = 2 ^ Suc k \<Longrightarrow> child_no bs n = n mod 2 ^ k"
proof -
  assume bs: "bs = 2 ^ Suc k"
  have "drop_bit 1 (block_mask bs) = mask k"
    by (simp add: block_mask_def bs drop_bit_eq_div mask_eq_exp_minus_1)
  then show ?thesis by (simp add: child_no_def take_bit_eq_mod flip: take_bit_eq_mask)
qed

definition right_child :: "nat \<Rightarrow> nat \<Rightarrow> nat" where
  "right_child bs n = child_of bs n + (if is_block_leaf bs n then bs else 1)"

lemma child_of_arith:
  assumes "bs = 2 ^ Suc k" "h = 2 ^ k" "n = bs * m + r" "r < bs"
  shows "child_of bs n = (if r < h then n + r else bs * (bs * m + 1 + 2 * (r - h)) + 1)"
    "right_child bs n = (if r < h then n + r + 1 else bs * (bs * m + 2 + 2 * (r - h)) + 1)"
proof -
  have p: "pow2_block bs" using assms(1) by (auto simp: pow2_block_def)
  have nm: "n mod bs = r" "n div bs = m" using assms(3,4) by auto
  have bs: "bs = 2 * h" using assms(1,2) by simp
  have c: "child_no bs n = r - h" if "\<not> r < h"
  proof -
    have "n = r + h * (2 * m)" using assms(3) bs by simp
    then have "n mod h = r mod h" by (simp only: mod_mult_self2)
    also have "\<dots> = r - h" using that assms(4) bs by (simp add: mod_if)
    finally show ?thesis using child_no_mod [OF assms(1)] assms(2) by simp
  qed
  show e: "child_of bs n = (if r < h then n + r else bs * (bs * m + 1 + 2 * (r - h)) + 1)"
  proof (cases "r < h")
    case True
    then show ?thesis
      using is_block_leaf_iff [OF assms(1), of n] assms(2)
      by (simp add: child_of_def block_offset_mod [OF p] nm)
  next
    case False
    then have "is_block_leaf bs n" using is_block_leaf_iff [OF assms(1), of n] assms(2) nm by simp
    then have "child_of bs n = (bs * m + 1) * bs + (r - h) * bs * 2 + 1"
      using c [OF False] by (simp add: child_of_def block_base_div [OF p] nm)
    also have "\<dots> = bs * (bs * m + 1 + 2 * x) + 1" if "x = r - h" for x
      unfolding that [symmetric] by (simp add: algebra_simps)
    finally show ?thesis using False by simp
  qed
  show "right_child bs n = (if r < h then n + r + 1 else bs * (bs * m + 2 + 2 * (r - h)) + 1)"
    using is_block_leaf_iff [OF assms(1), of n] assms(2)
    by (simp add: right_child_def e nm distrib_left)
qed

lemma parent_of_arith:
  assumes "bs = 2 ^ Suc k" "h = 2 ^ k" "n = bs * m + r" "r < bs"
  shows "r \<noteq> 1 \<Longrightarrow> parent_of bs n = bs * m + r div 2"
    "r = 1 \<Longrightarrow> m = bs * a + c + 1 \<Longrightarrow> c < bs \<Longrightarrow> parent_of bs n = bs * a + h + c div 2"
proof -
  have p: "pow2_block bs" using assms(1) by (auto simp: pow2_block_def)
  have nm: "n mod bs = r" "n div bs = m" using assms(3,4) by auto
  show "parent_of bs n = bs * m + r div 2" if "r \<noteq> 1"
    using that by (simp add: parent_of_def is_block_root_def block_offset_mod [OF p] block_base_div [OF p] nm)
  assume r: "r = 1" and m: "m = bs * a + c + 1" and c: "c < bs"
  have b0: "0 < bs" using assms(1) by simp
  have "n - bs = bs * (bs * a + c) + r" by (simp add: assms(3) m algebra_simps)
  then have "(n - bs) div bs = bs * a + c" using assms(4) by simp
  moreover have "bs * m div bs - 1 = bs * a + c" using m b0 by simp
  moreover have "(bs * a + c) div bs = a" using c by simp
  moreover have "bs div 2 = h" using assms(1,2) by simp
  ultimately show "parent_of bs n = bs * a + h + c div 2"
    using r m by (simp add: parent_of_def is_block_root_def block_offset_mod [OF p] block_base_div [OF p] nm)
qed

lemma le_times: "0 < b \<Longrightarrow> m \<le> b * m" for b m :: nat
  by (cases b) auto

lemma children:
  assumes p: "pow2_block bs" and s: "slot bs n"
  shows "slot bs (child_of bs n)" "slot bs (right_child bs n)" "n < child_of bs n" "child_of bs n < right_child bs n"
    "parent_of bs (child_of bs n) = n" "parent_of bs (right_child bs n) = n"
proof -
  obtain k where k: "bs = 2 ^ Suc k" "bs = 2 * 2 ^ k" "0 < (2 :: nat) ^ k" using pow2_blockE [OF p] .
  define h :: nat where "h = 2 ^ k"
  define m where "m = n div bs"
  define r where "r = n mod bs"
  have n: "n = bs * m + r" "r < bs" "0 < r" using s k by (auto simp: m_def r_def slot_def)
  have bs: "bs = 2 * h" "0 < h" using k h_def by auto
  note ch = child_of_arith [OF k(1) h_def n(1,2)]
  have "slot bs (child_of bs n) \<and> slot bs (right_child bs n) \<and> n < child_of bs n \<and>
      child_of bs n < right_child bs n \<and> parent_of bs (child_of bs n) = n \<and> parent_of bs (right_child bs n) = n"
  proof (cases "r < h")
    case True
    then have c: "child_of bs n = bs * m + 2 * r" "right_child bs n = bs * m + (2 * r + 1)" "2 * r + 1 < bs"
      using ch n(1) bs by auto
    have "parent_of bs (child_of bs n) = n" "parent_of bs (right_child bs n) = n"
      using parent_of_arith(1) [OF k(1) h_def c(1)] parent_of_arith(1) [OF k(1) h_def c(2)] c(3) n(1,3) by auto
    then show ?thesis using c n(1,3) by (simp add: slot_def)
  next
    case False
    define c where "c = r - h"
    have cl: "2 * c + 1 < bs" using n(2) False bs by (simp add: c_def)
    have ch': "child_of bs n = bs * (bs * m + 2 * c + 1) + 1" "right_child bs n = bs * (bs * m + (2 * c + 1) + 1) + 1"
      using ch False by (auto simp: c_def)
    have b1: "1 < bs" and b0: "0 < bs" using bs by auto
    have "parent_of bs (child_of bs n) = n" "parent_of bs (right_child bs n) = n"
      using parent_of_arith(2) [OF k(1) h_def ch'(1) b1 refl refl] parent_of_arith(2) [OF k(1) h_def ch'(2) b1 refl refl]
        cl n(1) False by (auto simp: c_def)
    moreover have "n < child_of bs n"
    proof -
      have "bs * m + r < bs * (m + 1)" using n(2) by simp
      also have "\<dots> \<le> bs * (bs * m + 2 * c + 1)"
        using trans_le_add1 [OF le_times [OF b0], of m "2 * c"] by (intro mult_le_mono2) linarith
      finally show ?thesis using n(1) ch'(1) by simp
    qed
    moreover have "slot bs (bs * x + 1)" for x unfolding slot_def mod_mult_self4 using b1 by simp
    then have "slot bs (child_of bs n)" "slot bs (right_child bs n)" unfolding ch' by blast+
    moreover have "child_of bs n < right_child bs n" using ch' b0 by simp
    ultimately show ?thesis by blast
  qed
  then show "slot bs (child_of bs n)" "slot bs (right_child bs n)" "n < child_of bs n" "child_of bs n < right_child bs n"
    "parent_of bs (child_of bs n) = n" "parent_of bs (right_child bs n) = n"
    by auto
qed

lemma parents:
  assumes p: "pow2_block bs" and s: "slot bs n" and n1: "n \<noteq> 1"
  shows "slot bs (parent_of bs n)" "parent_of bs n < n"
    "n = child_of bs (parent_of bs n) \<or> n = right_child bs (parent_of bs n)"
proof -
  obtain k where k: "bs = 2 ^ Suc k" "bs = 2 * 2 ^ k" "0 < (2 :: nat) ^ k" using pow2_blockE [OF p] .
  define h :: nat where "h = 2 ^ k"
  define m where "m = n div bs"
  define r where "r = n mod bs"
  have n: "n = bs * m + r" "r < bs" "0 < r" using s k by (auto simp: m_def r_def slot_def)
  have bs: "bs = 2 * h" "0 < h" using k h_def by auto
  have "slot bs (parent_of bs n) \<and> parent_of bs n < n \<and>
      (n = child_of bs (parent_of bs n) \<or> n = right_child bs (parent_of bs n))"
  proof (cases "r = 1")
    case False
    then have pe: "parent_of bs n = bs * m + r div 2" "r div 2 < bs" "r div 2 < h"
      using parent_of_arith(1) [OF k(1) h_def n(1,2)] n(2) bs by auto
    have "r = 2 * (r div 2) \<or> r = 2 * (r div 2) + 1" by presburger
    then have "n = child_of bs (parent_of bs n) \<or> n = right_child bs (parent_of bs n)"
      using child_of_arith [OF k(1) h_def pe(1,2)] pe(1,3) n(1) by auto
    then show ?thesis using pe n False by (auto simp: slot_def)
  next
    case True
    then have "m \<noteq> 0" using n1 n(1) by auto
    then obtain m' where m': "m = Suc m'" using not0_implies_Suc by blast
    define a where "a = m' div bs"
    define c where "c = m' mod bs"
    have m: "m = bs * a + c + 1" "c < bs" using m' bs by (auto simp: a_def c_def)
    have pe: "parent_of bs n = bs * a + (h + c div 2)" "h + c div 2 < bs"
      using parent_of_arith(2) [OF k(1) h_def n(1,2) True m] m(2) bs by auto
    have ch: "child_of bs (parent_of bs n) = bs * (bs * a + 1 + 2 * (c div 2)) + 1"
        "right_child bs (parent_of bs n) = bs * (bs * a + 2 + 2 * (c div 2)) + 1"
      using child_of_arith [OF k(1) h_def pe] by simp_all
    have "c = 2 * (c div 2) \<or> c = 2 * (c div 2) + 1" by presburger
    then have "m = bs * a + 1 + 2 * (c div 2) \<or> m = bs * a + 2 + 2 * (c div 2)" using m(1) by linarith
    then have "n = bs * (bs * a + 1 + 2 * (c div 2)) + 1 \<or> n = bs * (bs * a + 2 + 2 * (c div 2)) + 1"
      using n(1) True by auto
    then have "n = child_of bs (parent_of bs n) \<or> n = right_child bs (parent_of bs n)" unfolding ch .
    moreover have "parent_of bs n < bs * (a + 1)" using pe by simp
    moreover have "bs * (a + 1) \<le> bs * m"
      using trans_le_add1 [OF le_times, of bs a c] m(1) bs by (intro mult_le_mono2) linarith
    ultimately show ?thesis using pe n(1) bs by (auto simp: slot_def)
  qed
  then show "slot bs (parent_of bs n)" "parent_of bs n < n"
    "n = child_of bs (parent_of bs n) \<or> n = right_child bs (parent_of bs n)"
    by auto
qed

section \<open>Skip vectors hold exactly their slots\<close>

text \<open>
  Storage is allocated in whole blocks, the end never lies directly behind an unused first slot, and
  exactly the slots below the end hold objects.
\<close>

definition sv_ok :: "nat \<Rightarrow> 'a skip_vector \<Rightarrow> bool" where
  "sv_ok bs v \<longleftrightarrow> m_end v mod bs \<noteq> 1 \<and> m_end v \<le> length (m_ptr v) \<and> length (m_ptr v) mod bs = 0 \<and>
     (\<forall>i < length (m_ptr v). m_ptr v ! i \<noteq> None \<longleftrightarrow> i < m_end v \<and> slot bs i)"

definition live :: "nat \<Rightarrow> nat \<Rightarrow> nat \<Rightarrow> bool" where
  "live bs e i \<longleftrightarrow> i < e \<and> slot bs i"

lemma new_skip_vector_ok: "pow2_block bs \<Longrightarrow> sv_ok bs new_skip_vector"
  by (auto simp: sv_ok_def new_skip_vector_def pow2_block_def)

lemma mask_mod: "pow2_block bs \<Longrightarrow> n AND block_mask bs = n mod bs"
  using block_offset_mod [of bs n] by (simp add: block_offset_def)

lemma move_to_loop_nth:
  assumes "pow2_block bs" "s \<le> length ptr"
  shows "length (move_to_loop bs b s ptr i) = length ptr \<and>
    (\<forall>j < length ptr. move_to_loop bs b s ptr i ! j = (if i \<le> j \<and> j < s \<and> slot bs j then b ! j else ptr ! j))"
  using assms
proof (induction bs b s ptr i rule: move_to_loop.induct)
  case (1 bs b s ptr i)
  show ?case
  proof (cases "i < s")
    case True
    let ?p = "if i AND block_mask bs \<noteq> 0 then ptr[i := b ! i] else ptr"
    have len: "length ?p = length ptr" by simp
    have "\<forall>j < length ptr. ?p ! j = (if j = i \<and> slot bs i then b ! i else ptr ! j)"
      using mask_mod [OF "1.prems"(1)] by (auto simp: slot_def)
    moreover note "1.IH" [OF True "1.prems"(1)]
    ultimately show ?thesis
      using True "1.prems"(2) len by (auto simp: move_to_loop.simps [of bs b s ptr i] Suc_le_eq le_less)
  next
    case False
    then show ?thesis by (auto simp: move_to_loop.simps [of bs b s ptr i])
  qed
qed

text \<open>Pushing an object: it gets the next slot, and all others stay where they are.\<close>

definition next_slot :: "nat \<Rightarrow> nat \<Rightarrow> nat" where
  "next_slot bs e = (if e mod bs \<noteq> 0 then e else e + 1)"

lemma next_slot_slot: "pow2_block bs \<Longrightarrow> slot bs (next_slot bs e)"
  by (auto simp: next_slot_def slot_def pow2_block_def mod_Suc)

lemma next_slot_end:
  assumes "pow2_block bs"
  shows "(next_slot bs e + 1) mod bs \<noteq> 1" "\<And>i. slot bs i \<Longrightarrow> i < next_slot bs e + 1 \<longleftrightarrow> i < e \<or> i = next_slot bs e"
proof -
  have b: "1 < bs" by (rule pow2_gt1 [OF assms])
  have "slot bs (next_slot bs e)" using next_slot_slot [OF assms] .
  then show "(next_slot bs e + 1) mod bs \<noteq> 1" using b by (auto simp: slot_def mod_Suc)
  show "i < next_slot bs e + 1 \<longleftrightarrow> i < e \<or> i = next_slot bs e" if "slot bs i" for i
    using that by (auto simp: next_slot_def slot_def less_Suc_eq)
qed

definition sv_pushed :: "nat \<Rightarrow> 'a skip_vector \<Rightarrow> 'a \<Rightarrow> 'a skip_vector \<Rightarrow> bool" where
  "sv_pushed bs v u v' \<longleftrightarrow> m_end v' = next_slot bs (m_end v) + 1 \<and> m_end v' \<le> length (m_ptr v') \<and>
     length (m_ptr v') mod bs = 0 \<and>
     (\<forall>i < length (m_ptr v'). m_ptr v' ! i =
        (if i = next_slot bs (m_end v) then Some u else if live bs (m_end v) i then m_ptr v ! i else None))"

lemma sv_pushed_ok:
  assumes p: "pow2_block bs" and v: "sv_ok bs v" and u: "sv_pushed bs v u v'"
  shows "sv_ok bs v'" "sv_nth v' (next_slot bs (m_end v)) = u" "sv_back v' = u"
    "\<And>i. live bs (m_end v) i \<Longrightarrow> sv_nth v' i = sv_nth v i"
proof -
  let ?n = "next_slot bs (m_end v)"
  have n: "?n < length (m_ptr v')" using u by (simp add: sv_pushed_def)
  show "sv_nth v' ?n = u" "sv_back v' = u" using u n by (auto simp: sv_pushed_def sv_nth_def sv_back_def)
  have old: "m_ptr v ! i \<noteq> None" if "live bs (m_end v) i" for i
    using v that by (auto simp: sv_ok_def live_def)
  have "m_ptr v' ! i \<noteq> None \<longleftrightarrow> i < m_end v' \<and> slot bs i" if "i < length (m_ptr v')" for i
  proof -
    have "m_ptr v' ! i \<noteq> None \<longleftrightarrow> i = ?n \<or> live bs (m_end v) i"
      using u that old by (auto simp: sv_pushed_def)
    also have "\<dots> \<longleftrightarrow> i < ?n + 1 \<and> slot bs i"
      using next_slot_end(2) [OF p, of i "m_end v"] next_slot_slot [OF p, of "m_end v"] by (auto simp: live_def)
    finally show ?thesis using u by (simp add: sv_pushed_def)
  qed
  then show "sv_ok bs v'" using u next_slot_end(1) [OF p] by (simp add: sv_ok_def sv_pushed_def)
  show "sv_nth v' i = sv_nth v i" if "live bs (m_end v) i" for i
  proof -
    have "i < ?n" using that by (simp add: live_def next_slot_def)
    then show ?thesis using u that n by (simp add: sv_nth_def sv_pushed_def)
  qed
qed

lemma sv_push_back_pushed:
  assumes p: "pow2_block bs" and v: "sv_ok bs v"
  shows "fst (sv_push_back bs v u) = next_slot bs (m_end v) \<and> sv_pushed bs v u (snd (sv_push_back bs v u))"
proof -
  have b: "1 < bs" by (rule pow2_gt1 [OF p])
  have cells: "m_ptr v ! i = None" if "i < length (m_ptr v)" "\<not> live bs (m_end v) i" for i
    using v that by (auto simp: sv_ok_def live_def)
  have le: "m_end v \<le> length (m_ptr v)" and dv: "bs dvd length (m_ptr v)"
    using v by (auto simp: sv_ok_def mod_eq_0_iff_dvd)
  consider (room) "m_end v mod bs \<noteq> 0" | (full) "m_end v mod bs = 0" "m_end v = length (m_ptr v)"
    | (skip) "m_end v mod bs = 0" "m_end v < length (m_ptr v)" using le by linarith
  then show ?thesis
  proof cases
    case room
    then have "m_end v < length (m_ptr v)" using le dv by (metis le_neq_implies_less mod_0_imp_dvd dvd_imp_mod_0)
    then show ?thesis
      using room cells dv
      by (auto simp: sv_push_back_def mask_mod [OF p] next_slot_def sv_pushed_def nth_list_update live_def)
  next
    case full
    let ?d = "if length (m_ptr v) \<noteq> 0 then length (m_ptr v) * 2 else bs * 16"
    let ?q = "(replicate ?d None)[m_end v + 1 := Some u]"
    have "bs \<le> length (m_ptr v)" if "length (m_ptr v) \<noteq> 0" using dv that by (simp add: dvd_imp_le)
    then have d: "m_end v + 1 < ?d" "bs dvd ?d" using full(2) dv b by auto
    let ?r = "if length (m_ptr v) \<noteq> 0 then move_to bs (m_ptr v) (m_end v) ?q else ?q"
    have r: "length ?r = ?d" "?r ! i = (if i = m_end v + 1 then Some u else if live bs (m_end v) i then m_ptr v ! i else None)"
      if "i < ?d" for i
      using move_to_loop_nth [OF p, of "m_end v" ?q "m_ptr v" 1] d(1) full that
      by (auto simp: move_to_def live_def slot_def nth_list_update Suc_le_eq intro!: gr0I)
    have "sv_push_back bs v u = (m_end v + 1, \<lparr>m_ptr = ?r, m_end = m_end v + 1 + 1\<rparr>)"
      using full by (simp add: sv_push_back_def mask_mod [OF p] grow_def m_storage_size_def Let_def)
    then show ?thesis
      using full(1) d r by (simp add: sv_pushed_def next_slot_def)
  next
    case skip
    then have "bs dvd length (m_ptr v) - m_end v" using dv by (simp add: mod_eq_0_iff_dvd)
    then have "bs \<le> length (m_ptr v) - m_end v" using skip by (simp add: dvd_imp_le)
    then have "Suc (m_end v) < length (m_ptr v)" using b by simp
    then show ?thesis
      using skip cells dv
      by (auto simp: sv_push_back_def mask_mod [OF p] next_slot_def sv_pushed_def nth_list_update live_def
          m_storage_size_def Let_def)
  qed
qed

lemma sv_pop_back_ok:
  assumes p: "pow2_block bs" and v: "sv_ok bs v" and e: "m_end v = Suc l" and v': "v' = sv_pop_back bs v"
  shows "sv_ok bs v'" "slot bs l" "\<And>i. live bs (m_end v') i \<longleftrightarrow> live bs l i"
    "\<And>i. live bs l i \<Longrightarrow> sv_nth v' i = sv_nth v i" "m_end v' = (if l mod bs = 1 then l - 1 else l)"
proof -
  have b: "1 < bs" by (rule pow2_gt1 [OF p])
  have "Suc l mod bs \<noteq> 1" using v e by (simp add: sv_ok_def)
  then show s: "slot bs l" using b by (auto simp: slot_def mod_Suc split: if_splits)
  have m: "m_ptr v' = (m_ptr v)[l := None]" "m_end v' = (if l mod bs = 1 then l - 1 else l)"
    by (simp_all add: v' sv_pop_back_def Let_def e mask_mod [OF p])
  then show "m_end v' = (if l mod bs = 1 then l - 1 else l)" by simp
  have q: "live bs (m_end v') i \<longleftrightarrow> live bs l i" "m_end v' mod bs = 0" if r: "l mod bs = 1" for i
  proof -
    obtain q where q: "l = bs * q + 1" using r by (metis mult_div_mod_eq)
    then have "m_end v' = bs * q" using m(2) r by simp
    then show "live bs (m_end v') i \<longleftrightarrow> live bs l i" "m_end v' mod bs = 0"
      using q by (auto simp: live_def slot_def less_Suc_eq)
  qed
  have lv: "live bs (m_end v') i \<longleftrightarrow> live bs l i" for i using q(1) [of i] m(2) by (cases "l mod bs = 1") auto
  have em: "m_end v' mod bs \<noteq> 1" using q(2) m(2) by (cases "l mod bs = 1") auto
  show "\<And>i. live bs (m_end v') i \<longleftrightarrow> live bs l i" by (rule lv)
  show "sv_nth v' i = sv_nth v i" if "live bs l i" for i using that by (simp add: sv_nth_def m(1) live_def)
  have "(m_ptr v') ! i \<noteq> None \<longleftrightarrow> i < m_end v' \<and> slot bs i" if "i < length (m_ptr v')" for i
  proof -
    have "(m_ptr v') ! i \<noteq> None \<longleftrightarrow> live bs l i"
      using v e that by (auto simp: m(1) sv_ok_def live_def nth_list_update less_Suc_eq)
    then show ?thesis using lv [of i] by (simp add: live_def)
  qed
  moreover have "m_end v' \<le> l" "length (m_ptr v') = length (m_ptr v)" using m by auto
  ultimately show "sv_ok bs v'" using v e em by (simp add: sv_ok_def)
qed

lemma sv_set_ok:
  assumes v: "sv_ok bs v" and i: "live bs (m_end v) i"
  shows "sv_ok bs (sv_set v i x)" "m_end (sv_set v i x) = m_end v" "sv_nth (sv_set v i x) = (sv_nth v)(i := x)"
proof -
  have "i < length (m_ptr v)" using assms by (simp add: sv_ok_def live_def)
  then show "sv_nth (sv_set v i x) = (sv_nth v)(i := x)" by (auto simp: sv_nth_def sv_set_def fun_eq_iff nth_list_update)
  show "sv_ok bs (sv_set v i x)" "m_end (sv_set v i x) = m_end v"
    using assms by (auto simp: sv_ok_def sv_set_def live_def nth_list_update split: if_splits)
qed

lemma destroy_loop_nth:
  assumes "pow2_block bs"
  shows "n \<le> length ptr \<Longrightarrow> length (destroy_loop bs ptr n) = length ptr \<and>
    (\<forall>i < length ptr. destroy_loop bs ptr n ! i = (if i < n \<and> slot bs i then None else ptr ! i))"
proof (induction n arbitrary: ptr)
  case 0
  then show ?case by simp
next
  case (Suc n)
  define p where "p = (if n AND block_mask bs \<noteq> 0 then ptr[n := None] else ptr)"
  have "length p = length ptr" "\<forall>i < length ptr. p ! i = (if i = n \<and> slot bs n then None else ptr ! i)"
    using mask_mod [OF assms] by (auto simp: p_def slot_def nth_list_update)
  moreover have "destroy_loop bs ptr (Suc n) = destroy_loop bs p n" by (simp add: p_def)
  ultimately show ?case using Suc.IH [of p] Suc.prems by (auto simp: less_Suc_eq simp del: destroy_loop.simps)
qed

section \<open>Heap order with a hole\<close>

definition slot_bag :: "nat \<Rightarrow> nat \<Rightarrow> (nat \<Rightarrow> 'a) \<Rightarrow> 'a multiset" where
  "slot_bag bs e g = image_mset g (mset_set {i. live bs e i})"

definition heap_order :: "nat \<Rightarrow> nat \<Rightarrow> (nat \<Rightarrow> 'k::linorder \<times> 'v) \<Rightarrow> bool" where
  "heap_order bs e g \<longleftrightarrow> (\<forall>i. live bs e i \<and> i \<noteq> 1 \<longrightarrow> fst (g (parent_of bs i)) \<le> fst (g i))"

text \<open>The state of the upward loops: element \<open>x\<close> is to be put into the hole \<open>h\<close> or above.\<close>

definition up_inv :: "nat \<Rightarrow> nat \<Rightarrow> (nat \<Rightarrow> 'k::linorder \<times> 'v) \<Rightarrow> nat \<Rightarrow> 'k \<Rightarrow> bool" where
  "up_inv bs e g h x \<longleftrightarrow>
     (\<forall>i. live bs e i \<and> i \<noteq> 1 \<and> i \<noteq> h \<and> parent_of bs i \<noteq> h \<longrightarrow> fst (g (parent_of bs i)) \<le> fst (g i)) \<and>
     (\<forall>i. live bs e i \<and> i \<noteq> 1 \<and> parent_of bs i = h \<longrightarrow>
        x \<le> fst (g i) \<and> (h \<noteq> 1 \<longrightarrow> fst (g (parent_of bs h)) \<le> fst (g i)))"

lemma finite_live [simp]: "finite {i. live bs e i}"
  by (rule finite_subset [of _ "{..<e}"]) (auto simp: live_def)

lemma bag_upd: "live bs e i \<Longrightarrow> slot_bag bs e (g(i := x)) = add_mset x (image_mset g (mset_set ({j. live bs e j} - {i})))"
proof -
  assume i: "live bs e i"
  have "mset_set {j. live bs e j} = add_mset i (mset_set ({j. live bs e j} - {i}))"
    using i by (metis finite_live mem_Collect_eq mset_set.remove)
  moreover have "image_mset (g(i := x)) (mset_set ({j. live bs e j} - {i})) = image_mset g (mset_set ({j. live bs e j} - {i}))"
    by (rule image_mset_cong) auto
  ultimately show ?thesis by (simp add: slot_bag_def)
qed

lemma bag_split: "live bs e i \<Longrightarrow> slot_bag bs e g = add_mset (g i) (image_mset g (mset_set ({j. live bs e j} - {i})))"
  using bag_upd [of bs e i g "g i"] by simp

lemma bag_move:
  assumes "live bs e h" "live bs e p" "p \<noteq> h"
  shows "slot_bag bs e (g(h := g p, p := x)) = slot_bag bs e (g(h := x))"
proof -
  let ?S = "{j. live bs e j}"
  have s: "mset_set (?S - {i}) = add_mset j (mset_set (?S - {i} - {j}))" if "live bs e j" "i \<noteq> j" for i j
    using that by (intro mset_set.remove) auto
  have d: "?S - {p} - {h} = ?S - {h} - {p}" by blast
  have "image_mset (g(h := g p)) (mset_set (?S - {h} - {p})) = image_mset g (mset_set (?S - {h} - {p}))"
    by (rule image_mset_cong) auto
  then have "image_mset (g(h := g p)) (mset_set (?S - {p})) = add_mset (g p) (image_mset g (mset_set (?S - {h} - {p})))"
    unfolding s [OF assms(1,3)] d by simp
  moreover have "image_mset g (mset_set (?S - {h})) = add_mset (g p) (image_mset g (mset_set (?S - {h} - {p})))"
    unfolding s [OF assms(2) assms(3) [symmetric]] by simp
  ultimately show ?thesis using bag_upd [OF assms(2), of "g(h := g p)" x] bag_upd [OF assms(1), of g x] by simp
qed

lemma up_stop:
  assumes p: "pow2_block bs" and u: "up_inv bs e g h (fst x)" and stop: "h \<noteq> 1 \<Longrightarrow> fst (g (parent_of bs h)) \<le> fst x"
  shows "heap_order bs e (g(h := x))"
  unfolding heap_order_def
proof (intro allI impI, goal_cases)
  case (1 i)
  then have "parent_of bs i \<noteq> i" using parents(2) [OF p, of i] by (auto simp: live_def)
  then show ?case using u stop 1 by (auto simp: up_inv_def)
qed

lemma up_step:
  assumes p: "pow2_block bs" and u: "up_inv bs e g h x" and h: "live bs e h" "h \<noteq> 1" and lt: "x < fst (g (parent_of bs h))"
  shows "up_inv bs e (g(h := g (parent_of bs h))) (parent_of bs h) x"
proof -
  let ?p = "parent_of bs h"
  have pl: "slot bs ?p" "?p < h" using parents [OF p _ h(2)] h(1) by (auto simp: live_def)
  have lv: "live bs e ?p" using pl h(1) by (simp add: live_def)
  have up: "fst (g ?p) \<le> fst (g i)" if "live bs e i" "i \<noteq> 1" "parent_of bs i = ?p" "i \<noteq> h" for i
    using u that pl(2) by (auto simp: up_inv_def)
  have top: "fst (g (parent_of bs ?p)) \<le> fst (g ?p)" "parent_of bs ?p \<noteq> h" if "?p \<noteq> 1"
    using parents(2) [OF p pl(1) that] u lv that pl(2) by (auto simp: up_inv_def)
  have "fst ((g(h := g ?p)) (parent_of bs i)) \<le> fst ((g(h := g ?p)) i)"
    if "live bs e i" "i \<noteq> 1" "i \<noteq> ?p" "parent_of bs i \<noteq> ?p" for i
    using u that h by (auto simp: up_inv_def)
  moreover have "x \<le> fst ((g(h := g ?p)) i) \<and> (?p \<noteq> 1 \<longrightarrow> fst ((g(h := g ?p)) (parent_of bs ?p)) \<le> fst ((g(h := g ?p)) i))"
    if "live bs e i" "i \<noteq> 1" "parent_of bs i = ?p" for i
    using up [OF that] top lt by (cases "i = h") auto
  ultimately show ?thesis unfolding up_inv_def by blast
qed

end
