(* ===== verification/BHeapOps.thy ===== *)
theory BHeapOps
  imports BHeap
begin

text \<open>
  The operations of the B-heap: each of their loops ends, and the queue is again a heap that holds the
  right elements. The laws of a total priority queue follow, so that the library's facts on filling and
  draining a queue apply.
\<close>

section \<open>Nodes and shapes\<close>

definition node :: "('k, 'v) prio_queue \<Rightarrow> nat \<Rightarrow> 'k \<times> 'v" where
  "node q i = (sv_nth (m_storage q) i, sv_nth (P_storage q) i)"

text \<open>Both vectors are well-formed and end at \<open>e\<close>.\<close>

definition bq_shape :: "nat \<Rightarrow> nat \<Rightarrow> ('k, 'v) prio_queue \<Rightarrow> bool" where
  "bq_shape bs e q \<longleftrightarrow> sv_ok bs (m_storage q) \<and> sv_ok bs (P_storage q) \<and> m_end (m_storage q) = e \<and> m_end (P_storage q) = e"

definition bq_inv :: "nat \<Rightarrow> ('k::linorder, 'v) prio_queue \<Rightarrow> bool" where
  "bq_inv bs q \<longleftrightarrow> bq_shape bs (m_end (m_storage q)) q \<and> heap_order bs (m_end (m_storage q)) (node q)"

definition bq_contents :: "nat \<Rightarrow> ('k, 'v) prio_queue \<Rightarrow> ('k \<times> 'v) multiset" where
  "bq_contents bs q = slot_bag bs (m_end (m_storage q)) (node q)"

lemma store_node_shape:
  assumes "bq_shape bs e q" "live bs e i"
  shows "bq_shape bs e (store_node q i k v)" "node (store_node q i k v) = (node q)(i := (k, v))"
  using sv_set_ok [of bs "m_storage q" i k] sv_set_ok [of bs "P_storage q" i v] assms
  by (auto simp: bq_shape_def store_node_def node_def fun_eq_iff)

lemma move_node_store: "move_node q from to = store_node q to (fst (node q from)) (snd (node q from))"
  by (simp add: move_node_def store_node_def node_def)

lemma move_node_shape:
  assumes "bq_shape bs e q" "live bs e to"
  shows "bq_shape bs e (move_node q from to)" "node (move_node q from to) = (node q)(to := node q from)"
  using store_node_shape [OF assms] by (simp_all add: move_node_store)

lemma live_mono: "live bs e i \<Longrightarrow> e \<le> e' \<Longrightarrow> live bs e' i"
  by (simp add: live_def)

lemma live_parent: "pow2_block bs \<Longrightarrow> live bs e i \<Longrightarrow> i \<noteq> 1 \<Longrightarrow> live bs e (parent_of bs i) \<and> parent_of bs i < i"
  using parents(1,2) [of bs i] by (auto simp: live_def)

lemma bag_cong: "(\<And>i. live bs e i \<longleftrightarrow> live bs e' i) \<Longrightarrow> (\<And>i. live bs e i \<Longrightarrow> g i = g' i) \<Longrightarrow> slot_bag bs e g = slot_bag bs e' g'"
  unfolding slot_bag_def by (rule arg_cong2 [where f = "image_mset", THEN trans, OF refl _ image_mset_cong]) auto

lemma heap_order_cong:
  assumes "pow2_block bs" "\<And>i. live bs e i \<longleftrightarrow> live bs e' i" "\<And>i. live bs e i \<Longrightarrow> g i = g' i"
  shows "heap_order bs e g \<longleftrightarrow> heap_order bs e' g'"
proof -
  have "g i = g' i \<and> (i \<noteq> 1 \<longrightarrow> g (parent_of bs i) = g' (parent_of bs i))" if "live bs e i" for i
    using that assms(3) live_parent [OF assms(1) that] by blast
  then show ?thesis unfolding heap_order_def using assms(2) by (metis (full_types))
qed

section \<open>The upward loop\<close>

lemma up_loop_spec:
  assumes p: "pow2_block bs" and e: "e' \<le> e"
  shows "bq_shape bs e q \<Longrightarrow> live bs e' h \<Longrightarrow> up_inv bs e' (node q) h x \<Longrightarrow>
    \<exists>q' h'. up_loop bs q h x = Some (q', h') \<and> bq_shape bs e q' \<and> live bs e' h' \<and>
      (\<forall>v. heap_order bs e' ((node q')(h' := (x, v))) \<and>
           slot_bag bs e' ((node q')(h' := (x, v))) = slot_bag bs e' ((node q)(h := (x, v))))"
proof (induction h arbitrary: q rule: less_induct)
  case (less h)
  let ?p = "parent_of bs h"
  show ?case
  proof (cases "h \<noteq> 1 \<and> x < fst (node q ?p)")
    case True
    have lp: "live bs e' ?p" "?p < h" using live_parent [OF p less.prems(2)] True by auto
    let ?q = "move_node q ?p h"
    have q: "bq_shape bs e ?q" "node ?q = (node q)(h := node q ?p)"
      using move_node_shape [OF less.prems(1)] live_mono [OF less.prems(2) e] by auto
    have "up_inv bs e' (node ?q) ?p x"
      unfolding q(2) using up_step [OF p less.prems(3,2)] True by simp
    moreover have "slot_bag bs e' ((node ?q)(?p := y)) = slot_bag bs e' ((node q)(h := y))" for y
      unfolding q(2) using bag_move [OF less.prems(2) lp(1)] lp(2) by simp
    moreover have "up_loop bs q h x = up_loop bs ?q ?p x"
      using True by (subst up_loop.simps) (simp add: Let_def node_def)
    ultimately show ?thesis using less.IH [OF lp(2) q(1) lp(1)] by (simp only:)
  next
    case False
    then have "up_loop bs q h x = Some (q, h)" by (subst up_loop.simps) (auto simp: Let_def node_def)
    moreover have "heap_order bs e' ((node q)(h := (x, v)))" for v
      by (rule up_stop [OF p]) (use less.prems(3) False in auto)
    ultimately show ?thesis using less.prems(1,2) by blast
  qed
qed

lemma pushed_shape:
  assumes p: "pow2_block bs" and s: "bq_shape bs e q" "sv_pushed bs (m_storage q) k s'" "sv_pushed bs (P_storage q) v p'"
    and q': "q' = \<lparr>m_storage = s', P_storage = p'\<rparr>" and n: "n = next_slot bs e"
  shows "bq_shape bs (n + 1) q'" "node q' n = (k, v)" "\<And>i. live bs e i \<Longrightarrow> node q' i = node q i"
    "\<And>i. live bs (n + 1) i \<longleftrightarrow> live bs e i \<or> i = n" "\<not> live bs e n"
proof -
  note pushed = sv_pushed_ok [OF p _ s(2)] sv_pushed_ok [OF p _ s(3)]
  show "bq_shape bs (n + 1) q'" "node q' n = (k, v)" "\<And>i. live bs e i \<Longrightarrow> node q' i = node q i"
    using pushed s by (auto simp: bq_shape_def q' n node_def sv_pushed_def)
  show "live bs (n + 1) i \<longleftrightarrow> live bs e i \<or> i = n" for i
    using next_slot_end(2) [OF p, of i e] next_slot_slot [OF p, of e] by (auto simp: live_def n)
  show "\<not> live bs e n" by (simp add: live_def n next_slot_def)
qed

lemma bq_push_ok:
  assumes p: "pow2_block bs" and q: "bq_inv bs q"
  shows "\<exists>q'. bq_push bs q k v = Some q' \<and> bq_inv bs q' \<and> bq_contents bs q' = add_mset (k, v) (bq_contents bs q)"
proof -
  let ?e = "m_end (m_storage q)"
  let ?n = "next_slot bs ?e"
  define s' where "s' = snd (sv_push_back bs (m_storage q) k)"
  define p' where "p' = snd (sv_push_back bs (P_storage q) v)"
  define q1 where "q1 = \<lparr>m_storage = s', P_storage = p'\<rparr>"
  have sh: "bq_shape bs ?e q" and ho: "heap_order bs ?e (node q)" using q by (auto simp: bq_inv_def)
  then have sp: "sv_pushed bs (m_storage q) k s'" "sv_pushed bs (P_storage q) v p'" "fst (sv_push_back bs (m_storage q) k) = ?n"
    using sv_push_back_pushed [OF p, of "m_storage q" k] sv_push_back_pushed [OF p, of "P_storage q" v]
    by (simp_all add: bq_shape_def s'_def p'_def)
  note q1 = pushed_shape [OF p sh sp(1,2) q1_def refl]
  have bk: "sv_back s' = k" "sv_back p' = v"
    using sv_pushed_ok(3) [OF p _ sp(1)] sv_pushed_ok(3) [OF p _ sp(2)] sh by (auto simp: bq_shape_def)
  have par: "parent_of bs i \<noteq> ?n" if "live bs (?n + 1) i" "i \<noteq> 1" for i
    using live_parent [OF p that] that by (auto simp: live_def)
  have "up_inv bs (?n + 1) (node q1) ?n k"
    unfolding up_inv_def using par q1(3,4) ho live_parent [OF p] by (auto simp: heap_order_def)
  moreover have "live bs (?n + 1) ?n" using q1(4) by simp
  ultimately obtain q2 h where u: "up_loop bs q1 ?n k = Some (q2, h)" "bq_shape bs (?n + 1) q2" "live bs (?n + 1) h"
      "heap_order bs (?n + 1) ((node q2)(h := (k, v)))"
      "slot_bag bs (?n + 1) ((node q2)(h := (k, v))) = slot_bag bs (?n + 1) ((node q1)(?n := (k, v)))"
    using up_loop_spec [OF p order.refl q1(1)] by blast
  have "slot_bag bs (?n + 1) ((node q1)(?n := (k, v))) = add_mset (k, v) (bq_contents bs q)"
  proof -
    have "{i. live bs (?n + 1) i} - {?n} = {i. live bs ?e i}" using q1(4,5) by auto
    moreover have "image_mset (node q1) (mset_set {i. live bs ?e i}) = bq_contents bs q"
      unfolding bq_contents_def slot_bag_def by (rule image_mset_cong) (simp add: q1(3))
    ultimately show ?thesis using bag_upd [of bs "?n + 1" ?n "node q1"] q1(4) by simp
  qed
  moreover have "bq_push bs q k v = Some (store_node q2 h k v)"
    using u(1) sp(3) bk by (cases q) (simp add: bq_push_def push_key_def Let_def case_prod_beta q1_def s'_def p'_def)
  moreover note store_node_shape [OF u(2,3), of k v]
  ultimately show ?thesis using u(4,5) by (simp add: bq_inv_def bq_contents_def bq_shape_def)
qed

section \<open>Sinking a hole\<close>

text \<open>
  The tree is a heap apart from the hole \<open>h\<close>: what lies above the hole comes before what lies below it.
\<close>

definition hole_inv :: "nat \<Rightarrow> nat \<Rightarrow> (nat \<Rightarrow> 'k::linorder \<times> 'v) \<Rightarrow> nat \<Rightarrow> bool" where
  "hole_inv bs e g h \<longleftrightarrow>
     (\<forall>i. live bs e i \<and> i \<noteq> 1 \<and> i \<noteq> h \<and> parent_of bs i \<noteq> h \<longrightarrow> fst (g (parent_of bs i)) \<le> fst (g i)) \<and>
     (\<forall>i. live bs e i \<and> i \<noteq> 1 \<and> parent_of bs i = h \<and> h \<noteq> 1 \<longrightarrow> fst (g (parent_of bs h)) \<le> fst (g i))"

lemma hole_inv_up:
  "hole_inv bs e g h \<Longrightarrow> (\<And>i. live bs e i \<Longrightarrow> i \<noteq> 1 \<Longrightarrow> parent_of bs i = h \<Longrightarrow> x \<le> fst (g i)) \<Longrightarrow> up_inv bs e g h x"
  by (auto simp: hole_inv_def up_inv_def)

lemma heap_hole: "pow2_block bs \<Longrightarrow> heap_order bs e g \<Longrightarrow> hole_inv bs e g 1"
  by (auto simp: hole_inv_def heap_order_def)

lemma sink_step:
  assumes p: "pow2_block bs" and g: "hole_inv bs e g h" and n: "slot bs n" "n \<noteq> 1" "parent_of bs n = h"
    and up: "h \<noteq> 1 \<Longrightarrow> fst (g (parent_of bs h)) \<le> fst (g n)"
    and least: "\<And>c. live bs e c \<Longrightarrow> c \<noteq> 1 \<Longrightarrow> parent_of bs c = h \<Longrightarrow> fst (g n) \<le> fst (g c)"
  shows "hole_inv bs e (g(h := g n)) n"
proof -
  have hn: "h < n" "slot bs h" using parents(1,2) [OF p n(1,2)] n(3) by auto
  have pn: "parent_of bs i \<noteq> h" "i \<noteq> h" if "live bs e i" "i \<noteq> 1" "parent_of bs i = n" for i
    using live_parent [OF p that(1,2)] that hn by auto
  have ph: "parent_of bs h \<noteq> h" if "h \<noteq> 1" using parents(2) [OF p hn(2) that] by simp
  show ?thesis
    unfolding hole_inv_def
  proof (intro conjI allI impI, goal_cases)
    case (1 i)
    then show ?case using g up least ph by (auto simp: hole_inv_def)
  next
    case (2 i)
    then show ?case using g pn [of i] n(3) hn(1) by (auto simp: hole_inv_def)
  qed
qed

text \<open>The elements outside of the hole, and the step of both downward loops.\<close>

definition rest :: "nat \<Rightarrow> nat \<Rightarrow> (nat \<Rightarrow> 'a) \<Rightarrow> nat \<Rightarrow> 'a multiset" where
  "rest bs e g h = image_mset g (mset_set ({i. live bs e i} - {h}))"

lemma bag_rest: "live bs e h \<Longrightarrow> slot_bag bs e (g(h := x)) = add_mset x (rest bs e g h)"
  by (simp add: bag_upd rest_def)

lemma rest_move:
  assumes "live bs e h" "live bs e n" "n \<noteq> h"
  shows "rest bs e (g(h := g n)) n = rest bs e g h"
  using bag_move [OF assms, of g undefined] bag_rest [OF assms(1), of g undefined]
    bag_rest [OF assms(2), of "g(h := g n)" undefined] by simp

lemma child_cases:
  assumes "pow2_block bs" "live bs e c" "c \<noteq> 1" "parent_of bs c = h"
  shows "c = child_of bs h \<or> c = right_child bs h"
  using parents(3) [OF assms(1) _ assms(3)] assms by (auto simp: live_def)

lemma child_facts:
  assumes "pow2_block bs" "slot bs h" "n = child_of bs h \<or> n = right_child bs h"
  shows "slot bs n" "h < n" "n \<noteq> 1" "parent_of bs n = h"
proof -
  show "slot bs n" "h < n" "parent_of bs n = h" using children [OF assms(1,2)] assms(3) by auto
  moreover have "h \<noteq> 0" using assms(2) by (auto simp: slot_def intro!: gr0I)
  ultimately show "n \<noteq> 1" by auto
qed

section \<open>Rescheduling the top\<close>

lemma resched_loop_spec:
  assumes p: "pow2_block bs" and e: "e = Suc l"
  shows "bq_shape bs e q \<Longrightarrow> live bs e h \<Longrightarrow> hole_inv bs e (node q) h \<Longrightarrow> (h \<noteq> 1 \<longrightarrow> fst (node q (parent_of bs h)) \<le> t) \<Longrightarrow>
    \<exists>q' h'. resched_loop bs q l h t = Some (q', h') \<and> bq_shape bs e q' \<and> live bs e h' \<and>
      (\<forall>v. heap_order bs e ((node q')(h' := (t, v)))) \<and> rest bs e (node q') h' = rest bs e (node q) h"
proof (induction "e - h" arbitrary: q h rule: less_induct)
  case less
  let ?lc = "child_of bs h" and ?rc = "right_child bs h"
  define n where "n = (if ?rc \<le> l \<and> \<not> fst (node q ?lc) < fst (node q ?rc) then ?rc else ?lc)"
  have sh: "slot bs h" using less.prems(2) by (simp add: live_def)
  have n: "slot bs n" "h < n" "n \<noteq> 1" "parent_of bs n = h"
    using child_facts [OF p sh, of n] by (auto simp: n_def)
  have least: "fst (node q n) \<le> fst (node q c)" if "live bs e c" "c \<noteq> 1" "parent_of bs c = h" for c
    using child_cases [OF p that] that(1) e by (auto simp: n_def live_def)
  have loop: "resched_loop bs q l h t = (if ?lc > l \<or> t < fst (node q n) then Some (q, h)
      else resched_loop bs (move_node q n h) l n t)"
    by (subst resched_loop.simps) (simp add: Let_def n_def right_child_def node_def)
  show ?case
  proof (cases "?lc > l \<or> t < fst (node q n)")
    case True
    have "t \<le> fst (node q c)" if c: "live bs e c" "c \<noteq> 1" "parent_of bs c = h" for c
    proof -
      have "?lc \<le> l" using child_cases [OF p c] children(4) [OF p sh] c(1) e by (auto simp: live_def)
      then show ?thesis using True least [OF c] by auto
    qed
    then have "heap_order bs e ((node q)(h := (t, v)))" for v
      using up_stop [OF p hole_inv_up [OF less.prems(3)]] less.prems(4) by simp
    moreover have "resched_loop bs q l h t = Some (q, h)" using True loop by simp
    ultimately show ?thesis using less.prems(1,2) by blast
  next
    case False
    have ln: "live bs e n" using False n(1) e by (auto simp: n_def live_def)
    let ?q = "move_node q n h"
    have q: "bq_shape bs e ?q" "node ?q = (node q)(h := node q n)"
      using move_node_shape [OF less.prems(1,2)] by auto
    have up: "fst (node q (parent_of bs h)) \<le> fst (node q n)" if "h \<noteq> 1"
      using less.prems(3) that ln n by (auto simp: hole_inv_def)
    have "hole_inv bs e (node ?q) n" unfolding q(2) by (rule sink_step [OF p less.prems(3) n(1,3,4) up least])
    moreover have "fst (node ?q (parent_of bs n)) \<le> t" using False n(4) by (simp add: q(2) not_less)
    moreover have "e - n < e - h" using n(2) ln by (simp add: live_def diff_less_mono2)
    moreover have "rest bs e (node ?q) n = rest bs e (node q) h"
      unfolding q(2) using rest_move [OF less.prems(2) ln] n(2) by simp
    ultimately show ?thesis using less.hyps [of n ?q] q(1) ln loop False by simp
  qed
qed

text \<open>Basic facts of a queue with elements: the root and the last node exist.\<close>

lemma nonempty_end:
  assumes p: "pow2_block bs" and q: "bq_shape bs e q" and ne: "e \<noteq> 0"
  obtains l where "e = Suc l" "live bs e 1" "slot bs l" "l \<noteq> 0"
proof -
  have b: "1 < bs" by (rule pow2_gt1 [OF p])
  obtain l where e: "e = Suc l" using ne by (cases e) auto
  have m: "m_end (m_storage q) = Suc l" "sv_ok bs (m_storage q)" using q e by (auto simp: bq_shape_def)
  then have "e mod bs \<noteq> 1" using e by (auto simp: sv_ok_def)
  then have l: "l \<noteq> 0" using e b by (cases l) auto
  moreover have "live bs e 1" using b l e by (simp add: live_def slot_def)
  ultimately show ?thesis using that e sv_pop_back_ok(2) [OF p m(2,1) refl] by blast
qed

lemma contents_top:
  assumes "live bs (m_end (m_storage q)) 1"
  shows "bq_contents bs q = add_mset (bq_top q) (rest bs (m_end (m_storage q)) (node q) 1)"
proof -
  have "bq_top q = node q 1" by (simp add: bq_top_def node_def)
  then show ?thesis using bag_rest [OF assms, of "node q" "node q 1"] by (simp add: bq_contents_def)
qed

lemma reschedule_top_ok:
  assumes p: "pow2_block bs" and q: "bq_inv bs q" and ne: "\<not> bq_empty q"
  shows "\<exists>q'. reschedule_top bs q t = Some q' \<and> bq_inv bs q' \<and>
    bq_contents bs q' = add_mset (t, snd (bq_top q)) (bq_contents bs q - {#bq_top q#}) \<and> bq_top q \<in># bq_contents bs q"
proof -
  let ?e = "m_end (m_storage q)"
  have sh: "bq_shape bs ?e q" and ho: "heap_order bs ?e (node q)" using q by (auto simp: bq_inv_def)
  obtain l where l: "?e = Suc l" "live bs ?e 1"
    using nonempty_end [OF p sh] ne by (auto simp: bq_empty_def sv_empty_def sv_size_def)
  obtain q1 h where r: "resched_loop bs q l 1 t = Some (q1, h)" "bq_shape bs ?e q1" "live bs ?e h"
      "\<And>v. heap_order bs ?e ((node q1)(h := (t, v)))" "rest bs ?e (node q1) h = rest bs ?e (node q) 1"
    using resched_loop_spec [OF p l(1) sh l(2) heap_hole [OF p ho], of t] by auto
  have "reschedule_top bs q t = Some (store_node q1 h t (snd (bq_top q)))"
    using r(1) l(1) by (cases q1) (simp add: reschedule_top_def do_reschedule_top_def sv_size_def store_node_def bq_top_def)
  moreover note contents_top [OF l(2)]
  moreover note store_node_shape [OF r(2,3), of t "snd (bq_top q)"]
  ultimately show ?thesis
    using r(4,5) bag_rest [OF r(3), of "node q1"] by (simp add: bq_inv_def bq_contents_def bq_shape_def)
qed

section \<open>Popping the top\<close>

text \<open>
  The hole sinks in the tree without its last node \<open>l\<close>, which may still be moved up when it is the only
  child of the hole.
\<close>

definition down_inv :: "nat \<Rightarrow> nat \<Rightarrow> (nat \<Rightarrow> 'k::linorder \<times> 'v) \<Rightarrow> nat \<Rightarrow> bool" where
  "down_inv bs l g h \<longleftrightarrow> hole_inv bs l g h \<and>
     (l \<noteq> 1 \<and> h < parent_of bs l \<longrightarrow> fst (g (parent_of bs l)) \<le> fst (g l)) \<and>
     (h = parent_of bs l \<and> l \<noteq> 1 \<and> h \<noteq> 1 \<longrightarrow> fst (g (parent_of bs h)) \<le> fst (g l))"

lemma down_step:
  assumes p: "pow2_block bs" and g: "down_inv bs l g h" and l: "slot bs l" and n: "slot bs n" "n \<noteq> 1" "parent_of bs n = h" "n \<le> l"
    and least: "\<And>c. live bs l c \<Longrightarrow> c \<noteq> 1 \<Longrightarrow> parent_of bs c = h \<Longrightarrow> fst (g n) \<le> fst (g c)"
  shows "down_inv bs l (g(h := g n)) n"
proof -
  have hn: "h < n" "slot bs h" using parents(1,2) [OF p n(1,2)] n(3) by auto
  have up: "fst (g (parent_of bs h)) \<le> fst (g n)" if "h \<noteq> 1"
    using g that n by (cases "n = l") (auto simp: down_inv_def hole_inv_def live_def)
  have "hole_inv bs l (g(h := g n)) n"
    by (rule sink_step [OF p _ n(1-3) up least]) (use g in \<open>auto simp: down_inv_def\<close>)
  moreover have "parent_of bs l < l" if "l \<noteq> 1" using parents(2) [OF p l that] .
  ultimately show ?thesis
    using g n(3) hn(1) n(4) unfolding down_inv_def by auto
qed

lemma down_loop_spec:
  assumes p: "pow2_block bs" and l: "slot bs l" and e: "e = Suc l"
  shows "bq_shape bs e q \<Longrightarrow> live bs e h \<Longrightarrow> down_inv bs l (node q) h \<Longrightarrow>
    \<exists>q' h'. down_loop bs q l h = Some (q', h') \<and> bq_shape bs e q' \<and> live bs e h' \<and> l < child_of bs h' \<and>
      down_inv bs l (node q') h' \<and> rest bs e (node q') h' = rest bs e (node q) h"
proof (induction "e - h" arbitrary: q h rule: less_induct)
  case less
  let ?lc = "child_of bs h" and ?rc = "right_child bs h"
  define n where "n = (if ?rc < l \<and> \<not> fst (node q ?lc) < fst (node q ?rc) then ?rc else ?lc)"
  have sh: "slot bs h" using less.prems(2) by (simp add: live_def)
  have n: "slot bs n" "h < n" "n \<noteq> 1" "parent_of bs n = h"
    using child_facts [OF p sh, of n] by (auto simp: n_def)
  have least: "fst (node q n) \<le> fst (node q c)" if "live bs l c" "c \<noteq> 1" "parent_of bs c = h" for c
    using child_cases [OF p that] that(1) by (auto simp: n_def live_def)
  have loop: "down_loop bs q l h = (if ?lc > l then Some (q, h) else down_loop bs (move_node q n h) l n)"
    by (subst down_loop.simps) (simp add: Let_def n_def right_child_def node_def)
  show ?case
  proof (cases "?lc > l")
    case True
    then show ?thesis using loop less.prems by simp
  next
    case False
    have nl: "n \<le> l" using False by (simp add: n_def)
    then have ln: "live bs e n" using n(1) e by (simp add: live_def)
    let ?q = "move_node q n h"
    have q: "bq_shape bs e ?q" "node ?q = (node q)(h := node q n)"
      using move_node_shape [OF less.prems(1,2)] by auto
    have "down_inv bs l (node ?q) n" unfolding q(2) by (rule down_step [OF p less.prems(3) l n(1,3,4) nl least])
    moreover have "e - n < e - h" using n(2) ln by (simp add: live_def diff_less_mono2)
    moreover have "rest bs e (node ?q) n = rest bs e (node q) h"
      unfolding q(2) using rest_move [OF less.prems(2) ln] n(2) by simp
    ultimately show ?thesis using less.hyps [of n ?q] q(1) ln loop False by simp
  qed
qed

text \<open>Taking off the last node of a queue whose other nodes form a heap.\<close>

lemma pop_back_shape:
  assumes p: "pow2_block bs" and s: "bq_shape bs (Suc l) q" and h: "heap_order bs l (node q)"
    and q': "q' = \<lparr>m_storage = sv_pop_back bs (m_storage q), P_storage = sv_pop_back bs (P_storage q)\<rparr>"
  shows "bq_inv bs q'" "bq_contents bs q' = slot_bag bs l (node q)"
proof -
  have m: "sv_ok bs (m_storage q)" "m_end (m_storage q) = Suc l" "sv_ok bs (P_storage q)" "m_end (P_storage q) = Suc l"
    using s by (auto simp: bq_shape_def)
  note a = sv_pop_back_ok [OF p m(1,2) refl] and b = sv_pop_back_ok [OF p m(3,4) refl]
  have lv: "\<And>i. live bs (m_end (m_storage q')) i \<longleftrightarrow> live bs l i" using a(3) by (simp add: q')
  have nd: "node q' i = node q i" if "live bs (m_end (m_storage q')) i" for i
    using a(4) b(4) that lv by (simp add: q' node_def)
  have "heap_order bs (m_end (m_storage q')) (node q')" using heap_order_cong [OF p lv nd] h by simp
  moreover have "bq_shape bs (m_end (m_storage q')) q'" using a(1,5) b(1,5) by (simp add: bq_shape_def q')
  ultimately show "bq_inv bs q'" by (simp add: bq_inv_def)
  show "bq_contents bs q' = slot_bag bs l (node q)" unfolding bq_contents_def by (rule bag_cong [OF lv nd])
qed

lemma bq_pop_ok:
  assumes p: "pow2_block bs" and q: "bq_inv bs q" and ne: "\<not> bq_empty q"
  shows "\<exists>q'. bq_pop bs q = Some q' \<and> bq_inv bs q' \<and> add_mset (bq_top q) (bq_contents bs q') = bq_contents bs q"
proof -
  let ?e = "m_end (m_storage q)"
  have sh: "bq_shape bs ?e q" and ho: "heap_order bs ?e (node q)" using q by (auto simp: bq_inv_def)
  obtain l where l: "?e = Suc l" "live bs ?e 1" "slot bs l"
    using nonempty_end [OF p sh] ne by (auto simp: bq_empty_def sv_empty_def sv_size_def)
  have "down_inv bs l (node q) 1"
    using heap_hole [OF p ho] ho l(1,3) parents(2) [OF p l(3)]
    by (auto simp: down_inv_def hole_inv_def heap_order_def live_def)
  then obtain q1 h where d: "down_loop bs q l 1 = Some (q1, h)" "bq_shape bs ?e q1" "live bs ?e h" "l < child_of bs h"
      "down_inv bs l (node q1) h" "rest bs ?e (node q1) h = rest bs ?e (node q) 1"
    using down_loop_spec [OF p l(3,1) sh l(2)] by blast
  define pop_back where "pop_back q = \<lparr>m_storage = sv_pop_back bs (m_storage q), P_storage = sv_pop_back bs (P_storage q)\<rparr>"
    for q :: "('a, 'b) prio_queue"
  have "\<exists>q2. bq_pop bs q = Some (pop_back q2) \<and> bq_shape bs ?e q2 \<and> heap_order bs l (node q2) \<and>
      slot_bag bs l (node q2) = rest bs ?e (node q1) h"
  proof (cases "h = l")
    case True
    have "{i. live bs ?e i} - {h} = {i. live bs l i}" using True l(1) by (auto simp: live_def less_Suc_eq)
    then have "slot_bag bs l (node q1) = rest bs ?e (node q1) h" by (simp add: slot_bag_def rest_def)
    moreover have "heap_order bs l (node q1)"
      using d(5) live_parent [OF p, of l] True by (fastforce simp: heap_order_def down_inv_def hole_inv_def live_def)
    moreover have "bq_pop bs q = Some (pop_back q1)"
      using d(1) True l(1) by (simp add: bq_pop_def sv_size_def Let_def pop_back_def)
    ultimately show ?thesis using d(2) by blast
  next
    case False
    then have hl: "live bs l h" using d(3) l(1) by (simp add: live_def)
    let ?x = "node q1 l"
    have ch: False if "live bs l i" "i \<noteq> 1" "parent_of bs i = h" for i
      using child_cases [OF p that] that(1) d(4) children(4) [OF p, of h] hl by (auto simp: live_def)
    have "up_inv bs l (node q1) h (fst ?x)"
      by (rule hole_inv_up) (use d(5) ch in \<open>auto simp: down_inv_def\<close>)
    then obtain q2 h' where u: "up_loop bs q1 h (fst ?x) = Some (q2, h')" "bq_shape bs ?e q2" "live bs l h'"
        "heap_order bs l ((node q2)(h' := (fst ?x, snd ?x)))"
        "slot_bag bs l ((node q2)(h' := (fst ?x, snd ?x))) = slot_bag bs l ((node q1)(h := (fst ?x, snd ?x)))"
      using up_loop_spec [OF p _ d(2) hl, of "fst ?x"] l(1) by fastforce
    let ?q = "store_node q2 h' (fst ?x) (snd ?x)"
    have q: "bq_shape bs ?e ?q" "node ?q = (node q2)(h' := (fst ?x, snd ?x))"
      using store_node_shape [OF u(2)] live_mono [OF u(3)] l(1) by auto
    have "sv_back (m_storage q1) = fst ?x" "sv_back (P_storage q1) = snd ?x"
      using d(2) l(1) by (auto simp: bq_shape_def sv_back_def node_def sv_nth_def)
    then have "bq_pop bs q = Some (pop_back ?q)"
      using d(1) False l(1) u(1) by (simp add: bq_pop_def sv_size_def Let_def pop_back_def)
    moreover have "{i. live bs ?e i} - {h} = insert l ({i. live bs l i} - {h})"
      using False l(1,3) by (auto simp: live_def less_Suc_eq)
    then have "rest bs ?e (node q1) h = add_mset ?x (rest bs l (node q1) h)"
      by (simp add: rest_def live_def)
    then have "slot_bag bs l (node ?q) = rest bs ?e (node q1) h" using u(5) q(2) bag_rest [OF hl, of "node q1" ?x] by simp
    ultimately show ?thesis using q u(4) by metis
  qed
  then obtain q2 where q2: "bq_pop bs q = Some (pop_back q2)" "bq_shape bs (Suc l) q2" "heap_order bs l (node q2)"
      "slot_bag bs l (node q2) = rest bs ?e (node q1) h"
    using l(1) by auto
  then show ?thesis using pop_back_shape [OF p q2(2,3) pop_back_def] q2(1,4) d(6) contents_top [OF l(2)] by simp
qed

section \<open>The top is least, and the size\<close>

lemma heap_top:
  assumes p: "pow2_block bs" and h: "heap_order bs e g"
  shows "live bs e i \<Longrightarrow> fst (g 1) \<le> fst (g i)"
proof (induction i rule: less_induct)
  case (less i)
  then show ?case
    using h live_parent [OF p less.prems] by (cases "i = 1") (auto simp: heap_order_def intro: order.trans)
qed

lemma bq_top_least:
  assumes p: "pow2_block bs" and q: "bq_inv bs q" and x: "x \<in># bq_contents bs q"
  shows "fst (bq_top q) \<le> fst x"
proof -
  obtain i where "live bs (m_end (m_storage q)) i" "x = node q i" using x by (auto simp: bq_contents_def slot_bag_def)
  then show ?thesis using heap_top [OF p, of _ "node q" i] q by (auto simp: bq_inv_def bq_top_def node_def)
qed

lemma slot_count:
  assumes b: "1 < bs"
  shows "card {i. live bs e i} = e - (e + bs - 1) div bs"
proof -
  have "card {i. live bs e i} + (e + bs - 1) div bs = e"
  proof (induction e)
    case 0
    then show ?case using b by (simp add: live_def)
  next
    case (Suc e)
    have "{i. live bs (Suc e) i} = (if e mod bs \<noteq> 0 then insert e {i. live bs e i} else {i. live bs e i})"
      by (auto simp: live_def slot_def less_Suc_eq)
    moreover have "\<not> live bs e e" by (simp add: live_def)
    ultimately have c: "card {i. live bs (Suc e) i} = card {i. live bs e i} + (if e mod bs \<noteq> 0 then 1 else 0)"
      by simp
    have "(Suc e + bs - 1) div bs = Suc (e div bs)" using b div_add_self2 [of bs e] by (simp add: add.commute)
    moreover have "(e + bs - 1) div bs = (if e mod bs = 0 then e div bs else Suc (e div bs))"
    proof -
      have "e + bs - 1 = bs * (e div bs) + (e mod bs + (bs - 1))" using b by (simp add: algebra_simps)
      then have "(e + bs - 1) div bs = e div bs + (e mod bs + (bs - 1)) div bs"
        using b by (simp only: div_mult_self4)
      moreover have "(r + (bs - 1)) div bs = (if r = 0 then 0 else 1)" if "r < bs" for r
        using that b by (cases r) (auto simp: div_add_self2)
      ultimately show ?thesis using b by simp
    qed
    ultimately show ?case using c Suc by (simp split: if_splits)
  qed
  then show ?thesis by linarith
qed

lemma contents_size: "pow2_block bs \<Longrightarrow> size (bq_contents bs q) = bq_size bs q"
  using slot_count [OF pow2_gt1, of bs] by (simp add: bq_contents_def slot_bag_def bq_size_def sv_size_def)

lemma bq_empty_iff:
  assumes "pow2_block bs" "bq_inv bs q"
  shows "bq_empty q \<longleftrightarrow> bq_contents bs q = {#}"
proof (cases "m_end (m_storage q) = 0")
  case True
  then show ?thesis by (simp add: bq_empty_def sv_empty_def sv_size_def bq_contents_def slot_bag_def live_def)
next
  case False
  have "bq_shape bs (m_end (m_storage q)) q" using assms(2) by (simp add: bq_inv_def)
  from nonempty_end [OF assms(1) this False] have "live bs (m_end (m_storage q)) 1" by blast
  then show ?thesis using False
    by (auto simp: bq_empty_def sv_empty_def sv_size_def bq_contents_def slot_bag_def mset_set_empty_iff)
qed

lemma new_prio_queue_ok:
  "pow2_block bs \<Longrightarrow> bq_inv bs new_prio_queue \<and> bq_contents bs new_prio_queue = {#}"
  by (simp add: new_skip_vector_ok bq_inv_def bq_shape_def heap_order_def bq_contents_def slot_bag_def new_prio_queue_def live_def new_skip_vector_def [THEN arg_cong, of m_end])

end
