(* ===== verification/BHeapProps.thy ===== *)
theory BHeapProps
  imports BHeapOps
begin

text \<open>
  The client loops of \<open>queue/main.cc\<close> over the B-heap, the B-heap as a priority queue in the sense of
  the library's interface, and its properties.
\<close>

section \<open>Client loops\<close>

definition bq_add :: "nat \<Rightarrow> ('k::linorder, 'v) prio_queue \<Rightarrow> 'k \<times> 'v \<Rightarrow> ('k, 'v) prio_queue" where
  "bq_add bs q e = the (bq_push bs q (fst e) (snd e))"

text \<open>One turn of \<open>while ( ! q.empty() ) { auto e = q.top(); ... q.pop(); }\<close>.\<close>

definition bq_remove :: "nat \<Rightarrow> ('k::linorder, 'v) prio_queue \<Rightarrow> ('k \<times> 'v) option \<times> ('k, 'v) prio_queue" where
  "bq_remove bs q = (if bq_empty q then (None, q) else (Some (bq_top q), the (bq_pop bs q)))"

text \<open>
  The loop of \<open>quick_test\<close> reads the payload after \<open>pop\<close>. \<open>top\<close> returns references into slot 1, so that
  the cell of slot 1 is read as \<open>pop\<close> left it (\<open>None\<close>: no object lives there any more). The number of
  turns is bounded by \<open>n\<close>.
\<close>

definition read_cell :: "'a skip_vector \<Rightarrow> nat \<Rightarrow> 'a option" where
  "read_cell v i = (if i < length (m_ptr v) then m_ptr v ! i else None)"

fun quick_test_loop :: "nat \<Rightarrow> nat \<Rightarrow> ('k::linorder, 'v) prio_queue \<Rightarrow> 'v option list option" where
  "quick_test_loop bs 0 q = None"
| "quick_test_loop bs (Suc n) q =
     (if bq_empty q then Some []
      else
        case bq_pop bs q of
          None \<Rightarrow> None
        | Some q' \<Rightarrow> map_option (Cons (read_cell (P_storage q') 1)) (quick_test_loop bs n q'))"

section \<open>The B-heap implements the queue interface\<close>

interpretation bq: pq_total "\<lambda>q. pow2_block bs \<and> bq_inv bs q" "bq_contents bs" "\<lambda>q. fst" "\<lambda>q e. True" "bq_add bs" "bq_remove bs"
  for bs :: nat
proof (unfold_locales, goal_cases)
  case (1 q)
  then show ?case using bq_empty_iff [of bs q] by (simp add: bq_remove_def)
next
  case (2 q)
  then have p: "pow2_block bs" "bq_inv bs q" and ne: "\<not> bq_empty q" using bq_empty_iff [of bs q] by auto
  obtain q' where q': "bq_pop bs q = Some q'" "bq_inv bs q'" "add_mset (bq_top q) (bq_contents bs q') = bq_contents bs q"
    using bq_pop_ok [OF p ne] by blast
  have "bq_top q \<in># bq_contents bs q" "bq_contents bs q' = bq_contents bs q - {#bq_top q#}"
    using q'(3) by (metis union_single_eq_member, metis add_mset_remove_trivial)
  moreover have "\<forall>x \<in># bq_contents bs q. fst (bq_top q) \<le> fst x" using bq_top_least [OF p] by blast
  ultimately show ?case using p ne q'(1,2) by (simp add: bq_remove_def)
next
  case (3 q e)
  then show ?case using bq_push_ok [of bs q "fst e" "snd e"] by (auto simp: bq_add_def)
next
  case (4 q e)
  then show ?case using bq_push_ok [of bs q "fst e" "snd e"] by (auto simp: bq_add_def)
qed simp_all

section \<open>Properties\<close>

lemma pow2_block_8: "pow2_block 8"
  unfolding pow2_block_def by (rule exI [of _ 2]) simp

definition demo_bq :: "(nat, nat) prio_queue" where
  "demo_bq = fill (bq_add 8) [(9, 0), (4, 1), (8, 2), (1, 3), (6, 4), (7, 5), (2, 6), (5, 7), (10, 8), (3, 9)] new_prio_queue"

lemma demo_bq_ok: "bq_inv 8 demo_bq" "\<not> bq_empty demo_bq"
proof -
  have "bq_inv 8 (fill (bq_add 8) es new_prio_queue) \<and> bq_contents 8 (fill (bq_add 8) es new_prio_queue) = mset es"
    for es :: "(nat \<times> nat) list"
    using bq.fill_any [of 8 new_prio_queue es] new_prio_queue_ok [OF pow2_block_8] pow2_block_8 by auto
  then have "bq_inv 8 demo_bq \<and> bq_contents 8 demo_bq \<noteq> {#}" by (simp add: demo_bq_def del: fill.simps)
  then show "bq_inv 8 demo_bq" "\<not> bq_empty demo_bq" using bq_empty_iff [OF pow2_block_8] by auto
qed

text \<open>
  C19. Pushing a key with its payload ends, keeps the queue a well-formed B-heap, adds exactly that pair and
  raises the size by one.
\<close>

theorem prio_queue_push_correct:
  assumes "pow2_block bs" "bq_inv bs q"
  shows "\<exists>q'. bq_push bs q k v = Some q' \<and> bq_inv bs q' \<and> bq_contents bs q' = add_mset (k, v) (bq_contents bs q) \<and>
    bq_size bs q' = bq_size bs q + 1"
  using bq_push_ok [OF assms, of k v] contents_size [OF assms(1)] by (metis Suc_eq_plus1 size_add_mset)

theorem prio_queue_push_correct_witness:
  "\<exists>q'. bq_push 8 demo_bq 0 42 = Some q' \<and> bq_inv 8 q' \<and> bq_contents 8 q' = add_mset (0, 42) (bq_contents 8 demo_bq) \<and>
    bq_size 8 q' = bq_size 8 demo_bq + 1"
  by (rule prio_queue_push_correct [OF pow2_block_8 demo_bq_ok(1)])

text \<open>
  C20. On a queue with elements, \<open>top\<close> is an element of least key, and \<open>pop\<close> ends, removes exactly that
  element, keeps the queue a well-formed B-heap and lowers the size by one.
\<close>

theorem prio_queue_pop_correct:
  assumes "pow2_block bs" "bq_inv bs q" "\<not> bq_empty q"
  shows "(\<forall>x \<in># bq_contents bs q. fst (bq_top q) \<le> fst x) \<and>
    (\<exists>q'. bq_pop bs q = Some q' \<and> bq_inv bs q' \<and> bq_contents bs q = add_mset (bq_top q) (bq_contents bs q') \<and>
       bq_size bs q = bq_size bs q' + 1)"
  using bq_pop_ok [OF assms] bq_top_least [OF assms(1,2)] contents_size [OF assms(1)] by (metis Suc_eq_plus1 size_add_mset)

theorem prio_queue_pop_correct_witness:
  "set_mset (bq_contents 8 demo_bq) \<subseteq> {x. fst (bq_top demo_bq) \<le> fst x} \<and>
    (\<exists>q'. bq_pop 8 demo_bq = Some q' \<and> bq_inv 8 q' \<and> bq_contents 8 demo_bq = add_mset (bq_top demo_bq) (bq_contents 8 q') \<and>
       bq_size 8 demo_bq = bq_size 8 q' + 1)"
  using prio_queue_pop_correct [OF pow2_block_8 demo_bq_ok] by blast

text \<open>
  C21. \<open>reschedule_top\<close> ends, gives the top element the new key, leaves all other elements as they are and
  keeps the queue a well-formed B-heap.
\<close>

theorem reschedule_top_correct:
  assumes "pow2_block bs" "bq_inv bs q" "\<not> bq_empty q"
  shows "\<exists>q'. reschedule_top bs q t = Some q' \<and> bq_inv bs q' \<and>
    bq_contents bs q' = add_mset (t, snd (bq_top q)) (bq_contents bs q - {#bq_top q#}) \<and> bq_top q \<in># bq_contents bs q"
  by (rule reschedule_top_ok [OF assms])

theorem reschedule_top_correct_witness:
  "\<exists>q'. reschedule_top 8 demo_bq 20 = Some q' \<and> bq_inv 8 q' \<and>
    bq_contents 8 q' = add_mset (20, snd (bq_top demo_bq)) (bq_contents 8 demo_bq - {#bq_top demo_bq#}) \<and>
    bq_top demo_bq \<in># bq_contents 8 demo_bq"
  by (rule reschedule_top_correct [OF pow2_block_8 demo_bq_ok])

text \<open>
  Filling an empty B-heap and popping until it is empty ends and lists the elements by ascending key,
  for every block size that is a power of two.
\<close>

theorem prio_queue_sorts:
  assumes "pow2_block bs"
  shows "\<exists>out. drain (bq_remove bs) (Suc (length es)) (fill (bq_add bs) es new_prio_queue) = Some out \<and>
    mset out = mset es \<and> sorted (map fst out)"
  using bq.fill_drain_any [of bs new_prio_queue es] new_prio_queue_ok [OF assms] assms by blast

theorem prio_queue_sorts_witness:
  "\<exists>out. drain (bq_remove 8) (Suc (length [(2 :: nat, ''b''), (1, ''a'')])) (fill (bq_add 8) [(2 :: nat, ''b''), (1, ''a'')] new_prio_queue) = Some out \<and>
    mset out = mset [(2 :: nat, ''b''), (1, ''a'')] \<and> sorted (map fst out)"
  by (rule prio_queue_sorts [OF pow2_block_8])

text \<open>
  The addresses of the B-heap form one binary tree over the usable slots: both children of a slot are
  later slots with that slot as their parent, and every slot but the root is a child of its parent, which
  is an earlier slot.
\<close>

theorem heap_addresses_form_tree:
  assumes "pow2_block bs" "slot bs n"
  shows "slot bs (child_of bs n) \<and> slot bs (right_child bs n) \<and> n < child_of bs n \<and> child_of bs n < right_child bs n \<and>
    parent_of bs (child_of bs n) = n \<and> parent_of bs (right_child bs n) = n \<and>
    (n = 1 \<or> slot bs (parent_of bs n) \<and> parent_of bs n < n \<and>
       n \<in> {child_of bs (parent_of bs n), right_child bs (parent_of bs n)})"
  using children [OF assms] parents [OF assms] by blast

theorem heap_addresses_form_tree_witness:
  "slot 8 (child_of 8 13) \<and> slot 8 (right_child 8 13) \<and> 13 < child_of 8 13 \<and> child_of 8 13 < right_child 8 13 \<and>
    parent_of 8 (child_of 8 13) = 13 \<and> parent_of 8 (right_child 8 13) = 13 \<and>
    (13 = (1 :: nat) \<or> slot 8 (parent_of 8 13) \<and> parent_of 8 13 < 13 \<and>
       13 \<in> {child_of 8 (parent_of 8 13), right_child 8 (parent_of 8 13)})"
  by (rule heap_addresses_form_tree [OF pow2_block_8]) (simp add: slot_def)

lemma sv_destroy_cells:
  assumes "pow2_block bs" "sv_ok bs v"
  shows "set (sv_destroy bs v) \<subseteq> {None}"
proof -
  have "m_end v \<le> length (m_ptr v)" using assms(2) by (simp add: sv_ok_def)
  from destroy_loop_nth [OF assms(1) this]
  have "sv_destroy bs v ! i = None" if "i < length (sv_destroy bs v)" for i
    using that assms(2) by (cases "m_ptr v ! i") (auto simp: sv_destroy_def sv_ok_def)
  then show ?thesis by (metis in_set_conv_nth insertI1 subsetI)
qed

text \<open>
  The destructor of a well-formed skip vector destroys every object: it leaves only raw cells.
\<close>

theorem skip_vector_destroy_all:
  assumes "pow2_block bs" "sv_ok bs v"
  shows "\<forall>cell \<in> set (sv_destroy bs v). cell = None"
  using sv_destroy_cells [OF assms] by auto

theorem skip_vector_destroy_all_witness:
  "set (sv_destroy 8 (m_storage demo_bq)) \<subseteq> {None}"
  using skip_vector_destroy_all [OF pow2_block_8, of "m_storage demo_bq"] demo_bq_ok(1)
  by (auto simp: bq_inv_def bq_shape_def)

lemma read_top_cell:
  assumes p: "pow2_block bs" and q: "bq_inv bs q"
  shows "read_cell (P_storage q) 1 = (if bq_empty q then None else Some (snd (bq_top q)))"
proof -
  let ?v = "P_storage q"
  have sh: "bq_shape bs (m_end (m_storage q)) q" using q by (simp add: bq_inv_def)
  have "slot bs 1" using pow2_gt1 [OF p] by (simp add: slot_def)
  then have "read_cell ?v 1 \<noteq> None \<longleftrightarrow> 1 < m_end ?v" using sh by (auto simp: read_cell_def bq_shape_def sv_ok_def)
  moreover have "live bs (m_end (m_storage q)) 1" if "m_end (m_storage q) \<noteq> 0"
    using nonempty_end [OF p sh that] by blast
  then have "1 < m_end ?v \<longleftrightarrow> \<not> bq_empty q"
    using sh by (auto simp: bq_empty_def sv_empty_def sv_size_def bq_shape_def live_def)
  moreover have "read_cell ?v 1 \<noteq> None \<Longrightarrow> read_cell ?v 1 = Some (snd (bq_top q))"
    by (auto simp: read_cell_def bq_top_def sv_nth_def split: if_splits)
  ultimately show ?thesis by auto
qed

lemma quick_test_loop_drain:
  assumes p: "pow2_block bs"
  shows "bq_inv bs q \<Longrightarrow> drain (bq_remove bs) n q = Some es \<Longrightarrow>
    quick_test_loop bs n q = Some (if es = [] then [] else tl (map (Some \<circ> snd) es) @ [None])"
proof (induction n arbitrary: q es)
  case 0
  then show ?case by simp
next
  case (Suc n)
  show ?case
  proof (cases "bq_empty q")
    case True
    then show ?thesis using Suc.prems(2) by (simp add: bq_remove_def)
  next
    case False
    obtain q' where q': "bq_pop bs q = Some q'" "bq_inv bs q'" using bq_pop_ok [OF p Suc.prems(1) False] by blast
    have "bq_remove bs q = (Some (bq_top q), q')" using False q'(1) by (simp add: bq_remove_def)
    then obtain es' where es: "es = bq_top q # es'" "drain (bq_remove bs) n q' = Some es'"
      using Suc.prems(2) by auto
    have "read_cell (P_storage q') 1 = (if es' = [] then None else Some (snd (hd es')))"
      using read_top_cell [OF p q'(2)] es(2) by (cases n) (auto simp: bq_remove_def split: if_splits)
    then show ?thesis using Suc.IH [OF q'(2) es(2)] False q'(1) es(1) by (cases es') auto
  qed
qed

text \<open>
  The loop of \<open>quick_test\<close> over a queue with elements does not print the payloads in ascending order of
  their keys: through the references of \<open>top\<close> it skips the first one, prints the others and ends with a read
  of a destroyed object.
\<close>

theorem quick_test_reads_after_pop:
  assumes "pow2_block bs" "bq_inv bs q" "\<not> bq_empty q"
  shows "\<exists>es. drain (bq_remove bs) (Suc (bq_size bs q)) q = Some es \<and> mset es = bq_contents bs q \<and> sorted (map fst es) \<and>
    quick_test_loop bs (Suc (bq_size bs q)) q = Some (map (Some \<circ> snd) (tl es) @ [None])"
proof -
  obtain es where es: "drain (bq_remove bs) (Suc (bq_size bs q)) q = Some es" "mset es = bq_contents bs q" "sorted (map fst es)"
    using bq.drain_sorted [of bs q "Suc (bq_size bs q)"] assms contents_size [OF assms(1), of q] by auto
  have "es \<noteq> []" using es(2) assms bq_empty_iff [OF assms(1,2)] by auto
  then show ?thesis using quick_test_loop_drain [OF assms(1,2) es(1)] es by (auto simp: map_tl)
qed

theorem quick_test_reads_after_pop_witness:
  "\<exists>es. drain (bq_remove 8) (Suc (bq_size 8 demo_bq)) demo_bq = Some es \<and> mset es = bq_contents 8 demo_bq \<and>
    sorted (map fst es) \<and>
    quick_test_loop 8 (Suc (bq_size 8 demo_bq)) demo_bq = Some (map (Some \<circ> snd) (tl es) @ [None])"
  by (rule quick_test_reads_after_pop [OF pow2_block_8 demo_bq_ok])

end
