(* ===== verification/BHeapVoid.thy ===== *)
theory BHeapVoid
  imports BHeapProps
begin

text \<open>
  The B-heap without payloads, \<open>prio_queue<block_size, T, void>\<close>: the payload base class stores nothing, so the
  queue is its vector of keys. The operations are the key part of those with payloads, from which
  correctness follows. The second part is the growth of a vector whose elements are copied: what happens when a copy
  throws, on an explicit memory of blocks, and the move constructor.
\<close>

section \<open>The queue of keys\<close>

definition void_move :: "'k skip_vector \<Rightarrow> nat \<Rightarrow> nat \<Rightarrow> 'k skip_vector" where
  "void_move v from to = sv_set v to (sv_nth v from)"

partial_function (option) void_up_loop ::
  "nat \<Rightarrow> 'k::linorder skip_vector \<Rightarrow> nat \<Rightarrow> 'k \<Rightarrow> ('k skip_vector \<times> nat) option" where
  "void_up_loop bs v hole_idx tmp =
     (if hole_idx \<noteq> 1
      then
        let parent = parent_of bs hole_idx
        in if \<not> tmp < sv_nth v parent then Some (v, hole_idx)
           else void_up_loop bs (void_move v parent hole_idx) parent tmp
      else Some (v, hole_idx))"

definition void_push :: "nat \<Rightarrow> 'k::linorder skip_vector \<Rightarrow> 'k \<Rightarrow> 'k skip_vector option" where
  "void_push bs v key =
     (let (hole_idx, v) = sv_push_back bs v key;
          tmp = sv_back v
      in case void_up_loop bs v hole_idx tmp of
           None \<Rightarrow> None
         | Some (v, hole_idx) \<Rightarrow> Some (sv_set v hole_idx tmp))"

definition void_top :: "'k skip_vector \<Rightarrow> 'k" where
  "void_top v = sv_nth v 1"

definition void_size :: "nat \<Rightarrow> 'k skip_vector \<Rightarrow> nat" where
  "void_size bs v = sv_size v - (sv_size v + bs - 1) div bs"

partial_function (option) void_down_loop ::
  "nat \<Rightarrow> 'k::linorder skip_vector \<Rightarrow> nat \<Rightarrow> nat \<Rightarrow> ('k skip_vector \<times> nat) option" where
  "void_down_loop bs v last_idx idx =
     (let lc = child_of bs idx
      in if lc > last_idx then Some (v, idx)
         else
           let sibling_offset = (if is_block_leaf bs idx then bs else 1);
               rc = lc + sibling_offset;
               i = (rc < last_idx \<and> \<not> sv_nth v lc < sv_nth v rc);
               nxt = (if i then rc else lc)
           in void_down_loop bs (void_move v nxt idx) last_idx nxt)"

definition void_pop :: "nat \<Rightarrow> 'k::linorder skip_vector \<Rightarrow> 'k skip_vector option" where
  "void_pop bs v =
     (let last_idx = sv_size v - 1
      in case void_down_loop bs v last_idx 1 of
           None \<Rightarrow> None
         | Some (v, idx) \<Rightarrow>
             let r = (if idx \<noteq> last_idx
                      then
                        let lst = sv_back v
                        in case void_up_loop bs v idx lst of
                             None \<Rightarrow> None
                           | Some (v, idx) \<Rightarrow> Some (sv_set v idx lst)
                      else Some v)
             in map_option (sv_pop_back bs) r)"

partial_function (option) void_resched_loop ::
  "nat \<Rightarrow> 'k::linorder skip_vector \<Rightarrow> nat \<Rightarrow> nat \<Rightarrow> 'k \<Rightarrow> ('k skip_vector \<times> nat) option" where
  "void_resched_loop bs v last_idx idx t =
     (let lc = child_of bs idx
      in if lc > last_idx then Some (v, idx)
         else
           let sibling_offset = (if is_block_leaf bs idx then bs else 1);
               rc = lc + sibling_offset;
               i = (rc \<le> last_idx \<and> \<not> sv_nth v lc < sv_nth v rc);
               nxt = (if i then rc else lc)
           in if t < sv_nth v nxt then Some (v, idx)
              else void_resched_loop bs (void_move v nxt idx) last_idx nxt t)"

definition void_reschedule_top :: "nat \<Rightarrow> 'k::linorder skip_vector \<Rightarrow> 'k \<Rightarrow> 'k skip_vector option" where
  "void_reschedule_top bs v t =
     (let last_idx = sv_size v - 1
      in case void_resched_loop bs v last_idx 1 t of
           None \<Rightarrow> None
         | Some (v, idx) \<Rightarrow> Some (sv_set v idx t))"

section \<open>Exceptions of copies\<close>

text \<open>
  \<open>move_to\<close> for elements whose move may throw copies every object. \<open>ok i\<close> says that the copy of slot \<open>i\<close> does not
  throw. The result says whether every copy was made, with the new block and the old block afterwards: the old objects destroyed,
  or, when a copy throws, the copies destroyed by the handler.
\<close>

partial_function (option) copy_loop ::
  "nat \<Rightarrow> (nat \<Rightarrow> bool) \<Rightarrow> 'a option list \<Rightarrow> nat \<Rightarrow> 'a option list \<Rightarrow> nat \<Rightarrow> ('a option list + 'a option list) option" where
  "copy_loop bs ok b s ptr i =
     (if i \<noteq> s
      then
        if i AND block_mask bs \<noteq> 0
        then if ok i then copy_loop bs ok b s (ptr[i := b ! i]) (i + 1)
             else Some (Inl (destroy_loop bs ptr i))
        else copy_loop bs ok b s ptr (i + 1)
      else Some (Inr ptr))"

definition move_to_copy ::
  "nat \<Rightarrow> (nat \<Rightarrow> bool) \<Rightarrow> 'a option list \<Rightarrow> nat \<Rightarrow> 'a option list \<Rightarrow> (bool \<times> 'a option list \<times> 'a option list) option" where
  "move_to_copy bs ok b s ptr =
     (case copy_loop bs ok b s ptr 1 of
        None \<Rightarrow> None
      | Some (Inl ptr) \<Rightarrow> Some (False, ptr, b)
      | Some (Inr ptr) \<Rightarrow> Some (True, ptr, destroy_loop bs b s))"

text \<open>
  \<open>grow\<close> on an explicit memory, so that what an exception leaves behind is a result of the code: the three fields of the vector, the
  allocated blocks by address (a cell without object is \<open>None\<close>), and for every \<open>A::deallocate\<close> the address, the cells at that
  moment and the size it was given. The address of the new block is the answer of \<open>A::allocate\<close>, a parameter.
\<close>

record 'a vector_mem =
  vm_ptr :: nat
  vm_storage_size :: nat
  vm_end :: nat
  vm_blocks :: "nat \<rightharpoonup> 'a option list"
  vm_frees :: "(nat \<times> 'a option list \<times> nat) list"

definition vm_cells :: "'a vector_mem \<Rightarrow> nat \<Rightarrow> 'a option list" where
  "vm_cells m p = (case vm_blocks m p of None \<Rightarrow> [] | Some c \<Rightarrow> c)"

definition vm_store :: "'a vector_mem \<Rightarrow> nat \<Rightarrow> 'a option list \<Rightarrow> 'a vector_mem" where
  "vm_store m p c = m\<lparr>vm_blocks := (vm_blocks m)(p \<mapsto> c)\<rparr>"

definition vm_deallocate :: "'a vector_mem \<Rightarrow> nat \<Rightarrow> nat \<Rightarrow> 'a vector_mem" where
  "vm_deallocate m p n = m\<lparr>vm_blocks := (vm_blocks m)(p := None), vm_frees := vm_frees m @ [(p, vm_cells m p, n)]\<rparr>"

text \<open>The handler of \<open>grow\<close>; it reads \<open>m_storage_size\<close> as it is at that moment and throws the exception again (\<open>None\<close>).\<close>

definition grow_catch :: "nat \<Rightarrow> nat \<Rightarrow> 'a vector_mem \<Rightarrow> nat option \<times> 'a vector_mem" where
  "grow_catch ptr idx m =
     (let m = (if idx \<noteq> 0 then vm_store m ptr ((vm_cells m ptr)[idx := None]) else m)
      in (None, vm_deallocate m ptr (vm_storage_size m)))"

definition grow_assign :: "nat \<Rightarrow> nat \<Rightarrow> nat \<Rightarrow> 'a vector_mem \<Rightarrow> nat option \<times> 'a vector_mem" where
  "grow_assign ptr desired_size idx m = (Some idx, m\<lparr>vm_ptr := ptr, vm_storage_size := desired_size, vm_end := idx + 1\<rparr>)"

definition grow_copy :: "nat \<Rightarrow> (nat \<Rightarrow> bool) \<Rightarrow> bool \<Rightarrow> nat \<Rightarrow> 'a vector_mem \<Rightarrow> 'a \<Rightarrow> (nat option \<times> 'a vector_mem) option" where
  "grow_copy bs ok ok_u ptr m u =
     (let desired_size = (if vm_storage_size m \<noteq> 0 then vm_storage_size m * 2 else bs * 16);
          m = vm_store m ptr (replicate desired_size None)
      in if \<not> ok_u then Some (grow_catch ptr 0 m)
         else
           let m = vm_store m ptr ((vm_cells m ptr)[vm_end m + 1 := Some u]);
               idx = vm_end m + 1
           in if vm_storage_size m \<noteq> 0
              then
                case move_to_copy bs ok (vm_cells m (vm_ptr m)) (vm_end m) (vm_cells m ptr) of
                  None \<Rightarrow> None
                | Some (copied, to, b) \<Rightarrow>
                    let m = vm_store (vm_store m ptr to) (vm_ptr m) b
                    in if copied then Some (grow_assign ptr desired_size idx (vm_deallocate m (vm_ptr m) (vm_storage_size m)))
                       else Some (grow_catch ptr idx m)
              else Some (grow_assign ptr desired_size idx m))"

text \<open>
  The move constructor: the new vector takes the block; the other one keeps its \<open>m_end\<close> (and the size
  of the storage). \<open>m_ptr\<close> of the source is the null pointer, no storage.
\<close>

definition move_skip_vector :: "'a skip_vector \<Rightarrow> 'a skip_vector \<times> 'a skip_vector" where
  "move_skip_vector v = (\<lparr>m_ptr = m_ptr v, m_end = m_end v\<rparr>, v\<lparr>m_ptr := []\<rparr>)"

section \<open>The key part of the queue with payloads\<close>

lemma void_up_loop_keys:
  assumes "up_loop bs q h t = Some r"
  shows "void_up_loop bs (m_storage q) h t = Some (m_storage (fst r), snd r)"
proof (rule up_loop.raw_induct [OF _ assms, of "\<lambda>bs q h t r. void_up_loop bs (m_storage q) h t = Some (m_storage (fst r), snd r)"], goal_cases)
  case (1 lp bs q h t r)
  from 1(2) show ?case
    by (subst void_up_loop.simps) (auto simp: Let_def move_node_def void_move_def dest!: 1(1) split: if_splits)
qed

lemma void_down_loop_keys:
  assumes "down_loop bs q l i = Some r"
  shows "void_down_loop bs (m_storage q) l i = Some (m_storage (fst r), snd r)"
proof (rule down_loop.raw_induct [OF _ assms, of "\<lambda>bs q l i r. void_down_loop bs (m_storage q) l i = Some (m_storage (fst r), snd r)"], goal_cases)
  case (1 lp bs q l i r)
  from 1(2) show ?case
    by (subst void_down_loop.simps) (auto simp: Let_def move_node_def void_move_def dest!: 1(1) split: if_splits)
qed

lemma void_resched_loop_keys:
  assumes "resched_loop bs q l i t = Some r"
  shows "void_resched_loop bs (m_storage q) l i t = Some (m_storage (fst r), snd r)"
proof (rule resched_loop.raw_induct [OF _ assms, of "\<lambda>bs q l i t r. void_resched_loop bs (m_storage q) l i t = Some (m_storage (fst r), snd r)"], goal_cases)
  case (1 lp bs q l i t r)
  from 1(2) show ?case
    by (subst void_resched_loop.simps) (auto simp: Let_def move_node_def void_move_def dest!: 1(1) split: if_splits)
qed

lemma void_push_keys: "bq_push bs q k x = Some q' \<Longrightarrow> void_push bs (m_storage q) k = Some (m_storage q')"
  by (auto simp: bq_push_def push_key_def void_push_def store_node_def Let_def split: prod.splits option.splits dest!: void_up_loop_keys)

lemma void_pop_keys: "bq_pop bs q = Some q' \<Longrightarrow> void_pop bs (m_storage q) = Some (m_storage q')"
  by (auto simp: bq_pop_def void_pop_def store_node_def Let_def split: prod.splits option.splits if_splits
      dest!: void_up_loop_keys void_down_loop_keys)

lemma void_reschedule_keys:
  "reschedule_top bs q t = Some q' \<Longrightarrow> void_reschedule_top bs (m_storage q) t = Some (m_storage q')"
  by (auto simp: reschedule_top_def do_reschedule_top_def void_reschedule_top_def Let_def split: prod.splits option.splits
      dest!: void_resched_loop_keys)

section \<open>Correctness by adding payloads\<close>

text \<open>A vector of keys as a queue whose payloads carry no information.\<close>

definition with_unit :: "'k skip_vector \<Rightarrow> ('k, unit) prio_queue" where
  "with_unit v = \<lparr>m_storage = v, P_storage = \<lparr>m_ptr = map (map_option (\<lambda>_. ())) (m_ptr v), m_end = m_end v\<rparr>\<rparr>"

definition void_inv :: "nat \<Rightarrow> 'k::linorder skip_vector \<Rightarrow> bool" where
  "void_inv bs v \<longleftrightarrow> bq_inv bs (with_unit v)"

definition void_contents :: "nat \<Rightarrow> 'k skip_vector \<Rightarrow> 'k multiset" where
  "void_contents bs v = image_mset fst (bq_contents bs (with_unit v))"

lemma m_storage_with_unit [simp]: "m_storage (with_unit v) = v"
  by (simp add: with_unit_def)

lemma node_unit: "node q = node (with_unit (m_storage q))" for q :: "('k, unit) prio_queue"
  by (simp add: node_def fun_eq_iff)

lemma with_unit_inv:
  fixes q :: "('k::linorder, unit) prio_queue"
  assumes "bq_inv bs q"
  shows "void_inv bs (m_storage q)"
proof -
  have "sv_ok bs (P_storage (with_unit (m_storage q)))"
    using assms by (auto simp: bq_inv_def bq_shape_def with_unit_def sv_ok_def)
  then show ?thesis
    using assms node_unit [of q] by (simp add: void_inv_def bq_inv_def bq_shape_def with_unit_def)
qed

lemma with_unit_contents: "void_contents bs (m_storage q) = image_mset fst (bq_contents bs q)"
  for q :: "('k, unit) prio_queue"
  using node_unit [of q] by (simp add: void_contents_def bq_contents_def)

lemma void_push_ok:
  assumes "pow2_block bs" "void_inv bs v"
  shows "\<exists>v'. void_push bs v k = Some v' \<and> void_inv bs v' \<and> void_contents bs v' = add_mset k (void_contents bs v)"
proof -
  obtain q where q: "bq_push bs (with_unit v) k () = Some q" "bq_inv bs q"
      "bq_contents bs q = add_mset (k, ()) (bq_contents bs (with_unit v))"
    using bq_push_ok [OF assms(1), of "with_unit v" k "()"] assms(2) by (auto simp: void_inv_def)
  then show ?thesis
    using void_push_keys [OF q(1)] with_unit_inv [OF q(2)] with_unit_contents [of bs q] with_unit_contents [of bs "with_unit v"] by simp
qed

lemma void_pop_ok:
  assumes "pow2_block bs" "void_inv bs v" "\<not> sv_empty v"
  shows "\<exists>v'. void_pop bs v = Some v' \<and> void_inv bs v' \<and> void_contents bs v = add_mset (void_top v) (void_contents bs v')"
    and "\<forall>x \<in># void_contents bs v. void_top v \<le> x"
proof -
  have i: "bq_inv bs (with_unit v)" "\<not> bq_empty (with_unit v)" "fst (bq_top (with_unit v)) = void_top v"
    using assms(2,3) by (simp_all add: void_inv_def bq_empty_def bq_top_def void_top_def)
  obtain q where q: "bq_pop bs (with_unit v) = Some q" "bq_inv bs q"
      "add_mset (bq_top (with_unit v)) (bq_contents bs q) = bq_contents bs (with_unit v)"
    using bq_pop_ok [OF assms(1) i(1,2)] by blast
  have "void_contents bs v = image_mset fst (bq_contents bs (with_unit v))" by (simp add: void_contents_def)
  then show "\<exists>v'. void_pop bs v = Some v' \<and> void_inv bs v' \<and> void_contents bs v = add_mset (void_top v) (void_contents bs v')"
    using void_pop_keys [OF q(1)] with_unit_inv [OF q(2)] with_unit_contents [of bs q] i(3) q(3) [symmetric] by simp
  show "\<forall>x \<in># void_contents bs v. void_top v \<le> x"
    using bq_top_least [OF assms(1) i(1)] i(3) by (auto simp: void_contents_def)
qed

lemma void_reschedule_ok:
  assumes "pow2_block bs" "void_inv bs v" "\<not> sv_empty v"
  shows "\<exists>v'. void_reschedule_top bs v t = Some v' \<and> void_inv bs v' \<and>
    void_contents bs v' = add_mset t (void_contents bs v - {#void_top v#})"
proof -
  have i: "bq_inv bs (with_unit v)" "\<not> bq_empty (with_unit v)" "fst (bq_top (with_unit v)) = void_top v"
    using assms(2,3) by (simp_all add: void_inv_def bq_empty_def bq_top_def void_top_def)
  obtain q where q: "reschedule_top bs (with_unit v) t = Some q" "bq_inv bs q" "bq_top (with_unit v) \<in># bq_contents bs (with_unit v)"
      "bq_contents bs q = add_mset (t, ()) (bq_contents bs (with_unit v) - {#bq_top (with_unit v)#})"
    using reschedule_top_ok [OF assms(1) i(1,2), of t] by auto
  then show ?thesis
    using void_reschedule_keys [OF q(1)] with_unit_inv [OF q(2)] with_unit_contents [of bs q] i(3)
    by (simp add: void_contents_def image_mset_Diff)
qed

lemma void_empty_iff: "pow2_block bs \<Longrightarrow> void_inv bs v \<Longrightarrow> sv_empty v \<longleftrightarrow> void_contents bs v = {#}"
  using bq_empty_iff [of bs "with_unit v"] by (simp add: void_inv_def bq_empty_def void_contents_def)

lemma void_new_ok:
  "pow2_block bs \<Longrightarrow> void_inv bs (new_skip_vector :: 'a::linorder skip_vector) \<and> void_contents bs (new_skip_vector :: 'a skip_vector) = {#}"
proof -
  let ?q = "new_prio_queue :: ('a, unit) prio_queue"
  assume "pow2_block bs"
  then have "bq_inv bs ?q \<and> bq_contents bs ?q = {#}" by (rule new_prio_queue_ok)
  moreover have "m_storage ?q = new_skip_vector" by (simp add: new_prio_queue_def)
  ultimately show ?thesis using with_unit_inv [of bs ?q] with_unit_contents [of bs ?q] by simp
qed

text \<open>The client loops over keys.\<close>

definition void_add :: "nat \<Rightarrow> 'k::linorder skip_vector \<Rightarrow> 'k \<Rightarrow> 'k skip_vector" where
  "void_add bs v k = the (void_push bs v k)"

definition void_remove :: "nat \<Rightarrow> 'k::linorder skip_vector \<Rightarrow> 'k option \<times> 'k skip_vector" where
  "void_remove bs v = (if sv_empty v then (None, v) else (Some (void_top v), the (void_pop bs v)))"

interpretation vd: pq_total "\<lambda>v. pow2_block bs \<and> void_inv bs v" "void_contents bs" "\<lambda>v k. k" "\<lambda>v k. True" "void_add bs" "void_remove bs"
  for bs :: nat
proof (unfold_locales, goal_cases)
  case (1 v)
  then show ?case using void_empty_iff [of bs v] by (simp add: void_remove_def)
next
  case (2 v)
  then have v: "pow2_block bs" "void_inv bs v" "\<not> sv_empty v" using void_empty_iff [of bs v] by auto
  then show ?case using void_pop_ok [OF v] by (auto simp: void_remove_def)
next
  case (3 v k)
  then show ?case using void_push_ok [of bs v k] by (auto simp: void_add_def)
next
  case (4 v k)
  then show ?case using void_push_ok [of bs v k] by (auto simp: void_add_def)
qed simp_all


section \<open>Growth with throwing copies\<close>

lemma copy_loop_throws:
  assumes p: "pow2_block bs" and "i \<le> s" "s \<le> length ptr" "\<exists>j. i \<le> j \<and> j < s \<and> slot bs j \<and> \<not> ok j"
  shows "\<exists>n ptr'. copy_loop bs ok b s ptr i = Some (Inl (destroy_loop bs ptr' n)) \<and> i \<le> n \<and> n \<le> s \<and> length ptr' = length ptr \<and>
    (\<forall>j < length ptr. j < i \<or> n \<le> j \<longrightarrow> ptr' ! j = ptr ! j) \<and> (\<forall>j < length ptr. \<not> slot bs j \<longrightarrow> ptr' ! j = ptr ! j)"
  using assms(2-)
proof (induction "s - i" arbitrary: i ptr)
  case 0
  then show ?case by auto
next
  case (Suc n)
  then have i: "i < s" by simp
  show ?case
  proof (cases "slot bs i \<and> \<not> ok i")
    case True
    then have "copy_loop bs ok b s ptr i = Some (Inl (destroy_loop bs ptr i))"
      using i by (subst copy_loop.simps) (simp add: mask_mod [OF p] slot_def)
    then show ?thesis using i by (intro exI [of _ i] exI [of _ ptr]) simp
  next
    case False
    let ?ptr = "if slot bs i then ptr[i := b ! i] else ptr"
    have e: "copy_loop bs ok b s ptr i = copy_loop bs ok b s ?ptr (i + 1)"
      using i False by (subst copy_loop.simps) (auto simp: mask_mod [OF p] slot_def)
    have x: "\<exists>j. i + 1 \<le> j \<and> j < s \<and> slot bs j \<and> \<not> ok j"
    proof -
      obtain j where "i \<le> j" "j < s" "slot bs j" "\<not> ok j" using Suc.prems(3) by blast
      moreover from this have "j \<noteq> i" using False by auto
      ultimately show ?thesis by (intro exI [of _ j]) simp
    qed
    have "\<exists>n ptr'. copy_loop bs ok b s ?ptr (i + 1) = Some (Inl (destroy_loop bs ptr' n)) \<and> i + 1 \<le> n \<and> n \<le> s \<and> length ptr' = length ?ptr \<and>
        (\<forall>j < length ?ptr. j < i + 1 \<or> n \<le> j \<longrightarrow> ptr' ! j = ?ptr ! j) \<and> (\<forall>j < length ?ptr. \<not> slot bs j \<longrightarrow> ptr' ! j = ?ptr ! j)"
      using Suc i x by (intro Suc.hyps(1)) auto
    then obtain n ptr' where n: "copy_loop bs ok b s ?ptr (i + 1) = Some (Inl (destroy_loop bs ptr' n))" "i + 1 \<le> n" "n \<le> s"
        "length ptr' = length ?ptr" "\<forall>j < length ?ptr. j < i + 1 \<or> n \<le> j \<longrightarrow> ptr' ! j = ?ptr ! j"
        "\<forall>j < length ?ptr. \<not> slot bs j \<longrightarrow> ptr' ! j = ?ptr ! j" by blast
    show ?thesis
      using n e i by (intro exI [of _ n] exI [of _ ptr']) (auto simp: nth_list_update_if split: if_splits)
  qed
qed

lemma copy_loop_all:
  assumes p: "pow2_block bs" and "i \<le> s" "\<forall>j. i \<le> j \<and> j < s \<and> slot bs j \<longrightarrow> ok j"
  shows "copy_loop bs ok b s ptr i = Some (Inr (move_to_loop bs b s ptr i))"
  using assms(2-)
proof (induction "s - i" arbitrary: i ptr)
  case 0
  then show ?case by (subst copy_loop.simps, subst move_to_loop.simps) simp
next
  case (Suc n)
  then show ?case
    by (subst copy_loop.simps, subst move_to_loop.simps) (auto simp: mask_mod [OF p] slot_def)
qed

text \<open>
  C22. The queue without payloads is a correct priority queue: a push ends, keeps the heap and adds the key;
  on a queue with keys the top is a least key, a pop ends and removes exactly
  that key, and \<open>reschedule_top\<close> ends and replaces it.
\<close>

theorem void_queue_correct:
  assumes "pow2_block bs" "void_inv bs v"
  shows "(\<exists>v'. void_push bs v k = Some v' \<and> void_inv bs v' \<and> void_contents bs v' = add_mset k (void_contents bs v)) \<and>
    (sv_empty v \<or> (\<forall>x \<in># void_contents bs v. void_top v \<le> x) \<and>
      (\<exists>v'. void_pop bs v = Some v' \<and> void_inv bs v' \<and> void_contents bs v = add_mset (void_top v) (void_contents bs v')) \<and>
      (\<exists>v'. void_reschedule_top bs v k = Some v' \<and> void_inv bs v' \<and>
        void_contents bs v' = add_mset k (void_contents bs v - {#void_top v#})))"
  using void_push_ok [OF assms] void_pop_ok [OF assms] void_reschedule_ok [OF assms] by blast

definition demo_keys :: "nat skip_vector" where
  "demo_keys = fill (void_add 8) [5, 3, 4] new_skip_vector"

lemma demo_keys_ok: "void_inv 8 demo_keys"
  using vd.fill_any [of 8 new_skip_vector "[5, 3, 4 :: nat]"] void_new_ok [OF pow2_block_8, where 'a = nat] pow2_block_8 by (simp add: demo_keys_def)

theorem void_queue_correct_witness:
  "(\<exists>v'. void_push 8 demo_keys 1 = Some v' \<and> void_inv 8 v' \<and> void_contents 8 v' = add_mset 1 (void_contents 8 demo_keys)) \<and>
    (sv_empty demo_keys \<or> set_mset (void_contents 8 demo_keys) \<subseteq> {x. void_top demo_keys \<le> x} \<and>
      (\<exists>v'. void_pop 8 demo_keys = Some v' \<and> void_inv 8 v' \<and>
        void_contents 8 demo_keys = add_mset (void_top demo_keys) (void_contents 8 v')))"
  using void_queue_correct [OF pow2_block_8 demo_keys_ok, of 1] by blast

text \<open>The vector of a memory, and the addresses for which the allocator may be asked.\<close>

definition vm_vector :: "'a vector_mem \<Rightarrow> 'a skip_vector" where
  "vm_vector m = \<lparr>m_ptr = vm_cells m (vm_ptr m), m_end = vm_end m\<rparr>"

definition vm_full :: "nat \<Rightarrow> nat \<Rightarrow> 'a vector_mem \<Rightarrow> bool" where
  "vm_full bs ptr m \<longleftrightarrow> sv_ok bs (vm_vector m) \<and> vm_storage_size m = length (vm_cells m (vm_ptr m)) \<and> vm_end m = vm_storage_size m \<and>
     vm_blocks m ptr = None \<and> ptr \<noteq> vm_ptr m"

lemma vm_cells_store [simp]: "vm_cells (vm_store m p c) q = (if q = p then c else vm_cells m q)"
  by (simp add: vm_cells_def vm_store_def)

lemma vm_cells_fields [simp]:
  "vm_cells (m\<lparr>vm_ptr := a\<rparr>) q = vm_cells m q" "vm_cells (m\<lparr>vm_storage_size := n\<rparr>) q = vm_cells m q" "vm_cells (m\<lparr>vm_end := n\<rparr>) q = vm_cells m q"
  by (simp_all add: vm_cells_def)

lemma vm_deallocate_frame [simp]:
  "vm_ptr (vm_deallocate m p n) = vm_ptr m" "vm_storage_size (vm_deallocate m p n) = vm_storage_size m" "vm_end (vm_deallocate m p n) = vm_end m"
  "vm_frees (vm_deallocate m p n) = vm_frees m @ [(p, vm_cells m p, n)]" "vm_blocks (vm_deallocate m p n) = (vm_blocks m)(p := None)"
  "vm_cells (vm_deallocate m p n) q = (if q = p then [] else vm_cells m q)"
  by (simp_all add: vm_deallocate_def vm_cells_def)

lemma vm_store_frame [simp]:
  "vm_ptr (vm_store m p c) = vm_ptr m" "vm_storage_size (vm_store m p c) = vm_storage_size m" "vm_end (vm_store m p c) = vm_end m"
  "vm_frees (vm_store m p c) = vm_frees m" "vm_blocks (vm_store m p c) = (vm_blocks m)(p \<mapsto> c)"
  by (simp_all add: vm_store_def)

lemma vm_store_again [simp]: "vm_store (vm_store m p c) p d = vm_store m p d"
  by (simp add: vm_store_def)

lemma vm_store_same: "vm_cells m q \<noteq> [] \<Longrightarrow> vm_store m q (vm_cells m q) = m"
  by (auto simp: vm_store_def vm_cells_def fun_upd_idem split: option.splits)

lemma vm_free_new:
  "vm_blocks m p = None \<Longrightarrow> vm_deallocate (vm_store m p c) p n = m\<lparr>vm_frees := vm_frees m @ [(p, c, n)]\<rparr>"
  by (simp add: vm_deallocate_def vm_store_def vm_cells_def fun_upd_idem)

lemma copy_thrown_cells:
  assumes p: "pow2_block bs" and s: "s \<le> length ptr" "\<exists>j < s. slot bs j \<and> \<not> ok j"
    and ptr: "\<forall>j < length ptr. ptr ! j = (if j = k then Some u else None)" and k: "s < k"
  shows "\<exists>to. move_to_copy bs ok b s ptr = Some (False, to, b) \<and> length to = length ptr \<and> set (to[k := None]) \<subseteq> {None}"
proof -
  from s(2) obtain j where j: "j < s" "slot bs j" "\<not> ok j" by blast
  have "j \<noteq> 0" using j(2) by (metis mod_0 slot_def)
  then have "\<exists>j. 1 \<le> j \<and> j < s \<and> slot bs j \<and> \<not> ok j" "1 \<le> s" using j by (auto intro!: exI [of _ j])
  from copy_loop_throws [OF p this(2) s(1) this(1)]
  obtain n ptr' where n: "copy_loop bs ok b s ptr 1 = Some (Inl (destroy_loop bs ptr' n))" "n \<le> s"
      "length ptr' = length ptr" "\<forall>j < length ptr. j < 1 \<or> n \<le> j \<longrightarrow> ptr' ! j = ptr ! j" "\<forall>j < length ptr. \<not> slot bs j \<longrightarrow> ptr' ! j = ptr ! j"
    by blast
  let ?to = "destroy_loop bs ptr' n"
  have d: "length ?to = length ptr" "\<forall>i < length ptr. ?to ! i = (if i < n \<and> slot bs i then None else ptr' ! i)"
    using destroy_loop_nth [OF p, of n ptr'] n(2,3) s(1) by auto
  have "?to[k := None] ! i = None" if "i < length ptr" for i
    using that d n(2,4,5) ptr k by (cases "i < n"; cases "i = k") (auto simp: nth_list_update_if)
  then have "set (?to[k := None]) \<subseteq> {None}" using d(1) by (auto simp: in_set_conv_nth)
  then show ?thesis using n(1) d(1) by (simp add: move_to_copy_def)
qed

lemma grow_copy_thrown:
  assumes p: "pow2_block bs" and f: "vm_full bs ptr m" and t: "\<not> ok_u \<or> (\<exists>j < vm_end m. slot bs j \<and> \<not> ok j)"
  shows "\<exists>blk. grow_copy bs ok ok_u ptr m u = Some (None, m\<lparr>vm_frees := vm_frees m @ [(ptr, blk, vm_storage_size m)]\<rparr>) \<and> set blk \<subseteq> {None} \<and>
    vm_storage_size m < length blk"
proof -
  define D where "D = (if vm_storage_size m \<noteq> 0 then vm_storage_size m * 2 else bs * 16)"
  have D: "vm_storage_size m < D" using pow2_gt1 [OF p] by (simp add: D_def)
  note f = f [unfolded vm_full_def]
  show ?thesis
  proof (cases ok_u)
    case False
    then show ?thesis using D f
      by (intro exI [of _ "replicate D None"]) (auto simp: grow_copy_def D_def Let_def grow_catch_def vm_free_new)
  next
    case True
    then have j: "\<exists>j < vm_end m. slot bs j \<and> \<not> ok j" using t by blast
    then have s: "vm_storage_size m \<noteq> 0" "vm_cells m (vm_ptr m) \<noteq> []" using f by auto
    have "1 < vm_end m" using j by (metis gr_implies_not0 less_one linorder_neqE_nat mod_0 not_less_eq slot_def One_nat_def)
    then have idx: "vm_end m + 1 < D" using f s by (simp add: D_def)
    let ?ptr = "(replicate D None)[vm_end m + 1 := Some u]"
    have "\<exists>to. move_to_copy bs ok (vm_cells m (vm_ptr m)) (vm_end m) ?ptr = Some (False, to, vm_cells m (vm_ptr m)) \<and>
        length to = length ?ptr \<and> set (to[vm_end m + 1 := None]) \<subseteq> {None}"
      using idx by (intro copy_thrown_cells [OF p _ j]) (auto simp: nth_list_update)
    then obtain to where to: "move_to_copy bs ok (vm_cells m (vm_ptr m)) (vm_end m) ?ptr = Some (False, to, vm_cells m (vm_ptr m))"
        "length to = D" "set (to[vm_end m + 1 := None]) \<subseteq> {None}" by auto
    have D2: "vm_storage_size m * 2 = D" using s(1) by (simp add: D_def)
    have same: "vm_store (vm_store m ptr to) (vm_ptr m) (vm_cells m (vm_ptr m)) = vm_store m ptr to"
      using vm_store_same [of "vm_store m ptr to" "vm_ptr m"] f s(2) by auto
    have "grow_copy bs ok ok_u ptr m u = Some (None, m\<lparr>vm_frees := vm_frees m @ [(ptr, to[vm_end m + 1 := None], vm_storage_size m)]\<rparr>)"
    proof -
      have "ptr \<noteq> vm_ptr m" "vm_blocks m ptr = None" using f by auto
      then show ?thesis using True s(1) to(1) by (simp add: grow_copy_def D2 Let_def grow_catch_def same vm_free_new)
    qed
    then show ?thesis using to(2,3) D by (metis length_list_update)
  qed
qed

lemma grow_copy_grown:
  assumes p: "pow2_block bs" and f: "vm_full bs ptr m" and t: "ok_u" "\<forall>j < vm_end m. slot bs j \<longrightarrow> ok j"
  shows "\<exists>m' old. grow_copy bs ok ok_u ptr m u = Some (Some (vm_end m + 1), m') \<and> vm_vector m' = snd (grow bs (vm_vector m) u) \<and>
    vm_ptr m' = ptr \<and> vm_storage_size m' = length (m_ptr (vm_vector m')) \<and> (\<forall>q. q \<noteq> ptr \<and> q \<noteq> vm_ptr m \<longrightarrow> vm_blocks m' q = vm_blocks m q) \<and>
    (if vm_storage_size m = 0 then vm_frees m' = vm_frees m
     else vm_blocks m' (vm_ptr m) = None \<and> vm_frees m' = vm_frees m @ [(vm_ptr m, old, length old)] \<and> set old \<subseteq> {None})"
proof (cases "vm_storage_size m = 0")
  case True
  then show ?thesis using t f
    by (auto simp: grow_copy_def grow_def Let_def grow_assign_def vm_vector_def m_storage_size_def vm_full_def)
next
  case False
  note f' = f [unfolded vm_full_def]
  let ?b = "vm_cells m (vm_ptr m)"
  have c: "move_to_copy bs ok ?b (vm_end m) to = Some (True, move_to bs ?b (vm_end m) to, destroy_loop bs ?b (vm_end m))" for to
    using t(2) f' False copy_loop_all [OF p, of 1 "vm_end m" ok ?b to] by (auto simp: move_to_def move_to_copy_def Suc_le_eq)
  let ?old = "destroy_loop bs ?b (vm_end m)" and ?n = "vm_storage_size m"
  have ne: "ptr \<noteq> vm_ptr m" "vm_end m = ?n" "?n = length ?b" using f' by auto
  have old: "set ?old \<subseteq> {None}" "length ?old = ?n"
    using sv_destroy_cells [OF p, of "vm_vector m"] destroy_loop_nth [OF p, of "vm_end m" ?b] f' by (auto simp: sv_destroy_def vm_vector_def)
  define to where "to = move_to bs ?b (vm_end m) ((replicate (?n * 2) None)[vm_end m + 1 := Some u])"
  have to: "length to = ?n * 2"
    using move_to_loop_nth [OF p, of "vm_end m" "(replicate (?n * 2) None)[vm_end m + 1 := Some u]"] ne(2) by (simp add: move_to_def to_def)
  define m' where "m' = snd (grow_assign ptr (?n * 2) (vm_end m + 1) (vm_deallocate (vm_store (vm_store m ptr to) (vm_ptr m) ?old) (vm_ptr m) ?n))"
  have g: "grow_copy bs ok ok_u ptr m u = Some (Some (vm_end m + 1), m')"
    using t(1) False ne(1) by (simp add: grow_copy_def Let_def c m'_def to_def grow_assign_def)
  have v: "vm_vector m' = snd (grow bs (vm_vector m) u)"
    using ne False by (simp add: m'_def grow_assign_def vm_vector_def grow_def Let_def m_storage_size_def to_def)
  have "vm_ptr m' = ptr" "vm_storage_size m' = length (m_ptr (vm_vector m'))" "vm_blocks m' (vm_ptr m) = None"
      "\<forall>q. q \<noteq> ptr \<and> q \<noteq> vm_ptr m \<longrightarrow> vm_blocks m' q = vm_blocks m q" "vm_frees m' = vm_frees m @ [(vm_ptr m, ?old, ?n)]"
    using ne(1) to by (simp_all add: m'_def grow_assign_def vm_vector_def)
  then show ?thesis using g v old False by metis
qed

text \<open>
  C23. A full vector of copied elements grows as one of moved elements does: the new block holds the elements and the new one, the old
  block is given back with its own size and without objects, and no other block is touched. When a constructor throws, whether of the
  new element or of a copy, the whole memory is as before the call (the fields of the vector, the objects of its block, every other
  block) and the new block has been given back without objects. It is given back with the size of the old block, though, which is
  smaller than its own.
\<close>

theorem grow_copy_safe:
  assumes "pow2_block bs" "vm_full bs ptr m"
  shows "if ok_u \<and> (\<forall>j < vm_end m. slot bs j \<longrightarrow> ok j)
    then \<exists>m' old. grow_copy bs ok ok_u ptr m u = Some (Some (vm_end m + 1), m') \<and> vm_vector m' = snd (grow bs (vm_vector m) u) \<and>
      vm_ptr m' = ptr \<and> vm_storage_size m' = length (m_ptr (vm_vector m')) \<and> (\<forall>q. q \<noteq> ptr \<and> q \<noteq> vm_ptr m \<longrightarrow> vm_blocks m' q = vm_blocks m q) \<and>
      (if vm_storage_size m = 0 then vm_frees m' = vm_frees m
       else vm_blocks m' (vm_ptr m) = None \<and> vm_frees m' = vm_frees m @ [(vm_ptr m, old, length old)] \<and> set old \<subseteq> {None})
    else \<exists>blk. grow_copy bs ok ok_u ptr m u = Some (None, m\<lparr>vm_frees := vm_frees m @ [(ptr, blk, vm_storage_size m)]\<rparr>) \<and>
      set blk \<subseteq> {None} \<and> vm_storage_size m < length blk"
  using grow_copy_grown [OF assms, of ok_u ok u] grow_copy_thrown [OF assms, of ok_u ok u] by auto

definition full_vector :: "nat vector_mem" where
  "full_vector = \<lparr>vm_ptr = 100, vm_storage_size = 4, vm_end = 4, vm_blocks = [100 \<mapsto> [None, Some 7, None, Some 8]], vm_frees = []\<rparr>"

theorem grow_copy_safe_witness:
  "\<exists>blk. grow_copy 2 (\<lambda>i. i < 3) True 200 full_vector 9 = Some (None, full_vector\<lparr>vm_frees := [(200, blk, 4)]\<rparr>) \<and> set blk \<subseteq> {None} \<and> 4 < length blk"
proof -
  have "pow2_block 2" unfolding pow2_block_def by (rule exI [of _ 0]) simp
  moreover have "m_ptr (vm_vector full_vector) ! i \<noteq> None \<longleftrightarrow> slot 2 i" if "i < 4" for i
  proof -
    from that consider "i = 0" | "i = 1" | "i = 2" | "i = 3" by linarith
    then show ?thesis by cases (simp_all add: full_vector_def vm_vector_def vm_cells_def slot_def)
  qed
  then have "sv_ok 2 (vm_vector full_vector)" by (simp add: sv_ok_def full_vector_def vm_vector_def vm_cells_def)
  then have "vm_full 2 200 full_vector" by (simp add: vm_full_def) (simp add: full_vector_def vm_cells_def)
  moreover have t: "\<not> (True \<and> (\<forall>j < vm_end full_vector. slot 2 j \<longrightarrow> j < 3))"
    by (auto simp: full_vector_def slot_def intro!: exI [of _ 3])
  moreover have "vm_storage_size full_vector = 4" "vm_frees full_vector = []" by (simp_all add: full_vector_def)
  ultimately show ?thesis using grow_copy_safe [of 2 200 full_vector True "\<lambda>i. i < 3" 9, unfolded if_not_P [OF t]] by (metis append_Nil)
qed

text \<open>A moved-from vector keeps its end: it owns no storage but reports its former size.\<close>

lemma moved_from_size: "snd (move_skip_vector v) = v' \<Longrightarrow> sv_size v' = sv_size v \<and> m_ptr v' = []"
  by (auto simp: move_skip_vector_def sv_size_def)

end
