(* ===== verification/OpenDict.thy ===== *)
theory OpenDict
  imports Prelude
begin

text \<open>
  The clustered hash table of \<open>dict/OpenDict.{h,cc}\<close>, operation by operation: the table of
  \<open>DictEntry\<close>s with their 16-bit distances, lookup over all table sizes whose remapping is not
  finished, insertion and removal with relocation of clusters, growth and incremental remapping,
  the insertion order, and iteration with plain and robust cookies.

  Conventions. The table is the list of its slots, the empty list being the null pointer.
  Positions, \<open>log2_buckets\<close> and \<open>remaps\<close> are natural numbers (the code keeps them in \<open>int\<close> and
  \<open>unsigned char\<close>, exact as long as the table fits into memory: at most \<open>2\<^sup>3\<^sup>0\<close> buckets); distances,
  key sizes, hashes and counters of iterators are words of their width. Keys are byte lists owned by
  their entry, so \<open>copy_key\<close> and the release of key memory do not appear. Fields of an empty slot other
  than \<open>distance\<close> are never read. The \<open>ASSERT\<close>s on the arguments of \<open>Insert\<close> and \<open>Remove\<close> are error
  values (the caller can violate them); the \<open>ASSERT\<close>s on internal positions are passed over, as in a
  release build.
\<close>

section \<open>Entries\<close>

definition HASH_MASK :: uint64 where
  "HASH_MASK = 0xFFFFFFFF"

definition DICT_REMAP_ENTRIES :: nat where
  "DICT_REMAP_ENTRIES = 16"

definition DICT_LOAD_FACTOR_BITS :: nat where
  "DICT_LOAD_FACTOR_BITS = 2"

definition DICT_THRESHOLD_BITS :: nat where
  "DICT_THRESHOLD_BITS = 3"

definition TOO_FAR_TO_REACH :: uint16 where
  "TOO_FAR_TO_REACH = 0xFFFF"

record DictEntry =
  de_distance :: uint16
  de_key_size :: uint16
  de_hash :: uint32
  de_value :: ptr
  de_key :: "byte list"

definition new_DictEntry :: "byte list \<Rightarrow> uint64 \<Rightarrow> ptr \<Rightarrow> int \<Rightarrow> DictEntry" where
  "new_DictEntry arg_key hash v d =
     \<lparr>de_distance = of_int d, de_key_size = of_nat (length arg_key), de_hash = ucast hash,
      de_value = v, de_key = arg_key\<rparr>"

definition Empty :: "DictEntry \<Rightarrow> bool" where
  "Empty e \<longleftrightarrow> de_distance e = TOO_FAR_TO_REACH"

definition SetEmpty :: "DictEntry \<Rightarrow> DictEntry" where
  "SetEmpty e = e\<lparr>de_distance := TOO_FAR_TO_REACH\<rparr>"

text \<open>A slot of freshly allocated memory after \<open>SetEmpty\<close>.\<close>

definition fresh_slot :: DictEntry where
  "fresh_slot = SetEmpty \<lparr>de_distance = 0, de_key_size = 0, de_hash = 0, de_value = 0, de_key = []\<rparr>"

definition Equal :: "DictEntry \<Rightarrow> byte list \<Rightarrow> uint64 \<Rightarrow> bool" where
  "Equal e arg_key arg_hash \<longleftrightarrow>
     (ucast (de_hash e) XOR arg_hash) AND HASH_MASK = 0 \<and>
     unat (de_key_size e) = length arg_key \<and>
     take (unat (de_key_size e)) (de_key e) = take (unat (de_key_size e)) arg_key"

definition same_key :: "DictEntry \<Rightarrow> DictEntry \<Rightarrow> bool" where
  "same_key e r \<longleftrightarrow> Equal e (take (unat (de_key_size r)) (de_key r)) (ucast (de_hash r))"

section \<open>Dictionaries and cookies\<close>

record IterCookie =
  robust :: bool
  c_next :: int
  inserted :: "DictEntry list"
  visited :: "DictEntry list"

definition new_IterCookie :: IterCookie where
  "new_IterCookie = \<lparr>robust = False, c_next = -1, inserted = [], visited = []\<rparr>"

text \<open>
  \<open>cookies\<close> is the vector of the robust cookies (\<open>None\<close>: not allocated), \<open>cookie_store\<close> the
  heap cells of all cookies of this dictionary, addressed by their allocation number.
\<close>

record Dictionary =
  remaps :: nat
  log2_buckets :: nat
  num_iterators :: uint16
  remap_end :: int
  num_entries :: int
  max_entries :: int
  cum_entries :: uint64
  delete_func :: ptr
  table :: "DictEntry list"
  cookies :: "nat list option"
  order :: "DictEntry list option"
  cookie_store :: "nat \<Rightarrow> IterCookie option"
  fresh_cookie :: nat

datatype dict_order = ORDERED | UNORDERED

datatype dict_error = AssertFailed | UndefinedBehaviour

section \<open>Bucket arithmetic\<close>

function Log2_loop :: "nat \<Rightarrow> nat \<Rightarrow> nat" where
  "Log2_loop num i = (if num div 2 = 0 then i else Log2_loop (num div 2) (i + 1))"
  by pat_completeness auto
termination
  by (relation "measure fst") auto

declare Log2_loop.simps [simp del]

definition Log2 :: "nat \<Rightarrow> nat" where
  "Log2 num = Log2_loop num 0"

definition Buckets :: "Dictionary \<Rightarrow> bool \<Rightarrow> nat" where
  "Buckets d expected =
     (let buckets = 2 ^ log2_buckets d
      in if expected then buckets else if table d \<noteq> [] then buckets else 0)"

definition Capacity :: "Dictionary \<Rightarrow> bool \<Rightarrow> nat" where
  "Capacity d expected =
     (let capacity = 2 ^ log2_buckets d + log2_buckets d
      in if expected then capacity else if table d \<noteq> [] then capacity else 0)"

abbreviation cap :: "Dictionary \<Rightarrow> nat" where
  "cap d \<equiv> Capacity d False"

definition ThresholdEntries :: "Dictionary \<Rightarrow> nat" where
  "ThresholdEntries d =
     (let capacity = cap d
      in if log2_buckets d \<le> DICT_THRESHOLD_BITS then capacity
         else capacity - drop_bit DICT_LOAD_FACTOR_BITS capacity)"

definition FibHash :: "uint64 \<Rightarrow> uint64" where
  "FibHash h = (h AND HASH_MASK) * 11400714819323198485"

definition BucketByHash :: "uint64 \<Rightarrow> nat \<Rightarrow> nat" where
  "BucketByHash h log2_table_size =
     (if log2_table_size = 0 then 0
      else let m = 64 - log2_table_size; hash = FibHash h
           in unat (drop_bit m (push_bit m hash)))"

definition BucketByPosition :: "Dictionary \<Rightarrow> nat \<Rightarrow> int" where
  "BucketByPosition d position = int position - int (unat (de_distance (table d ! position)))"

section \<open>Cluster arithmetic\<close>

function head_loop :: "Dictionary \<Rightarrow> int \<Rightarrow> nat \<Rightarrow> int" where
  "head_loop d bucket i =
     (if int i < int (cap d) \<and> \<not> Empty (table d ! i) \<and> BucketByPosition d i < bucket
      then if BucketByPosition d i = bucket then int i else head_loop d bucket (i + 1)
      else -1)"
  by pat_completeness auto
termination
  by (relation "measure (\<lambda>(d, bucket, i). cap d - i)") auto

declare head_loop.simps [simp del]

definition HeadOfClusterByBucket :: "Dictionary \<Rightarrow> nat \<Rightarrow> int" where
  "HeadOfClusterByBucket d bucket = head_loop d (int bucket) bucket"

definition EndOfClusterByBucket :: "Dictionary \<Rightarrow> nat \<Rightarrow> nat" where
  "EndOfClusterByBucket d bucket =
     scan (\<lambda>i. \<not> Empty (table d ! i) \<and> BucketByPosition d i \<le> int bucket) (cap d) bucket"

definition TailOfClusterByBucket :: "Dictionary \<Rightarrow> nat \<Rightarrow> int" where
  "TailOfClusterByBucket d bucket =
     (let end = int (EndOfClusterByBucket d bucket)
      in if end - 1 \<ge> 0 \<and> \<not> Empty (table d ! nat (end - 1)) \<and> BucketByPosition d (nat (end - 1)) = int bucket
         then end - 1 else -1)"

function back_loop :: "Dictionary \<Rightarrow> int \<Rightarrow> int \<Rightarrow> int" where
  "back_loop d bucket i =
     (if i \<ge> bucket \<and> BucketByPosition d (nat i) = bucket then back_loop d bucket (i - 1) else i)"
  by pat_completeness auto
termination
  by (relation "measure (\<lambda>(d, bucket, i). nat (i - bucket + 1))") auto

declare back_loop.simps [simp del]

definition HeadOfClusterByPosition :: "Dictionary \<Rightarrow> nat \<Rightarrow> int" where
  "HeadOfClusterByPosition d position =
     (let bucket = BucketByPosition d position;
          i = back_loop d bucket (int position)
      in if i = bucket then i else i + 1)"

definition TailOfClusterByPosition :: "Dictionary \<Rightarrow> nat \<Rightarrow> int" where
  "TailOfClusterByPosition d position =
     (let bucket = BucketByPosition d position;
          i = scan (\<lambda>i. \<not> Empty (table d ! i) \<and> BucketByPosition d i = bucket) (cap d) position
      in int i - 1)"

definition EndOfClusterByPosition :: "Dictionary \<Rightarrow> nat \<Rightarrow> int" where
  "EndOfClusterByPosition d position = TailOfClusterByPosition d position + 1"

definition OffsetInClusterByPosition :: "Dictionary \<Rightarrow> nat \<Rightarrow> int" where
  "OffsetInClusterByPosition d position = int position - HeadOfClusterByPosition d position"

definition Next :: "Dictionary \<Rightarrow> int \<Rightarrow> int" where
  "Next d position = int (scan (\<lambda>i. Empty (table d ! i)) (cap d) (nat (position + 1)))"

section \<open>Validation and statistics\<close>

text \<open>
  \<open>AssertValid\<close> of the debug build: whether all its assertions hold. The field \<open>bucket\<close>, which
  only that build has, is the bucket an entry was placed for, its position less its distance.
\<close>

definition AssertValid :: "Dictionary \<Rightarrow> bool" where
  "AssertValid d \<longleftrightarrow>
     fold (\<lambda>i n. if \<not> Empty (table d ! i) then n - 1 else n) (rev [0..<cap d]) (num_entries d) = 0 \<and>
     (\<forall>i \<in> set [1..<cap d].
        Empty (table d ! i) \<or>
        (if Empty (table d ! (i - 1)) then de_distance (table d ! i) = 0
         else BucketByPosition d i \<ge> BucketByPosition d (i - 1) \<and>
              (if BucketByPosition d i = BucketByPosition d (i - 1)
               then unat (de_distance (table d ! i)) = unat (de_distance (table d ! (i - 1))) + 1
               else unat (de_distance (table d ! i)) \<le> unat (de_distance (table d ! (i - 1))))))"


definition pad_size :: "nat \<Rightarrow> nat" where
  "pad_size n = (if n = 0 then 0 else if n < 12 then 2 * 8 else ((n + 3) div 8 + 1) * 8)"

text \<open>
  The sizes in bytes of the three classes and the capacity of the order vector are those of the
  platform: they are arguments.
\<close>

definition MemoryAllocation :: "nat \<Rightarrow> nat \<Rightarrow> nat \<Rightarrow> nat \<Rightarrow> Dictionary \<Rightarrow> nat" where
  "MemoryAllocation size_Dictionary size_DictEntry size_vector order_capacity d =
     pad_size size_Dictionary +
     (if table d \<noteq> []
      then pad_size (cap d * size_DictEntry) +
           sum_list (map (\<lambda>e. if \<not> Empty e \<and> unat (de_key_size e) > 8 then pad_size (unat (de_key_size e)) else 0)
             (rev (table d)))
      else 0) +
     (if order d \<noteq> None then pad_size size_vector + pad_size (size_DictEntry * order_capacity) else 0)"

text \<open>\<open>DistanceStats\<close>: the greatest distance, and the histogram when one is asked for.\<close>

definition distance_step :: "nat \<Rightarrow> nat \<times> nat list \<Rightarrow> DictEntry \<Rightarrow> nat \<times> nat list" where
  "distance_step num_distances s e =
     (case s of (max_distance, distances) \<Rightarrow>
       if Empty e then s
       else
         let dist = unat (de_distance e);
             max_distance = (if dist > max_distance then dist else max_distance)
         in if num_distances = 0 then (max_distance, distances)
            else if dist \<ge> num_distances - 1
                 then (max_distance, distances[num_distances - 1 := distances ! (num_distances - 1) + 1])
                 else (max_distance, distances[dist := distances ! dist + 1]))"

definition DistanceStats :: "Dictionary \<Rightarrow> nat \<Rightarrow> nat \<times> nat list" where
  "DistanceStats d num_distances =
     foldl (distance_step num_distances) (0, replicate num_distances 0) (take (cap d) (table d))"

section \<open>Construction\<close>

definition Init :: "Dictionary \<Rightarrow> Dictionary" where
  "Init d = d\<lparr>table := replicate (Capacity d True) fresh_slot\<rparr>"

definition new_Dictionary :: "dict_order \<Rightarrow> int \<Rightarrow> Dictionary" where
  "new_Dictionary arg_order initial_size =
     (let d = \<lparr>remaps = 0, log2_buckets = 0, num_iterators = 0, remap_end = -1, num_entries = 0,
               max_entries = 0, cum_entries = 0, delete_func = NULL, table = [], cookies = None,
               order = None, cookie_store = Map.empty, fresh_cookie = 0\<rparr>;
          d = (if initial_size > 0 then Init (d\<lparr>log2_buckets := Log2 (nat initial_size)\<rparr>) else d)
      in if arg_order = ORDERED then d\<lparr>order := Some []\<rparr> else d)"

text \<open>\<open>Clear\<close> also lists the values it hands to \<open>delete_func\<close>, from the last slot to the first.\<close>

definition Clear :: "Dictionary \<Rightarrow> ptr list \<times> Dictionary" where
  "Clear d =
     (if delete_func d \<noteq> NULL then map de_value (filter (\<lambda>e. \<not> Empty e) (rev (table d))) else [],
      d\<lparr>table := [], order := None, cookies := None, log2_buckets := 0, num_iterators := 0,
        remaps := 0, remap_end := -1, num_entries := 0, max_entries := 0\<rparr>)"

definition SetDeleteFunc :: "Dictionary \<Rightarrow> ptr \<Rightarrow> Dictionary" where
  "SetDeleteFunc d f = d\<lparr>delete_func := f\<rparr>"

section \<open>Relocation\<close>

definition SizeUp :: "Dictionary \<Rightarrow> Dictionary" where
  "SizeUp d =
     (let prev_capacity = cap d;
          d = d\<lparr>log2_buckets := log2_buckets d + 1\<rparr>;
          capacity = cap d;
          d = d\<lparr>table := table d @ replicate (capacity - prev_capacity) fresh_slot\<rparr>;
          d = d\<lparr>remap_end := int prev_capacity\<rparr>
      in d\<lparr>remaps := remaps d + 1\<rparr>)"

definition set_slot :: "Dictionary \<Rightarrow> nat \<Rightarrow> DictEntry \<Rightarrow> Dictionary" where
  "set_slot d i e = d\<lparr>table := (table d)[i := e]\<rparr>"

lemma cap_set_slot [simp]: "cap (set_slot d i e) = cap d"
  by (simp add: Capacity_def set_slot_def)

text \<open>
  \<open>InsertAndRelocate\<close> changes its argument \<open>entry\<close>, passed by reference: the result is the
  dictionary, what \<open>entry\<close> holds at the return, and \<open>last_affected_position\<close>.
\<close>

function InsertAndRelocate :: "Dictionary \<Rightarrow> DictEntry \<Rightarrow> nat \<Rightarrow> Dictionary \<times> DictEntry \<times> nat" where
  "InsertAndRelocate d entry insert_position =
     (if insert_position \<ge> cap d
      then (set_slot (SizeUp d) insert_position entry, entry, insert_position)
      else if Empty (table d ! insert_position)
      then (set_slot d insert_position entry, entry, insert_position)
      else
        let t = table d ! insert_position;
            nxt = nat (EndOfClusterByPosition d insert_position);
            t = t\<lparr>de_distance := de_distance t + of_int (int nxt - int insert_position)\<rparr>
        in InsertAndRelocate (set_slot d insert_position entry) t nxt)"
  by pat_completeness auto
termination
proof (relation "measure (\<lambda>(d, entry, i). cap d - i)", goal_cases)
  case (2 d entry i t n x)
  then have "Suc i \<le> n"
    by (auto simp: EndOfClusterByPosition_def TailOfClusterByPosition_def Let_def intro!: scan_step)
  with 2 show ?case by auto
qed simp

declare InsertAndRelocate.simps [simp del]

text \<open>
  The loop of \<open>RemoveAndRelocate\<close> closes the hole at \<open>position\<close>; the code stops at
  \<open>position == Capacity() - 1\<close>, the last position there is.
\<close>

function remove_loop :: "Dictionary \<Rightarrow> nat \<Rightarrow> Dictionary \<times> nat" where
  "remove_loop d position =
     (if position + 1 \<ge> cap d \<or> Empty (table d ! (position + 1)) \<or> de_distance (table d ! (position + 1)) = 0
      then (set_slot d position (SetEmpty (table d ! position)), position)
      else
        let nxt = nat (TailOfClusterByPosition d (position + 1));
            e = table d ! nxt;
            e = e\<lparr>de_distance := de_distance e - of_int (int nxt - int position)\<rparr>
        in remove_loop (set_slot d position e) nxt)"
  by pat_completeness auto
termination
proof (relation "measure (\<lambda>(d, i). cap d - i)", goal_cases)
  case (2 d i n e x)
  let ?P = "\<lambda>k. \<not> Empty (table d ! k) \<and> BucketByPosition d k = BucketByPosition d (i + 1)"
  from 2(1) have "Suc (i + 1) \<le> scan ?P (cap d) (i + 1)" by (intro scan_step) auto
  with 2(2) have "i < n" by (simp add: TailOfClusterByPosition_def Let_def)
  with 2 show ?case by auto
qed simp

declare remove_loop.simps [simp del]

definition RemoveAndRelocate :: "Dictionary \<Rightarrow> nat \<Rightarrow> DictEntry \<times> Dictionary \<times> nat" where
  "RemoveAndRelocate d position =
     (let entry = table d ! position; (d, last) = remove_loop d position in (entry, d, last))"

section \<open>Remapping\<close>

text \<open>\<open>Remap(position, &new_position)\<close>: whether the entry moved, and where to.\<close>

definition RemapAt :: "Dictionary \<Rightarrow> nat \<Rightarrow> nat option \<times> Dictionary" where
  "RemapAt d position =
     (let current = BucketByPosition d position;
          expected = BucketByHash (ucast (de_hash (table d ! position))) (log2_buckets d)
      in if current = int expected then (None, d)
         else
           let (entry, d, _) = RemoveAndRelocate d position;
               insert_position = EndOfClusterByBucket d expected;
               entry = entry\<lparr>de_distance := of_int (int insert_position - int expected)\<rparr>;
               (d, _, _) = InsertAndRelocate d entry insert_position
           in (Some insert_position, d))"

function remap_loop :: "Dictionary \<Rightarrow> nat \<Rightarrow> Dictionary" where
  "remap_loop d left =
     (if remap_end d \<ge> 0 \<and> left > 0
      then
        let r = (if \<not> Empty (table d ! nat (remap_end d)) then RemapAt d (nat (remap_end d)) else (None, d))
        in if fst r \<noteq> None then remap_loop (snd r) (left - 1)
           else remap_loop (d\<lparr>remap_end := remap_end d - 1\<rparr>) left
      else d)"
  by pat_completeness auto
termination
  by (relation "measures [\<lambda>(d, left). left, \<lambda>(d, left). nat (remap_end d + 1)]") auto

declare remap_loop.simps [simp del]

definition Remapping :: "Dictionary \<Rightarrow> bool" where
  "Remapping d \<longleftrightarrow> remap_end d \<ge> 0"

definition Remap :: "Dictionary \<Rightarrow> Dictionary" where
  "Remap d =
     (if num_iterators d \<noteq> 0 then d
      else
        let d = remap_loop d DICT_REMAP_ENTRIES
        in if remap_end d < 0 then d\<lparr>remaps := 0\<rparr> else d)"

section \<open>Lookup\<close>

definition LinearLookupIndex :: "Dictionary \<Rightarrow> byte list \<Rightarrow> uint64 \<Rightarrow> int" where
  "LinearLookupIndex d key hash =
     (let i = scan (\<lambda>i. \<not> (\<not> Empty (table d ! i) \<and> Equal (table d ! i) key hash)) (cap d) 0
      in if i < cap d then int i else -1)"

text \<open>
  The search of one cluster: the position found, or none together with the position at which the
  search ended (\<open>insert_position\<close>; \<open>insert_distance\<close> is its distance from \<open>bucket\<close>).
\<close>

function lookup_loop :: "Dictionary \<Rightarrow> byte list \<Rightarrow> uint64 \<Rightarrow> nat \<Rightarrow> nat \<Rightarrow> nat \<Rightarrow> nat option \<times> nat" where
  "lookup_loop d key hash bucket end i =
     (if i < end \<and> \<not> Empty (table d ! i) \<and> BucketByPosition d i \<le> int bucket
      then if BucketByPosition d i = int bucket \<and> Equal (table d ! i) key hash then (Some i, i)
           else lookup_loop d key hash bucket end (i + 1)
      else (None, i))"
  by pat_completeness auto
termination
  by (relation "measure (\<lambda>(d, key, hash, bucket, end, i). end - i)") auto

declare lookup_loop.simps [simp del]

definition LookupIndexIn :: "Dictionary \<Rightarrow> byte list \<Rightarrow> uint64 \<Rightarrow> nat \<Rightarrow> nat \<Rightarrow> nat option \<times> nat" where
  "LookupIndexIn d key hash bucket end = lookup_loop d key hash bucket end bucket"

text \<open>The loop \<open>for(int i=1; i<=remaps; i++)\<close> over the previous table sizes.\<close>

function prev_loop :: "Dictionary \<Rightarrow> byte list \<Rightarrow> uint64 \<Rightarrow> nat \<Rightarrow> nat option \<times> Dictionary" where
  "prev_loop d key hash i =
     (if i \<le> remaps d
      then
        let prev_bucket = BucketByHash hash (log2_buckets d - i)
        in if int prev_bucket \<le> remap_end d
           then
             case fst (LookupIndexIn d key hash prev_bucket (nat (remap_end d + 1))) of
               Some position \<Rightarrow>
                 if num_iterators d = 0
                 then (case RemapAt d position of
                         (Some new_position, d') \<Rightarrow> (Some new_position, d')
                       | (None, d') \<Rightarrow> (Some position, d'))
                 else (Some position, d)
             | None \<Rightarrow> prev_loop d key hash (i + 1)
           else prev_loop d key hash (i + 1)
      else (None, d))"
  by pat_completeness auto
termination
  by (relation "measure (\<lambda>(d, key, hash, i). remaps d + 1 - i)") auto

declare prev_loop.simps [simp del]

text \<open>The result: the position, \<open>insert_position\<close> and \<open>insert_distance\<close>, and the dictionary.\<close>

definition LookupIndex :: "Dictionary \<Rightarrow> byte list \<Rightarrow> uint64 \<Rightarrow> nat option \<times> int \<times> int \<times> Dictionary" where
  "LookupIndex d key hash =
     (let bucket = BucketByHash hash (log2_buckets d)
      in if table d = [] then (None, -1, -1, d)
         else
           case LookupIndexIn d key hash bucket (cap d) of
             (Some position, _) \<Rightarrow> (Some position, -1, -1, d)
           | (None, i) \<Rightarrow>
               let (position, d) = prev_loop d key hash 1
               in (position, int i, int i - int bucket, d))"

definition Dictionary_Lookup :: "Dictionary \<Rightarrow> byte list \<Rightarrow> uint64 \<Rightarrow> ptr \<times> Dictionary" where
  "Dictionary_Lookup d key h =
     (case LookupIndex d key h of
        (Some position, _, _, d) \<Rightarrow> (de_value (table d ! position), d)
      | (None, _, _, d) \<Rightarrow> (NULL, d))"

section \<open>Robust cookies\<close>

text \<open>\<open>for(auto c: *cookies) ...\<close>: a change of every robust cookie.\<close>

fun each_cookie :: "(IterCookie \<Rightarrow> IterCookie) \<Rightarrow> nat list \<Rightarrow> (nat \<Rightarrow> IterCookie option) \<Rightarrow> (nat \<Rightarrow> IterCookie option)" where
  "each_cookie f [] st = st"
| "each_cookie f (c # cs) st = each_cookie f cs (st(c := map_option f (st c)))"

definition update_cookies :: "(IterCookie \<Rightarrow> IterCookie) \<Rightarrow> Dictionary \<Rightarrow> Dictionary" where
  "update_cookies f d =
     (case cookies d of None \<Rightarrow> d | Some cs \<Rightarrow> d\<lparr>cookie_store := each_cookie f cs (cookie_store d)\<rparr>)"

definition AdjustOnInsert :: "Dictionary \<Rightarrow> DictEntry \<Rightarrow> nat \<Rightarrow> nat \<Rightarrow> IterCookie \<Rightarrow> IterCookie" where
  "AdjustOnInsert d entry insert_position last_affected_position c =
     (let c = (if int insert_position < c_next c then c\<lparr>inserted := inserted c @ [entry]\<rparr> else c)
      in if int insert_position < c_next c \<and> c_next c \<le> int last_affected_position
         then c\<lparr>visited := visited c @ [table d ! nat (TailOfClusterByPosition d (nat (c_next c)))]\<rparr>
         else c)"

definition AdjustOnRemove :: "Dictionary \<Rightarrow> DictEntry \<Rightarrow> nat \<Rightarrow> nat \<Rightarrow> IterCookie \<Rightarrow> IterCookie" where
  "AdjustOnRemove d entry position last_affected_position c =
     (let c = c\<lparr>inserted := filter (\<lambda>x. \<not> same_key x entry) (inserted c)\<rparr>;
          c = (if int position < c_next c \<and> c_next c \<le> int last_affected_position
               then
                 let moved = HeadOfClusterByPosition d (nat (c_next c - 1));
                     moved = (if moved < int position then int position else moved)
                 in c\<lparr>inserted := inserted c @ [table d ! nat moved]\<rparr>
               else c)
      in if c_next c < int (cap d) \<and> Empty (table d ! nat (c_next c))
         then c\<lparr>c_next := Next d (c_next c)\<rparr> else c)"

section \<open>Insert\<close>

definition InsertRelocateAndAdjust :: "Dictionary \<Rightarrow> DictEntry \<Rightarrow> nat \<Rightarrow> Dictionary \<times> DictEntry" where
  "InsertRelocateAndAdjust d entry insert_position =
     (let (d, entry, last_affected_position) = InsertAndRelocate d entry insert_position;
          d = (if Remapping d \<and> int insert_position \<le> remap_end d \<and> remap_end d < int last_affected_position
               then d\<lparr>remap_end := int last_affected_position\<rparr> else d);
          d = update_cookies (AdjustOnInsert d entry insert_position last_affected_position) d
      in (d, entry))"

text \<open>\<open>it = std::find(xs.begin(), xs.end(), e)\<close> followed by \<open>it->value = val\<close>, when there is one.\<close>

fun set_value :: "DictEntry \<Rightarrow> ptr \<Rightarrow> DictEntry list \<Rightarrow> DictEntry list" where
  "set_value e v [] = []"
| "set_value e v (x # xs) = (if same_key x e then x\<lparr>de_value := v\<rparr> # xs else x # set_value e v xs)"

definition iterators_robust :: "Dictionary \<Rightarrow> bool" where
  "iterators_robust d \<longleftrightarrow>
     num_iterators d = 0 \<or>
     (case cookies d of None \<Rightarrow> False | Some cs \<Rightarrow> length cs = unat (num_iterators d))"

definition insert_found :: "Dictionary \<Rightarrow> nat \<Rightarrow> ptr \<Rightarrow> dict_error + ptr \<times> Dictionary" where
  "insert_found d position val =
     (let v = de_value (table d ! position);
          d = set_slot d position ((table d ! position)\<lparr>de_value := val\<rparr>);
          e = table d ! position
      in if (case order d of None \<Rightarrow> False | Some xs \<Rightarrow> \<not> (\<exists>x \<in> set xs. same_key x e)) then Inl AssertFailed
         else
           let d = d\<lparr>order := map_option (set_value e val) (order d)\<rparr>;
               d = update_cookies (\<lambda>c. c\<lparr>inserted := set_value e val (inserted c)\<rparr>) d
           in Inr (v, d))"

definition insert_new :: "Dictionary \<Rightarrow> byte list \<Rightarrow> uint64 \<Rightarrow> ptr \<Rightarrow> nat \<Rightarrow> int \<Rightarrow> Dictionary" where
  "insert_new d key hash val insert_position insert_distance =
     (let entry = new_DictEntry key hash val insert_distance;
          (d, entry) = InsertRelocateAndAdjust d entry insert_position;
          d = d\<lparr>order := map_option (\<lambda>xs. xs @ [entry]) (order d)\<rparr>;
          d = d\<lparr>num_entries := num_entries d + 1, cum_entries := cum_entries d + 1\<rparr>;
          d = (if max_entries d < num_entries d then d\<lparr>max_entries := num_entries d\<rparr> else d)
      in if num_entries d > int (ThresholdEntries d) then SizeUp d else d)"

definition Dictionary_Insert ::
  "Dictionary \<Rightarrow> byte list \<Rightarrow> uint64 \<Rightarrow> ptr \<Rightarrow> dict_error + ptr \<times> Dictionary" where
  "Dictionary_Insert d key hash val =
     (if \<not> iterators_robust d then Inl AssertFailed
      else
        let d = (if table d = [] then Init d else d);
            (position, insert_position, insert_distance, d) = LookupIndex d key hash;
            r = (case position of
                   Some position \<Rightarrow> insert_found d position val
                 | None \<Rightarrow> Inr (NULL, insert_new d key hash val (nat insert_position) insert_distance))
        in case r of
             Inl err \<Rightarrow> Inl err
           | Inr (v, d) \<Rightarrow> Inr (v, if Remapping d then Remap d else d))"

section \<open>Remove\<close>

text \<open>
  \<open>xs.erase(std::remove(xs.begin(), xs.end(), x))\<close>: the elements kept move to the front, one
  element after them is erased; with no match the end iterator is erased.
\<close>

definition erase_remove :: "('a \<Rightarrow> bool) \<Rightarrow> 'a list \<Rightarrow> 'a list option" where
  "erase_remove P xs =
     (let ys = filter (\<lambda>x. \<not> P x) xs
      in if length ys = length xs then None else Some (ys @ drop (length ys + 1) xs))"

definition RemoveRelocateAndAdjust :: "Dictionary \<Rightarrow> nat \<Rightarrow> DictEntry \<times> Dictionary" where
  "RemoveRelocateAndAdjust d position =
     (let (entry, d, last_affected_position) = RemoveAndRelocate d position;
          d = update_cookies (AdjustOnRemove d entry position last_affected_position) d
      in (entry, d))"

definition Dictionary_Remove ::
  "Dictionary \<Rightarrow> byte list \<Rightarrow> uint64 \<Rightarrow> bool \<Rightarrow> dict_error + ptr \<times> Dictionary" where
  "Dictionary_Remove d key hash dont_delete =
     (if \<not> iterators_robust d \<or> dont_delete then Inl AssertFailed
      else
        case LookupIndex d key hash of
          (None, _, _, d) \<Rightarrow> Inr (NULL, d)
        | (Some position, _, _, d) \<Rightarrow>
            let (entry, d) = RemoveRelocateAndAdjust d position;
                d = d\<lparr>num_entries := num_entries d - 1\<rparr>
            in case order d of
                 None \<Rightarrow> Inr (de_value entry, d)
               | Some xs \<Rightarrow>
                   (case erase_remove (\<lambda>x. same_key x entry) xs of
                      None \<Rightarrow> Inl UndefinedBehaviour
                    | Some ys \<Rightarrow> Inr (de_value entry, d\<lparr>order := Some ys\<rparr>)))"

section \<open>Order and iteration\<close>

definition Length :: "Dictionary \<Rightarrow> int" where
  "Length d = num_entries d"

definition MaxLength :: "Dictionary \<Rightarrow> int" where
  "MaxLength d = max_entries d"

definition NumCumulativeInserts :: "Dictionary \<Rightarrow> uint64" where
  "NumCumulativeInserts d = cum_entries d"

definition IsOrdered :: "Dictionary \<Rightarrow> bool" where
  "IsOrdered d \<longleftrightarrow> order d \<noteq> None"

text \<open>
  The value and the key of the n'th entry, or the null pointer; an index below \<open>Length()\<close>
  but beyond the vector is an access out of range.
\<close>

definition NthEntry :: "Dictionary \<Rightarrow> int \<Rightarrow> dict_error + (ptr \<times> byte list) option" where
  "NthEntry d n =
     (case order d of
        None \<Rightarrow> Inr None
      | Some xs \<Rightarrow>
          if n < 0 \<or> n \<ge> Length d then Inr None
          else if nat n < length xs then Inr (Some (de_value (xs ! nat n), de_key (xs ! nat n)))
          else Inl UndefinedBehaviour)"

definition InitForIteration :: "Dictionary \<Rightarrow> nat \<times> Dictionary" where
  "InitForIteration d =
     (fresh_cookie d,
      d\<lparr>num_iterators := num_iterators d + 1,
        cookie_store := (cookie_store d)(fresh_cookie d \<mapsto> new_IterCookie),
        fresh_cookie := fresh_cookie d + 1\<rparr>)"

definition MakeRobustCookie :: "Dictionary \<Rightarrow> nat \<Rightarrow> dict_error + Dictionary" where
  "MakeRobustCookie d c =
     (case cookie_store d c of
        None \<Rightarrow> Inl UndefinedBehaviour
      | Some k \<Rightarrow>
          if c_next k \<ge> 0 then Inl AssertFailed
          else
            let cs = (case cookies d of None \<Rightarrow> [] | Some cs \<Rightarrow> cs)
            in Inr (d\<lparr>cookies := Some (cs @ [c]),
                      cookie_store := (cookie_store d)(c \<mapsto> k\<lparr>robust := True, inserted := [], visited := []\<rparr>)\<rparr>))"

text \<open>The destructor of a cookie.\<close>

definition delete_cookie :: "Dictionary \<Rightarrow> nat \<Rightarrow> dict_error + Dictionary" where
  "delete_cookie d c =
     (case cookie_store d c of
        None \<Rightarrow> Inl UndefinedBehaviour
      | Some k \<Rightarrow>
          let d' = d\<lparr>cookie_store := (cookie_store d)(c := None)\<rparr>
          in if robust k
             then (case cookies d of
                     None \<Rightarrow> Inl UndefinedBehaviour
                   | Some cs \<Rightarrow>
                       (case erase_remove (\<lambda>x. x = c) cs of
                          None \<Rightarrow> Inl UndefinedBehaviour
                        | Some cs' \<Rightarrow> Inr (d'\<lparr>cookies := Some cs'\<rparr>)))
             else Inr d')"

definition end_iteration :: "Dictionary \<Rightarrow> nat \<Rightarrow> dict_error + Dictionary" where
  "end_iteration d c =
     delete_cookie (if num_iterators d > 0 then d\<lparr>num_iterators := num_iterators d - 1\<rparr> else d) c"

definition StopIteration :: "Dictionary \<Rightarrow> nat \<Rightarrow> dict_error + Dictionary" where
  "StopIteration d c = (if num_iterators d = 0 then Inl AssertFailed else end_iteration d c)"

fun erase_first :: "('a \<Rightarrow> bool) \<Rightarrow> 'a list \<Rightarrow> 'a list" where
  "erase_first P [] = []"
| "erase_first P (x # xs) = (if P x then xs else x # erase_first P xs)"

text \<open>The loop that skips entries already visited.\<close>

function visited_loop :: "Dictionary \<Rightarrow> nat \<Rightarrow> IterCookie \<Rightarrow> IterCookie" where
  "visited_loop d capacity c =
     (if c_next c < int capacity
      then if \<exists>x \<in> set (visited c). same_key x (table d ! nat (c_next c))
           then visited_loop d capacity
                  (c\<lparr>visited := erase_first (\<lambda>x. same_key x (table d ! nat (c_next c))) (visited c),
                     c_next := Next d (c_next c)\<rparr>)
           else c
      else c)"
  by pat_completeness auto
termination
proof (relation "measure (\<lambda>(d, capacity, c). length (visited c))", goal_cases)
  case (2 d capacity c)
  have "length (erase_first P xs) < length xs" if "\<exists>x \<in> set xs. P x" for P and xs :: "DictEntry list"
    using that by (induction xs) auto
  with 2 show ?case by simp
qed simp

declare visited_loop.simps [simp del]

text \<open>
  \<open>NextEntry\<close>: the value, the key and hash of the entry (from which the code makes the
  \<open>HashKey\<close> asked for with \<open>return_hash\<close>), and whether the cookie still exists.
\<close>

datatype next_result = EndOfIteration | Entry ptr "byte list" uint32

definition entry_result :: "DictEntry \<Rightarrow> next_result" where
  "entry_result e = Entry (de_value e) (take (unat (de_key_size e)) (de_key e)) (de_hash e)"

definition NextEntry :: "Dictionary \<Rightarrow> nat \<Rightarrow> dict_error + next_result \<times> Dictionary" where
  "NextEntry d cookie =
     (case cookie_store d cookie of
        None \<Rightarrow> Inl UndefinedBehaviour
      | Some c \<Rightarrow>
          let finish = (\<lambda>d. case end_iteration d cookie of Inl err \<Rightarrow> Inl err | Inr d \<Rightarrow> Inr (EndOfIteration, d))
          in if table d = [] then finish d
             else if inserted c \<noteq> []
             then Inr (entry_result (last (inserted c)),
                       d\<lparr>cookie_store := (cookie_store d)(cookie \<mapsto> c\<lparr>inserted := butlast (inserted c)\<rparr>)\<rparr>)
             else
               let c = (if c_next c < 0 then c\<lparr>c_next := Next d (-1)\<rparr> else c);
                   capacity = cap d;
                   c = (if c_next c < int capacity \<and> Empty (table d ! nat (c_next c))
                        then c\<lparr>c_next := Next d (c_next c)\<rparr> else c);
                   c = (if visited c \<noteq> [] then visited_loop d capacity c else c)
               in if c_next c \<ge> int capacity then finish (d\<lparr>cookie_store := (cookie_store d)(cookie \<mapsto> c)\<rparr>)
                  else
                    let e = table d ! nat (c_next c);
                        c = c\<lparr>c_next := Next d (c_next c)\<rparr>
                    in Inr (entry_result e, d\<lparr>cookie_store := (cookie_store d)(cookie \<mapsto> c)\<rparr>))"

end
