(* ===== verification/DictCluster.thy ===== *)
theory DictCluster
  imports OpenDict
begin

text \<open>
  The shape of the table that the loops of \<open>OpenDict.cc\<close> rely on, and what the two relocation
  loops do to it. In a clustered table every entry sits at or after its bucket, the slots from the
  bucket to the entry are all occupied, and buckets do not decrease along them. \<open>InsertAndRelocate\<close>
  and \<open>RemoveAndRelocate\<close> keep that shape and change the collection of placed entries (bucket and
  contents, without the position) by exactly one element.
\<close>

section \<open>Occupied slots and clustered tables\<close>

definition occ :: "DictEntry list \<Rightarrow> nat \<Rightarrow> bool" where
  "occ t p \<longleftrightarrow> p < length t \<and> \<not> Empty (t ! p)"

definition dist :: "DictEntry \<Rightarrow> nat" where
  "dist e = unat (de_distance e)"

definition bk :: "DictEntry list \<Rightarrow> nat \<Rightarrow> int" where
  "bk t p = int p - int (dist (t ! p))"

definition clustered :: "DictEntry list \<Rightarrow> bool" where
  "clustered t \<longleftrightarrow>
     (\<forall>p. occ t p \<longrightarrow> 0 \<le> bk t p \<and> (\<forall>q. bk t p \<le> int q \<and> q \<le> p \<longrightarrow> occ t q \<and> bk t q \<le> bk t p))"

definition payload :: "DictEntry \<Rightarrow> DictEntry" where
  "payload e = e\<lparr>de_distance := 0\<rparr>"

definition placed_but :: "DictEntry list \<Rightarrow> nat set \<Rightarrow> (int \<times> DictEntry) multiset" where
  "placed_but t A = image_mset (\<lambda>p. (bk t p, payload (t ! p))) (mset_set ({p. occ t p} - A))"

definition placed :: "DictEntry list \<Rightarrow> (int \<times> DictEntry) multiset" where
  "placed t = placed_but t {}"

text \<open>Entry \<open>e\<close> may be put at position \<open>i\<close>: at the end of the entries of buckets up to its own.\<close>

definition fits :: "DictEntry list \<Rightarrow> DictEntry \<Rightarrow> nat \<Rightarrow> bool" where
  "fits t e i \<longleftrightarrow> (let b = int i - int (dist e) in
     \<not> Empty e \<and> 0 \<le> b \<and> i \<le> length t \<and>
     (\<forall>q. b \<le> int q \<and> q < i \<longrightarrow> occ t q \<and> bk t q \<le> b) \<and> (occ t i \<longrightarrow> b < bk t i))"

lemma BucketByPosition_bk: "BucketByPosition d p = bk (table d) p"
  by (simp add: BucketByPosition_def bk_def dist_def)

lemma finite_occ [simp]: "finite {p. occ t p}"
  by (rule finite_subset [of _ "{..<length t}"]) (auto simp: occ_def)

lemma occ_update: "occ (t[i := e]) p \<longleftrightarrow> (if p = i then p < length t \<and> \<not> Empty e else occ t p)"
  by (auto simp: occ_def)

lemma occ_length: "occ t p \<Longrightarrow> p < length t"
  by (simp add: occ_def)

lemma bk_update: "bk (t[i := e]) p = (if p = i \<and> i < length t then int i - int (dist e) else bk t p)"
  by (cases "i < length t") (auto simp: bk_def not_less list_update_beyond)

lemma bk_le: "bk t p \<le> int p"
  by (simp add: bk_def)

lemma occ_append [simp]:
  "occ (t @ replicate n fresh_slot) p \<longleftrightarrow> occ t p"
  by (auto simp: occ_def nth_append fresh_slot_def SetEmpty_def Empty_def)

lemma bk_append [simp]: "p < length t \<Longrightarrow> bk (t @ s) p = bk t p"
  by (simp add: bk_def nth_append)

lemma clustered_occ: "clustered t \<Longrightarrow> occ t p \<Longrightarrow> bk t p \<le> int q \<Longrightarrow> q \<le> p \<Longrightarrow> occ t q"
  by (auto simp: clustered_def)

lemma clustered_nonneg: "clustered t \<Longrightarrow> occ t p \<Longrightarrow> 0 \<le> bk t p"
  by (auto simp: clustered_def)

lemma clustered_mono:
  assumes "clustered t" "occ t p" "occ t q" "q \<le> p"
  shows "bk t q \<le> bk t p"
proof (cases "bk t p \<le> int q")
  case True
  then show ?thesis using assms by (auto simp: clustered_def)
next
  case False
  then show ?thesis using bk_le [of t q] by simp
qed

lemma run_card:
  assumes "\<And>q. a \<le> int q \<Longrightarrow> q < b \<Longrightarrow> occ t q" and "0 \<le> a"
  shows "int b - a \<le> int (card {p. occ t p})"
proof (cases "a \<le> int b")
  case True
  have "card {nat a..<b} \<le> card {p. occ t p}"
    by (rule card_mono) (use assms in \<open>auto simp: nat_le_iff\<close>)
  then show ?thesis using True assms(2) by simp
qed simp

section \<open>Placed entries under slot updates\<close>

lemma occ_minus_update: "{p. occ (t[i := e]) p} - insert i A = {p. occ t p} - insert i A"
  by (auto simp: occ_update occ_def)

lemma placed_but_update [simp]: "placed_but (t[i := e]) (insert i A) = placed_but t (insert i A)"
  unfolding placed_but_def occ_minus_update
  by (rule image_mset_cong) (auto simp: bk_update)

lemma placed_but_split:
  assumes "occ t i" "i \<notin> A"
  shows "placed_but t A = add_mset (bk t i, payload (t ! i)) (placed_but t (insert i A))"
proof -
  have "{p. occ t p} - A = insert i ({p. occ t p} - insert i A)" using assms by auto
  then have "mset_set ({p. occ t p} - A) = mset_set (insert i ({p. occ t p} - insert i A))" by (rule arg_cong)
  then show ?thesis unfolding placed_but_def by simp
qed

lemma placed_but_skip: "\<not> occ t i \<Longrightarrow> placed_but t (insert i A) = placed_but t A"
  by (auto simp: placed_but_def intro!: arg_cong [where f = "\<lambda>S. image_mset _ (mset_set S)"])

lemma placed_update_occ:
  "i < length t \<Longrightarrow> \<not> Empty e \<Longrightarrow>
   placed (t[i := e]) = add_mset (int i - int (dist e), payload e) (placed_but t {i})"
  using placed_but_split [of "t[i := e]" i "{}"]
  by (simp add: placed_def occ_update bk_update)

lemma placed_update_empty: "Empty e \<Longrightarrow> placed (t[i := e]) = placed_but t {i}"
  using placed_but_skip [of "t[i := e]" i "{}"] by (simp add: placed_def occ_update)

lemma placed_append: "placed (t @ replicate n fresh_slot) = placed t"
proof -
  have "bk (t @ replicate n fresh_slot) p = bk t p \<and> (t @ replicate n fresh_slot) ! p = t ! p" if "occ t p" for p
    using that by (simp add: occ_def nth_append)
  then show ?thesis unfolding placed_def placed_but_def occ_append by (intro image_mset_cong) auto
qed

lemma in_placed: "x \<in># placed t \<longleftrightarrow> (\<exists>p. occ t p \<and> x = (bk t p, payload (t ! p)))"
  by (auto simp: placed_def placed_but_def)

lemma size_placed: "size (placed t) = card {p. occ t p}"
  by (simp add: placed_def placed_but_def)

section \<open>One step of the insertion\<close>

lemma clustered_put:
  assumes "clustered t" "fits t e i" "i < length t"
  shows "clustered (t[i := e])"
  unfolding clustered_def
proof (intro allI impI, goal_cases)
  case (1 p)
  let ?b = "int i - int (dist e)"
  have f: "\<not> Empty e" "0 \<le> ?b" "\<And>q. ?b \<le> int q \<Longrightarrow> q < i \<Longrightarrow> occ t q \<and> bk t q \<le> ?b"
    "occ t i \<Longrightarrow> ?b < bk t i"
    using assms(2) by (auto simp: fits_def Let_def)
  show ?case
  proof (cases "p = i")
    case True
    then show ?thesis
      using f(1-3) assms(3) by (auto simp: bk_update occ_update)
  next
    case False
    then have p: "occ t p" using 1 by (simp add: occ_update occ_def)
    have "occ (t[i := e]) q \<and> bk (t[i := e]) q \<le> bk t p" if "bk t p \<le> int q" "q \<le> p" for q
    proof -
      have q: "occ t q" "bk t q \<le> bk t p" using assms(1) p that by (auto simp: clustered_def)
      then show ?thesis using f(1,4) by (auto simp: occ_update bk_update occ_def)
    qed
    then show ?thesis using False clustered_nonneg [OF assms(1) p] by (simp add: bk_update)
  qed
qed

text \<open>Entries from the insert position on belong to higher buckets.\<close>

lemma fits_below:
  assumes "clustered t" "fits t e i" "occ t q" "i \<le> q"
  shows "int i - int (dist e) < bk t q"
proof (cases "occ t i")
  case True
  then show ?thesis
    using assms(2) clustered_mono [OF assms(1,3) True assms(4)] by (simp add: fits_def Let_def)
next
  case False
  then have "\<not> bk t q \<le> int i" using clustered_occ [OF assms(1,3) _ assms(4)] by blast
  then show ?thesis by simp
qed

text \<open>The entry pushed out fits at the end of its own cluster.\<close>

lemma dist_up:
  "dist e + k < 65536 \<Longrightarrow> dist (e\<lparr>de_distance := de_distance e + of_int (int k)\<rparr>) = dist e + k"
  by (simp add: dist_def unat_word_ariths unat_of_nat)

lemma dist_down:
  assumes "k \<le> dist e"
  shows "dist (e\<lparr>de_distance := de_distance e - of_int (int k)\<rparr>) = dist e - k"
proof -
  have "unat (de_distance e) < 2 ^ 16" using unsigned_less [of "de_distance e"] by simp
  with assms have "k < 65536" by (simp add: dist_def)
  then have "unat (of_nat k :: uint16) = k" by (simp add: unat_of_nat)
  then show ?thesis using assms by (simp add: dist_def unat_sub word_le_nat_alt)
qed

lemma Empty_iff: "Empty e \<longleftrightarrow> dist e = 65535"
proof -
  have "unat TOO_FAR_TO_REACH = 65535" by (simp add: TOO_FAR_TO_REACH_def)
  then show ?thesis by (metis Empty_def dist_def word_unat_eq_iff)
qed

definition same_bucket :: "DictEntry list \<Rightarrow> int \<Rightarrow> nat \<Rightarrow> bool" where
  "same_bucket t b i \<longleftrightarrow> \<not> Empty (t ! i) \<and> bk t i = b"

lemma push_out:
  assumes c: "clustered t" and f: "fits t e i" and o: "occ t i" and size: "card {p. occ t p} < 65535"
    and n: "n = scan (same_bucket t (bk t i)) (length t) i"
    and x: "x = (t ! i)\<lparr>de_distance := de_distance (t ! i) + of_int (int n - int i)\<rparr>"
  shows "i < n" "n \<le> length t" "int n - int (dist x) = bk t i" "fits (t[i := e]) x n"
    "payload x = payload (t ! i)" "\<And>q. i \<le> q \<Longrightarrow> q < n \<Longrightarrow> occ t q"
proof -
  let ?b = "bk t i" and ?P = "same_bucket t (bk t i)"
  have il: "i < length t" using o by (simp add: occ_def)
  have Pi: "?P i" using o by (simp add: same_bucket_def occ_def)
  show ilt: "i < n" using scan_step [OF il, of ?P] Pi n by simp
  show nle: "n \<le> length t" using scan_le [of i "length t"] il n by simp
  have run: "occ t q \<and> bk t q \<le> ?b" if "?b \<le> int q" "q < n" for q
  proof (cases "q \<le> i")
    case True
    then show ?thesis using c o that(1) by (auto simp: clustered_def)
  next
    case False
    then show ?thesis
      using scan_holds [of i q ?P "length t"] that(2) n by (auto simp: same_bucket_def occ_def)
  qed
  have "int n - ?b \<le> 65534"
    using run_card [of ?b n t] run size clustered_nonneg [OF c o] by auto
  then have dist: "dist (t ! i) + (n - i) \<le> 65534" using ilt by (simp add: bk_def of_nat_diff)
  have ux: "dist x = dist (t ! i) + (n - i)"
    using dist_up [of "t ! i" "n - i"] dist ilt by (simp add: x of_nat_diff)
  show bx: "int n - int (dist x) = ?b"
    using ux ilt by (simp add: bk_def of_nat_diff)
  have ne: "\<not> Empty x" using ux dist by (simp add: Empty_iff)
  have b: "\<not> Empty e" "int i - int (dist e) < ?b"
    using f o by (auto simp: fits_def Let_def)
  have "occ (t[i := e]) q \<and> bk (t[i := e]) q \<le> ?b" if "?b \<le> int q" "q < n" for q
    using run [OF that] b by (auto simp: occ_update bk_update occ_def)
  moreover have "?b < bk t n" if "occ t n"
  proof -
    have "\<not> ?P n" using scan_stop [of ?P "length t" i] that n by (simp add: occ_def)
    moreover have "?b \<le> bk t n" using clustered_mono [OF c that o] ilt by simp
    ultimately show ?thesis using that by (auto simp: same_bucket_def occ_def)
  qed
  moreover have "occ (t[i := e]) n = occ t n" "bk (t[i := e]) n = bk t n"
    using ilt by (auto simp: occ_update bk_update occ_def)
  ultimately show "fits (t[i := e]) x n"
    using ne nle clustered_nonneg [OF c o] by (simp add: fits_def Let_def bx)
  show "payload x = payload (t ! i)" by (simp add: x payload_def)
  show "occ t q" if "i \<le> q" "q < n" for q
    using run [of q] that bk_le [of t i] by auto
qed

section \<open>The insertion loop\<close>

definition sized :: "Dictionary \<Rightarrow> bool" where
  "sized d \<longleftrightarrow> table d \<noteq> [] \<and> length (table d) = cap d"

text \<open>
  The outcome of putting \<open>e\<close> at \<open>i\<close> with the last change at \<open>j\<close>: one more placed entry; outside of
  the positions from \<open>i\<close> to \<open>j\<close> nothing changes, and after \<open>i\<close> the entries come from positions between
  \<open>i\<close> and theirs.
\<close>

definition pushed :: "DictEntry list \<Rightarrow> DictEntry list \<Rightarrow> DictEntry \<Rightarrow> nat \<Rightarrow> nat \<Rightarrow> bool" where
  "pushed t t' e i j \<longleftrightarrow> i \<le> j \<and> j < length t' \<and> length t \<le> length t' \<and> t' ! i = e \<and>
     (\<forall>p. i < p \<and> p \<le> j \<longrightarrow>
       (\<exists>p0. i \<le> p0 \<and> p0 \<le> p \<and> occ t p0 \<and> bk t p0 = bk t' p \<and> payload (t ! p0) = payload (t' ! p))) \<and>
     (\<forall>p. p < i \<or> j < p \<longrightarrow> occ t' p = occ t p \<and> (p < length t \<longrightarrow> t' ! p = t ! p))"

definition ins_post :: "DictEntry list \<Rightarrow> DictEntry list \<Rightarrow> DictEntry \<Rightarrow> nat \<Rightarrow> nat \<Rightarrow> bool" where
  "ins_post t t' e i j \<longleftrightarrow> clustered t' \<and> pushed t t' e i j \<and>
     placed t' = add_mset (int i - int (dist e), payload e) (placed t)"

lemma pushed_put: "i < length t \<Longrightarrow> pushed t (t[i := e]) e i i"
  by (auto simp: pushed_def occ_update occ_def)

lemma ins_post_put:
  "clustered t \<Longrightarrow> fits t e i \<Longrightarrow> i < length t \<Longrightarrow> \<not> occ t i \<Longrightarrow> ins_post t (t[i := e]) e i i"
  using placed_but_skip [of t i "{}"] clustered_put [of t e i] pushed_put [of i t e] placed_update_occ [of i t e]
  by (simp add: ins_post_def placed_def [of t] fits_def Let_def)

lemma pushed_step:
  assumes "pushed (t[i := e]) t' x n j" "i < n" "n \<le> length t" "occ t i"
    "int n - int (dist x) = bk t i" "payload x = payload (t ! i)"
    "\<And>q. i \<le> q \<Longrightarrow> q < n \<Longrightarrow> occ t q"
  shows "pushed t t' e i j"
proof -
  note p = assms(1) [unfolded pushed_def]
  have il: "i < length t" using assms(4) by (simp add: occ_def)
  have "\<exists>p0. i \<le> p0 \<and> p0 \<le> q \<and> occ t p0 \<and> bk t p0 = bk t' q \<and> payload (t ! p0) = payload (t' ! q)"
    if q: "i < q" "q \<le> j" for q
  proof -
    consider "q < n" | "q = n" | "n < q" by linarith
    then show ?thesis
    proof cases
      case 1
      then have "t' ! q = t ! q" "occ t q" using p q assms(3,7) by auto
      then show ?thesis using q by (intro exI [of _ q]) (auto simp: bk_def)
    next
      case 2
      then have "t' ! q = x" using p by simp
      then show ?thesis using 2 assms(2,4-6) by (intro exI [of _ i]) (auto simp: bk_def)
    next
      case 3
      then obtain p0 where "n \<le> p0" "p0 \<le> q" "occ (t[i := e]) p0" "bk (t[i := e]) p0 = bk t' q"
          "payload (t[i := e] ! p0) = payload (t' ! q)"
        using p q by blast
      then show ?thesis
        using assms(2) by (intro exI [of _ p0]) (auto simp: occ_update bk_update occ_def)
    qed
  qed
  moreover have "t' ! i = e" using p assms(2) il by simp
  moreover have "occ t' q = occ t q \<and> (q < length t \<longrightarrow> t' ! q = t ! q)" if "q < i \<or> j < q" for q
    using p that assms(2) by (auto simp: occ_update occ_def)
  ultimately show ?thesis using p assms(2) by (simp add: pushed_def)
qed

lemma placed_step:
  assumes "occ t i" "\<not> Empty e" "payload x = payload (t ! i)"
  shows "add_mset (bk t i, payload x) (placed (t[i := e])) =
    add_mset (int i - int (dist e), payload e) (placed t)"
  using assms placed_but_split [of t i "{}"] placed_update_occ [of i t e]
  by (simp add: placed_def [of t] occ_def)

lemma scan_EndOfCluster:
  "sized d \<Longrightarrow> nat (EndOfClusterByPosition d i) =
     scan (same_bucket (table d) (bk (table d) i)) (length (table d)) i"
  unfolding EndOfClusterByPosition_def TailOfClusterByPosition_def Let_def BucketByPosition_bk
  by (simp add: sized_def same_bucket_def [abs_def])

lemma sized_set_slot [simp]: "sized (set_slot d i e) = sized d"
  by (simp add: sized_def) (simp add: set_slot_def)

lemma table_set_slot [simp]: "table (set_slot d i e) = (table d)[i := e]"
  by (simp add: set_slot_def)

lemma cap_sized: "sized d \<Longrightarrow> length (table d) = 2 ^ log2_buckets d + log2_buckets d"
  by (simp add: sized_def Capacity_def)

lemma SizeUp_sized: "sized d \<Longrightarrow> sized (SizeUp d)"
  by (simp add: sized_def SizeUp_def Let_def Capacity_def)

lemma SizeUp_table:
  assumes "sized d"
  obtains k where "0 < k" "table (SizeUp d) = table d @ replicate k fresh_slot"
proof
  show "0 < cap (d\<lparr>log2_buckets := log2_buckets d + 1\<rparr>) - cap d"
    using assms by (simp add: sized_def Capacity_def)
qed (simp add: SizeUp_def Let_def)

lemma clustered_append: "clustered t \<Longrightarrow> clustered (t @ replicate k fresh_slot)"
  by (auto simp: clustered_def) (auto simp: occ_def)

definition grown :: "Dictionary \<Rightarrow> Dictionary \<Rightarrow> nat \<Rightarrow> bool" where
  "grown d d' j \<longleftrightarrow>
     (if j < cap d then d' = d\<lparr>table := table d'\<rparr>
      else j = cap d \<and> d' = (SizeUp d)\<lparr>table := table d'\<rparr>)"

lemma grown_set_slot [simp]: "grown (set_slot d i e) d' j = grown d d' j"
proof -
  have "(SizeUp (set_slot d i e))\<lparr>table := x\<rparr> = (SizeUp d)\<lparr>table := x\<rparr>" for x
    by (simp add: SizeUp_def Let_def set_slot_def Capacity_def)
  then show ?thesis by (simp add: grown_def) (simp add: set_slot_def)
qed

lemma insert_stop:
  assumes "sized d" "clustered (table d)" "fits (table d) e i" "\<not> occ (table d) i"
    and d': "d' = set_slot (if i \<ge> cap d then SizeUp d else d) i e"
  shows "ins_post (table d) (table d') e i i \<and> sized d' \<and> grown d d' i"
proof (cases "i < cap d")
  case True
  then show ?thesis
    using assms(1) ins_post_put [OF assms(2,3) _ assms(4)] by (simp add: d' grown_def sized_def) (simp add: set_slot_def)
next
  case False
  let ?t = "table d"
  obtain k where k: "0 < k" "table (SizeUp d) = ?t @ replicate k fresh_slot"
    using SizeUp_table [OF assms(1)] .
  have i: "i = length ?t" "i = cap d" using False assms(1,3) by (auto simp: fits_def Let_def sized_def)
  have f: "fits (?t @ replicate k fresh_slot) e i"
    using assms(3,4) i(1) by (auto simp: fits_def Let_def)
  have "ins_post (?t @ replicate k fresh_slot) ((?t @ replicate k fresh_slot)[i := e]) e i i"
    by (rule ins_post_put [OF clustered_append [OF assms(2)] f]) (use k i assms(4) in auto)
  then have "ins_post ?t ((?t @ replicate k fresh_slot)[i := e]) e i i"
    by (auto simp: ins_post_def placed_append pushed_def nth_append)
  then show ?thesis
    using k(2) i assms(1) by (simp add: d' grown_def SizeUp_sized) (simp add: set_slot_def)
qed

lemma InsertAndRelocate_post:
  assumes "sized d" "clustered (table d)" "fits (table d) e i" "card {p. occ (table d) p} < 65535"
    "InsertAndRelocate d e i = (d', e', j)"
  shows "ins_post (table d) (table d') e i j \<and> sized d' \<and> grown d d' j"
  using assms
proof (induction d e i rule: InsertAndRelocate.induct)
  case (1 d e i)
  let ?t = "table d"
  have len: "length ?t = cap d" using "1.prems"(1) by (simp add: sized_def)
  have fit: "\<not> Empty e" "i \<le> length ?t" using "1.prems"(3) by (auto simp: fits_def Let_def)
  show ?case
  proof (cases "i < cap d \<and> \<not> Empty (?t ! i)")
    case False
    then have "\<not> occ ?t i" by (auto simp: occ_def len)
    moreover have "d' = set_slot (if i \<ge> cap d then SizeUp d else d) i e \<and> j = i"
      using "1.prems"(5) False by (auto simp: InsertAndRelocate.simps [of d e i] split: if_splits)
    ultimately show ?thesis using insert_stop "1.prems"(1-3) by blast
  next
    case True
    then have o: "occ ?t i" by (simp add: occ_def len)
    define n where "n = nat (EndOfClusterByPosition d i)"
    define x where "x = (?t ! i)\<lparr>de_distance := de_distance (?t ! i) + of_int (int n - int i)\<rparr>"
    have n: "n = scan (same_bucket ?t (bk ?t i)) (length ?t) i"
      using scan_EndOfCluster "1.prems"(1) by (simp add: n_def)
    note po = push_out [OF "1.prems"(2,3) o "1.prems"(4) n x_def]
    have run: "InsertAndRelocate (set_slot d i e) x n = (d', e', j)"
      using "1.prems"(5) True by (simp add: InsertAndRelocate.simps [of d e i] Let_def x_def flip: n_def)
    have card: "card {p. occ (?t[i := e]) p} < 65535"
    proof -
      have "occ (?t[i := e]) p = occ ?t p" for p using o fit(1) by (auto simp: occ_update) (auto simp: occ_def)
      then show ?thesis using "1.prems"(4) by simp
    qed
    have "clustered (?t[i := e])" using clustered_put "1.prems"(2,3) o by (simp add: occ_def)
    then have ih: "ins_post (?t[i := e]) (table d') x n j \<and> sized d' \<and> grown (set_slot d i e) d' j"
      using "1.IH" [OF _ _ refl n_def x_def] True "1.prems"(1) po(4) card run by simp
    then have "pushed ?t (table d') e i j"
      using pushed_step [of ?t i e "table d'" x n j] po o by (simp add: ins_post_def)
    moreover have "placed (table d') = add_mset (int i - int (dist e), payload e) (placed ?t)"
      using ih placed_step [OF o fit(1), of x] po by (simp add: ins_post_def)
    ultimately show ?thesis using ih by (simp add: ins_post_def)
  qed
qed

section \<open>The removal loop\<close>

text \<open>A table that is clustered but for the slot \<open>h\<close>, whose entry has gone.\<close>

definition holed :: "DictEntry list \<Rightarrow> nat \<Rightarrow> bool" where
  "holed t h \<longleftrightarrow> h < length t \<and>
     (\<forall>p. occ t p \<and> p \<noteq> h \<longrightarrow> 0 \<le> bk t p \<and>
       (\<forall>q. bk t p \<le> int q \<and> q \<le> p \<and> q \<noteq> h \<longrightarrow> occ t q \<and> bk t q \<le> bk t p))"

definition pulled :: "DictEntry list \<Rightarrow> DictEntry list \<Rightarrow> nat \<Rightarrow> nat \<Rightarrow> bool" where
  "pulled t t' h j \<longleftrightarrow> h \<le> j \<and> j < length t \<and> length t' = length t \<and> \<not> occ t' j \<and>
     (\<forall>p. p < h \<or> j < p \<longrightarrow> t' ! p = t ! p) \<and>
     (\<forall>p. h \<le> p \<and> p < j \<longrightarrow>
       (\<exists>p0. h < p0 \<and> p \<le> p0 \<and> occ t p0 \<and> bk t p0 = bk t' p \<and> payload (t ! p0) = payload (t' ! p) \<and> occ t' p))"

definition rem_post :: "DictEntry list \<Rightarrow> DictEntry list \<Rightarrow> nat \<Rightarrow> nat \<Rightarrow> bool" where
  "rem_post t t' h j \<longleftrightarrow> clustered t' \<and> pulled t t' h j \<and> placed t' = placed_but t {h}"

lemma clustered_holed: "clustered t \<Longrightarrow> h < length t \<Longrightarrow> holed t h"
  by (auto simp: clustered_def holed_def)

lemma holed_nonneg: "holed t h \<Longrightarrow> occ t p \<Longrightarrow> p \<noteq> h \<Longrightarrow> 0 \<le> bk t p"
  by (simp add: holed_def)

lemma holed_run:
  "holed t h \<Longrightarrow> occ t p \<Longrightarrow> p \<noteq> h \<Longrightarrow> bk t p \<le> int q \<Longrightarrow> q \<le> p \<Longrightarrow> q \<noteq> h \<Longrightarrow>
   occ t q \<and> bk t q \<le> bk t p"
  by (simp add: holed_def)

lemma holed_mono:
  assumes "holed t h" "occ t p" "occ t q" "q \<le> p" "p \<noteq> h" "q \<noteq> h"
  shows "bk t q \<le> bk t p"
proof (cases "bk t p \<le> int q")
  case True
  then show ?thesis using assms by (auto simp: holed_def)
next
  case False
  then show ?thesis using bk_le [of t q] by simp
qed

lemma Empty_SetEmpty [simp]: "Empty (SetEmpty e)"
  by (simp add: Empty_def SetEmpty_def)

lemma remove_stop:
  assumes h: "holed t h"
    and stop: "length t \<le> h + 1 \<or> Empty (t ! (h + 1)) \<or> de_distance (t ! (h + 1)) = 0"
  shows "rem_post t (t[h := SetEmpty (t ! h)]) h h"
proof -
  let ?t = "t[h := SetEmpty (t ! h)]"
  have hl: "h < length t" using h by (simp add: holed_def)
  have far: "\<not> (bk t p \<le> int h \<and> h < p)" if "occ t p" for p
  proof
    assume b: "bk t p \<le> int h \<and> h < p"
    then have "occ t (h + 1)" "bk t (h + 1) \<le> bk t p"
      using h that by (auto simp: holed_def)
    moreover have "h + 1 \<le> p" using b by simp
    ultimately show False using stop b by (auto simp: occ_def bk_def dist_def)
  qed
  have "clustered ?t"
    unfolding clustered_def
  proof (intro allI impI, goal_cases)
    case (1 p)
    then have p: "occ t p" "p \<noteq> h" by (auto simp: occ_update split: if_splits)
    have "occ ?t q \<and> bk t q \<le> bk t p" if "bk t p \<le> int q" "q \<le> p" for q
    proof -
      have "q \<noteq> h" using far [OF p(1)] that p(2) by (metis le_neq_implies_less)
      then show ?thesis using h p that by (auto simp: holed_def occ_update)
    qed
    moreover have "0 \<le> bk t p" using h p by (simp add: holed_def)
    ultimately show ?case using p(2) far [OF p(1)]
      by (auto simp: bk_update)
  qed
  moreover have "pulled t ?t h h" using hl by (auto simp: pulled_def occ_update)
  ultimately show ?thesis by (simp add: rem_post_def placed_update_empty)
qed

lemma pull_in:
  assumes h: "holed t h" and o: "occ t (h + 1)" and d: "de_distance (t ! (h + 1)) \<noteq> 0"
    and n: "Suc n = scan (same_bucket t (bk t (h + 1))) (length t) (h + 1)"
    and x: "x = (t ! n)\<lparr>de_distance := de_distance (t ! n) - of_int (int n - int h)\<rparr>"
  shows "h < n" "occ t n" "int h - int (dist x) = bk t n" "payload x = payload (t ! n)" "\<not> Empty x"
    "holed (t[h := x]) n" "\<And>q. h < q \<Longrightarrow> q \<le> n \<Longrightarrow> occ t q"
proof -
  let ?b = "bk t (h + 1)" and ?P = "same_bucket t (bk t (h + 1))"
  have hl: "h + 1 < length t" using o by (simp add: occ_def)
  have P1: "?P (h + 1)" using o by (simp add: same_bucket_def occ_def)
  show hn: "h < n" using scan_step [OF hl, of ?P] P1 n by simp
  have cl: "occ t q \<and> bk t q = ?b" if "h < q" "q \<le> n" for q
    using scan_holds [of "h + 1" q ?P "length t"] that n by (auto simp: same_bucket_def occ_def)
  then show on: "occ t n" and "\<And>q. h < q \<Longrightarrow> q \<le> n \<Longrightarrow> occ t q" using hn by auto
  have bn: "bk t n = ?b" using cl [of n] hn by simp
  have "0 < dist (t ! (h + 1))" using d unfolding dist_def by (metis gr0I unsigned_eq_0_iff)
  then have bh: "?b \<le> int h" by (simp add: bk_def)
  have b0: "0 \<le> ?b" using holed_nonneg [OF h o] by simp
  have le: "n - h \<le> dist (t ! n)" using bn bh hn by (simp add: bk_def)
  have ux: "dist x = dist (t ! n) - (n - h)"
    using dist_down [OF le] hn by (simp add: x of_nat_diff)
  show bx: "int h - int (dist x) = bk t n" using ux le hn by (simp add: bk_def of_nat_diff)
  show "payload x = payload (t ! n)" by (simp add: x payload_def)
  have "dist (t ! n) < 65536" using unsigned_less [of "de_distance (t ! n)"] by (simp add: dist_def)
  then show ne: "\<not> Empty x" using ux le hn by (simp add: Empty_iff)
  have up: "?b \<le> bk t p" if "occ t p" "h < p" for p
    using holed_mono [OF h that(1) o] that(2) by simp
  have low: "occ t q \<and> bk t q \<le> ?b" if "?b \<le> int q" "q < h" for q
    using holed_run [OF h o] that by simp
  let ?t = "t[h := x]"
  have "0 \<le> bk ?t p \<and> (\<forall>q. bk ?t p \<le> int q \<and> q \<le> p \<and> q \<noteq> n \<longrightarrow> occ ?t q \<and> bk ?t q \<le> bk ?t p)"
    if p: "occ ?t p" "p \<noteq> n" for p
  proof (cases "p = h")
    case True
    then show ?thesis using b0 bx bn hl ne low by (auto simp: occ_update bk_update)
  next
    case False
    then have pt: "occ t p" "bk ?t p = bk t p" using p by (auto simp: occ_update bk_update)
    have "occ ?t q \<and> bk ?t q \<le> bk t p" if q: "bk t p \<le> int q" "q \<le> p" for q
    proof (cases "q = h")
      case True
      then show ?thesis using up [OF pt(1)] q False hl ne bx bn by (auto simp: occ_update bk_update)
    next
      case qh: False
      then show ?thesis using holed_run [OF h pt(1) False q] by (simp add: occ_update bk_update)
    qed
    then show ?thesis using holed_nonneg [OF h pt(1) False] pt(2) by simp
  qed
  then show "holed ?t n" unfolding holed_def using occ_length [OF on] by auto
qed

lemma pulled_step:
  assumes "pulled (t[h := x]) t' n j" "h < n" "occ t n" "int h - int (dist x) = bk t n"
    "payload x = payload (t ! n)" "\<not> Empty x" "\<And>q. h < q \<Longrightarrow> q \<le> n \<Longrightarrow> occ t q" "h < length t"
  shows "pulled t t' h j"
proof -
  note p = assms(1) [unfolded pulled_def]
  have same: "t' ! q = t[h := x] ! q" if "q < n \<or> j < q" for q using p that by blast
  have "\<exists>p0. h < p0 \<and> q \<le> p0 \<and> occ t p0 \<and> bk t p0 = bk t' q \<and> payload (t ! p0) = payload (t' ! q) \<and> occ t' q"
    if q: "h \<le> q" "q < j" for q
  proof -
    have ql: "q < length t'" using p q by simp
    consider "q = h" | "h < q" "q < n" | "n \<le> q" using q by linarith
    then show ?thesis
    proof cases
      case 1
      then have "t' ! q = x" using same assms(2,8) by simp
      then show ?thesis using 1 assms(2-6) ql by (intro exI [of _ n]) (auto simp: bk_def occ_def)
    next
      case 2
      then have "t' ! q = t ! q" "occ t q" using same assms(7) by auto
      then show ?thesis using 2 ql by (intro exI [of _ q]) (auto simp: bk_def occ_def)
    next
      case 3
      then obtain p0 where "n < p0" "q \<le> p0" "occ (t[h := x]) p0" "bk (t[h := x]) p0 = bk t' q"
          "payload (t[h := x] ! p0) = payload (t' ! q)" "occ t' q"
        using p q by blast
      then show ?thesis using assms(2) by (intro exI [of _ p0]) (auto simp: occ_update bk_update)
    qed
  qed
  moreover have "t' ! q = t ! q" if "q < h \<or> j < q" for q
    using same [of q] that assms(2) p by auto
  ultimately show ?thesis using p assms(2) by (auto simp: pulled_def)
qed

lemma placed_pull:
  assumes "h < n" "occ t n" "int h - int (dist x) = bk t n" "payload x = payload (t ! n)" "\<not> Empty x" "h < length t"
  shows "placed_but (t[h := x]) {n} = placed_but t {h}"
proof -
  have "placed_but (t[h := x]) {n} = add_mset (bk t n, payload x) (placed_but t {h, n})"
    using placed_but_split [of "t[h := x]" h "{n}"] assms by (simp add: occ_update bk_update)
  also have "\<dots> = placed_but t {h}"
    using placed_but_split [of t n "{h}"] assms by (simp add: insert_commute)
  finally show ?thesis .
qed

lemma scan_TailOfCluster:
  assumes "sized d" "occ (table d) i"
  shows "Suc (nat (TailOfClusterByPosition d i)) =
     scan (same_bucket (table d) (bk (table d) i)) (length (table d)) i"
proof -
  have "Suc i \<le> scan (same_bucket (table d) (bk (table d) i)) (length (table d)) i"
    using assms(2) by (intro scan_step) (auto simp: occ_def same_bucket_def)
  then show ?thesis
    using assms(1) unfolding TailOfClusterByPosition_def Let_def BucketByPosition_bk
    by (simp add: sized_def same_bucket_def [abs_def])
qed

lemma remove_loop_post:
  assumes "sized d" "holed (table d) h" "remove_loop d h = (d', j)"
  shows "rem_post (table d) (table d') h j \<and> sized d' \<and> d' = d\<lparr>table := table d'\<rparr>"
  using assms
proof (induction d h rule: remove_loop.induct)
  case (1 d h)
  let ?t = "table d"
  have len: "length ?t = cap d" using "1.prems"(1) by (simp add: sized_def)
  have hl: "h < length ?t" using "1.prems"(2) by (simp add: holed_def)
  show ?case
  proof (cases "h + 1 \<ge> cap d \<or> Empty (?t ! (h + 1)) \<or> de_distance (?t ! (h + 1)) = 0")
    case True
    then have d': "d' = set_slot d h (SetEmpty (?t ! h))" "j = h"
      using "1.prems"(3) by (auto simp: remove_loop.simps [of d h])
    then show ?thesis
      using remove_stop [OF "1.prems"(2)] True "1.prems"(1) len
      by simp (simp add: set_slot_def)
  next
    case False
    then have o: "occ ?t (h + 1)" by (simp add: occ_def len)
    define n where "n = nat (TailOfClusterByPosition d (h + 1))"
    define x where "x = (?t ! n)\<lparr>de_distance := de_distance (?t ! n) - of_int (int n - int h)\<rparr>"
    note pi = pull_in [OF "1.prems"(2) o _ scan_TailOfCluster [OF "1.prems"(1) o, folded n_def] x_def]
    have run: "remove_loop (set_slot d h x) n = (d', j)"
      using "1.prems"(3) False unfolding remove_loop.simps [of d h] Let_def x_def n_def by simp
    have ih: "rem_post (?t[h := x]) (table d') n j \<and> sized d' \<and> d' = (set_slot d h x)\<lparr>table := table d'\<rparr>"
      using "1.IH" [OF False n_def refl x_def] "1.prems"(1) pi(6) run False by simp
    then have "pulled ?t (table d') h j"
      using pulled_step [of ?t h x "table d'" n j] pi False hl by (simp add: rem_post_def)
    moreover have "placed (table d') = placed_but ?t {h}"
      using ih placed_pull [of h n ?t x] pi False hl by (simp add: rem_post_def)
    moreover have "d' = d\<lparr>table := table d'\<rparr>" using ih by (simp add: set_slot_def)
    ultimately show ?thesis using ih by (simp add: rem_post_def)
  qed
qed

end
