(* ===== verification/DictMap.thy ===== *)
theory DictMap
  imports DictCluster
begin

text \<open>
  The dictionary as a finite map. \<open>wf_dict\<close> is the invariant of the table while it is being remapped
  incrementally: it is clustered, no key is stored twice, and every entry sits at the bucket of the
  present table size or, up to \<open>remap_end\<close>, of one of the last \<open>remaps\<close> sizes. The lookup over all
  these sizes finds exactly the keys stored; remapping keeps the map; \<open>Insert\<close> and \<open>Remove\<close> change it
  at one key.
\<close>

section \<open>Hashes\<close>

definition fib :: "uint64 \<Rightarrow> nat" where
  "fib h = unat (FibHash h)"

lemma BucketByHash_mod: "BucketByHash h l = fib h mod 2 ^ l"
proof (cases "l = 0")
  case True
  then show ?thesis by (simp add: BucketByHash_def)
next
  case False
  have "drop_bit (64 - l) (push_bit (64 - l) w) = take_bit l w" for w :: uint64
    by (rule bit_eqI) (auto simp: bit_simps)
  then have "BucketByHash h l = unat (take_bit l (FibHash h))"
    using False by (simp add: BucketByHash_def Let_def)
  also have "\<dots> = take_bit l (unat (FibHash h))" by (rule unsigned_take_bit_eq)
  finally show ?thesis by (simp add: fib_def take_bit_eq_mod)
qed

lemma BucketByHash_less: "BucketByHash h l < 2 ^ l"
  by (simp add: BucketByHash_mod)

lemma BucketByHash_mono:
  assumes "l' \<le> l"
  shows "BucketByHash h l' \<le> BucketByHash h l"
proof -
  have "(2 :: nat) ^ l' dvd 2 ^ l" using assms by (rule le_imp_power_dvd)
  then have "fib h mod 2 ^ l mod 2 ^ l' = fib h mod 2 ^ l'" by (rule mod_mod_cancel)
  then show ?thesis unfolding BucketByHash_mod by (metis mod_less_eq_dividend)
qed

text \<open>The bucket in a table of twice the size is the old one or lies in the upper half.\<close>

lemma BucketByHash_double:
  "BucketByHash h (Suc l) = BucketByHash h l \<or> BucketByHash h (Suc l) = BucketByHash h l + 2 ^ l"
proof -
  have "fib h mod 2 ^ Suc l = fib h mod 2 ^ l + 2 ^ l * (fib h div 2 ^ l mod 2)"
    by (simp only: power_Suc2 mod_mult2_eq add.commute)
  moreover have "fib h div 2 ^ l mod 2 = 0 \<or> fib h div 2 ^ l mod 2 = 1" by auto
  ultimately show ?thesis by (auto simp: BucketByHash_mod)
qed

lemma HASH_MASK_bits: "HASH_MASK = mask 32"
  by (simp add: HASH_MASK_def mask_eq_exp_minus_1)

lemma BucketByHash_low [simp]: "BucketByHash (ucast (ucast h :: uint32)) l = BucketByHash h l"
proof -
  have "ucast (ucast h :: uint32) AND mask 32 = (h AND mask 32 :: uint64)"
    by (rule bit_eqI) (auto simp: bit_simps)
  then show ?thesis by (simp add: BucketByHash_mod fib_def FibHash_def HASH_MASK_bits)
qed

section \<open>Keys\<close>

definition entry_ok :: "DictEntry \<Rightarrow> bool" where
  "entry_ok e \<longleftrightarrow> unat (de_key_size e) = length (de_key e)"

definition key_of :: "DictEntry \<Rightarrow> uint32 \<times> byte list" where
  "key_of e = (de_hash e, de_key e)"

lemma Equal_iff:
  assumes "entry_ok e"
  shows "Equal e key h \<longleftrightarrow> key_of e = (ucast h, key)"
proof -
  have "(ucast (de_hash e) XOR h) AND HASH_MASK = 0 \<longleftrightarrow> de_hash e = ucast h"
    (is "?x AND _ = 0 \<longleftrightarrow> _")
  proof
    assume z: "?x AND HASH_MASK = 0"
    show "de_hash e = ucast h"
    proof (rule bit_eqI)
      fix n
      assume "possible_bit TYPE(uint32) n"
      then have "\<not> bit (?x AND HASH_MASK) n \<longleftrightarrow> bit (de_hash e) n = bit (ucast h :: uint32) n"
        by (auto simp: HASH_MASK_bits bit_simps)
      then show "bit (de_hash e) n = bit (ucast h :: uint32) n" using z by simp
    qed
  next
    assume "de_hash e = ucast h"
    then show "?x AND HASH_MASK = 0"
      by (intro bit_eqI) (auto simp: HASH_MASK_bits bit_simps)
  qed
  then show ?thesis using assms by (auto simp: Equal_def key_of_def entry_ok_def)
qed

definition kv :: "DictEntry \<Rightarrow> (uint32 \<times> byte list) \<times> ptr" where
  "kv e = (key_of e, de_value e)"

definition assoc :: "DictEntry list \<Rightarrow> ((uint32 \<times> byte list) \<times> ptr) list" where
  "assoc t = map kv (filter (\<lambda>e. \<not> Empty e) t)"

text \<open>The abstract value of a dictionary: which value is stored for a (32-bit) hash and key.\<close>

definition dict_map :: "Dictionary \<Rightarrow> uint32 \<times> byte list \<Rightarrow> ptr option" where
  "dict_map d = map_of (assoc (table d))"

lemma kv_payload [simp]: "kv (payload e) = kv e" "key_of (payload e) = key_of e"
    "de_hash (payload e) = de_hash e" "entry_ok (payload e) = entry_ok e" "de_value (payload e) = de_value e"
  by (simp_all add: kv_def key_of_def payload_def entry_ok_def)

lemma filter_nth: "filter P xs = map ((!) xs) (filter (\<lambda>i. P (xs ! i)) [0..<length xs])"
  by (metis (no_types, lifting) comp_apply filter_cong filter_map map_nth)

lemma mset_filter_nth: "mset (filter P xs) = image_mset ((!) xs) (mset_set {i. i < length xs \<and> P (xs ! i)})"
proof -
  have "mset (filter (\<lambda>i. P (xs ! i)) [0..<length xs]) = mset_set {i. i < length xs \<and> P (xs ! i)}"
    by (simp flip: mset_set_set)
  then show ?thesis by (subst filter_nth) simp
qed

lemma mset_assoc: "mset (assoc t) = image_mset (\<lambda>x. kv (snd x)) (placed t)"
  unfolding assoc_def mset_map mset_filter_nth
  by (simp add: placed_def placed_but_def image_mset.compositionality comp_def occ_def)

lemma length_assoc: "length (assoc t) = card {p. occ t p}"
  using arg_cong [OF mset_assoc [of t], of size] by (simp add: size_placed)

section \<open>The invariant\<close>

definition home :: "nat \<Rightarrow> DictEntry \<Rightarrow> int" where
  "home l e = int (BucketByHash (ucast (de_hash e)) l)"

text \<open>Every placed entry sits at its bucket for one of the table sizes in use.\<close>

definition placed_ok :: "nat \<Rightarrow> nat \<Rightarrow> (int \<times> DictEntry) multiset \<Rightarrow> bool" where
  "placed_ok l r M \<longleftrightarrow> (\<forall>x \<in># M. entry_ok (snd x) \<and> (\<exists>i \<le> r. fst x = home (l - i) (snd x)))"

definition keys_unique :: "DictEntry list \<Rightarrow> bool" where
  "keys_unique t \<longleftrightarrow> distinct (map fst (assoc t))"

definition shape :: "Dictionary \<Rightarrow> bool" where
  "shape d \<longleftrightarrow> sized d \<and> clustered (table d) \<and> placed_ok (log2_buckets d) (remaps d) (placed (table d)) \<and>
     keys_unique (table d) \<and> num_entries d = int (size (placed (table d))) \<and> num_entries d < 65536 \<and>
     remap_end d < int (cap d) \<and> remaps d \<le> log2_buckets d"

text \<open>Beyond \<open>remap_end\<close> all entries are at the bucket of the present size.\<close>

definition settled :: "Dictionary \<Rightarrow> bool" where
  "settled d \<longleftrightarrow>
     (\<forall>p. occ (table d) p \<and> remap_end d < int p \<longrightarrow> bk (table d) p = home (log2_buckets d) (table d ! p))"

definition wf_dict :: "Dictionary \<Rightarrow> bool" where
  "wf_dict d \<longleftrightarrow>
     (if table d = [] then num_entries d = 0 \<and> remaps d = 0 \<and> remap_end d = -1 else shape d \<and> settled d)"

lemma home_payload [simp]: "home l (payload e) = home l e"
  by (simp add: home_def)

lemma home_mono: "l' \<le> l \<Longrightarrow> home l' e \<le> home l e"
  by (simp add: home_def BucketByHash_mono)

lemma keys_unique_pos:
  assumes "keys_unique t" "occ t p" "occ t q" "key_of (t ! p) = key_of (t ! q)"
  shows "p = q"
proof -
  have "map fst (assoc t) = map (\<lambda>i. key_of (t ! i)) (filter (\<lambda>i. \<not> Empty (t ! i)) [0..<length t])"
    unfolding assoc_def by (subst filter_nth) (simp add: kv_def)
  then have "inj_on (\<lambda>i. key_of (t ! i)) (set (filter (\<lambda>i. \<not> Empty (t ! i)) [0..<length t]))"
    using assms(1) by (simp add: keys_unique_def distinct_map)
  then show ?thesis using assms(2-4) by (auto simp: inj_on_def occ_def)
qed

lemma keys_unique_cong: "mset (assoc t) = mset (assoc t') \<Longrightarrow> keys_unique t = keys_unique t'"
  unfolding keys_unique_def by (metis mset_eq_imp_distinct_iff mset_map)

lemma dict_map_cong:
  assumes "mset (assoc (table d)) = mset (assoc (table d'))" "keys_unique (table d)"
  shows "dict_map d = dict_map d'"
  unfolding dict_map_def
  using assms keys_unique_cong [OF assms(1)]
  by (intro map_of_inject_set [THEN iffD2]) (auto simp: keys_unique_def dest: mset_eq_setD)

lemma set_assoc: "set (assoc t) = {kv (t ! p) | p. occ t p}"
  by (force simp: assoc_def occ_def in_set_conv_nth)

lemma dict_map_Some:
  "keys_unique (table d) \<Longrightarrow>
   dict_map d k = Some v \<longleftrightarrow> (\<exists>p. occ (table d) p \<and> key_of (table d ! p) = k \<and> de_value (table d ! p) = v)"
  by (auto simp: dict_map_def keys_unique_def map_of_eq_Some_iff set_assoc kv_def)

lemma dict_map_None:
  "keys_unique (table d) \<Longrightarrow> dict_map d k = None \<longleftrightarrow> (\<forall>p. occ (table d) p \<longrightarrow> key_of (table d ! p) \<noteq> k)"
  using dict_map_Some [of d k] by (metis not_None_eq)

lemma shape_entry:
  assumes "shape d" "occ (table d) p"
  shows "entry_ok (table d ! p)" "\<exists>i \<le> remaps d. bk (table d) p = home (log2_buckets d - i) (table d ! p)"
proof -
  have "(bk (table d) p, payload (table d ! p)) \<in># placed (table d)" using assms(2) by (auto simp: in_placed)
  with assms(1) have "entry_ok (payload (table d ! p)) \<and>
      (\<exists>i \<le> remaps d. bk (table d) p = home (log2_buckets d - i) (payload (table d ! p)))"
    unfolding shape_def placed_ok_def by fastforce
  then show "entry_ok (table d ! p)" "\<exists>i \<le> remaps d. bk (table d) p = home (log2_buckets d - i) (table d ! p)"
    by simp_all
qed

section \<open>Searching a cluster\<close>

lemma lookup_loop_Some:
  "lookup_loop d key h b end i = (Some p, q) \<Longrightarrow>
   q = p \<and> i \<le> p \<and> p < end \<and> \<not> Empty (table d ! p) \<and> bk (table d) p = int b \<and> Equal (table d ! p) key h"
proof (induction d key h b "end" i rule: lookup_loop.induct)
  case (1 d key h b "end" i)
  then show ?case
    by (subst (asm) lookup_loop.simps [of d key h b "end" i])
      (auto simp: BucketByPosition_bk split: if_splits)
qed

lemma lookup_loop_None:
  "lookup_loop d key h b end i = (None, q) \<Longrightarrow>
   q = scan (\<lambda>i. \<not> Empty (table d ! i) \<and> BucketByPosition d i \<le> int b) end i \<and>
   (\<forall>p. i \<le> p \<and> p < q \<longrightarrow> \<not> (bk (table d) p = int b \<and> Equal (table d ! p) key h))"
proof (induction d key h b "end" i rule: lookup_loop.induct)
  case (1 d key h b "end" i)
  let ?P = "\<lambda>i. \<not> Empty (table d ! i) \<and> BucketByPosition d i \<le> int b"
  show ?case
  proof (cases "i < end \<and> ?P i")
    case True
    then have ne: "\<not> (bk (table d) i = int b \<and> Equal (table d ! i) key h)"
        and run: "lookup_loop d key h b end (i + 1) = (None, q)"
      using "1.prems" by (auto simp: lookup_loop.simps [of d key h b "end" i] BucketByPosition_bk split: if_splits)
    have eq: "scan ?P end i = scan ?P end (i + 1)" using True by (subst scan.simps) simp
    have ih: "q = scan ?P end (i + 1)"
        "\<And>p. i + 1 \<le> p \<Longrightarrow> p < q \<Longrightarrow> \<not> (bk (table d) p = int b \<and> Equal (table d ! p) key h)"
      using "1.IH" [OF True _ run] ne by (auto simp: BucketByPosition_bk)
    have "\<not> (bk (table d) p = int b \<and> Equal (table d ! p) key h)" if "i \<le> p" "p < q" for p
      using ih(2) [of p] ne that by (cases "p = i") auto
    then show ?thesis using ih(1) eq by simp
  next
    case False
    then show ?thesis using "1.prems" by (auto simp: lookup_loop.simps [of d key h b "end" i] scan_stay)
  qed
qed

text \<open>A key stored in the cluster of bucket \<open>b\<close> before \<open>end\<close> is found, and nothing else.\<close>

lemma LookupIndexIn_hit:
  assumes s: "shape d" and o: "occ (table d) p" and k: "key_of (table d ! p) = (ucast h, key)"
    and b: "bk (table d) p = int b" and e: "p < end" "end \<le> cap d"
  shows "fst (LookupIndexIn d key h b end) = Some p"
proof -
  let ?P = "\<lambda>i. \<not> Empty (table d ! i) \<and> BucketByPosition d i \<le> int b"
  have c: "clustered (table d)" "length (table d) = cap d" using s by (auto simp: shape_def sized_def)
  have bp: "b \<le> p" using b bk_le [of "table d" p] by simp
  have run: "?P q" if "b \<le> q" "q \<le> p" for q
    using c(1) o b that by (auto simp: clustered_def occ_def BucketByPosition_bk)
  have past: "p < scan ?P end b"
  proof (rule ccontr)
    assume "\<not> p < scan ?P end b"
    then show False using scan_stop [of ?P "end" b] run scan_ge [of b ?P "end"] e(1) by (meson le_less_trans not_less)
  qed
  obtain r q where r: "LookupIndexIn d key h b end = (r, q)" by force
  show ?thesis
  proof (cases r)
    case None
    then show ?thesis
      using lookup_loop_None [of d key h b "end" b q] r past bp b k shape_entry(1) [OF s o]
      by (auto simp: LookupIndexIn_def Equal_iff)
  next
    case (Some p')
    then have p': "p' < end" "\<not> Empty (table d ! p')" "Equal (table d ! p') key h"
      using lookup_loop_Some [of d key h b "end" b p' q] r by (auto simp: LookupIndexIn_def)
    then have o': "occ (table d) p'" using e c(2) by (simp add: occ_def)
    then have "p' = p"
      using keys_unique_pos [OF _ o' o] s k p'(3) shape_entry(1) [OF s o'] by (simp add: shape_def Equal_iff)
    then show ?thesis using r Some by simp
  qed
qed

lemma LookupIndexIn_only:
  assumes "shape d" "fst (LookupIndexIn d key h b end) = Some p" "end \<le> cap d"
  shows "occ (table d) p \<and> key_of (table d ! p) = (ucast h, key) \<and> bk (table d) p = int b \<and> p < end"
proof -
  obtain q where "lookup_loop d key h b end b = (Some p, q)"
    using assms(2) by (cases "lookup_loop d key h b end b") (auto simp: LookupIndexIn_def)
  from lookup_loop_Some [OF this] have "p < end" "\<not> Empty (table d ! p)" "bk (table d) p = int b"
      "Equal (table d ! p) key h"
    by auto
  moreover from this(1,2) have "occ (table d) p" using assms(1,3) by (simp add: occ_def shape_def sized_def)
  ultimately show ?thesis using shape_entry(1) [OF assms(1)] by (simp add: Equal_iff)
qed

end
