(* ===== verification/DictRemap.thy ===== *)
theory DictRemap
  imports DictMap
begin

text \<open>
  Growth and incremental remapping of the dictionary. \<open>SizeUp\<close> and the two \<open>Remap\<close> functions change
  where entries sit but not which entries there are. The loop \<open>Remap()\<close>, which works at \<open>remap_end\<close>,
  keeps the invariant for any number of unfinished growths; \<open>Remap(position)\<close>, called by a lookup in
  the middle of the old zone, keeps it when no old entry behind the position has a bucket above the new
  bucket of the entry moved, in particular when only one growth is unfinished.
\<close>

section \<open>Growth\<close>

text \<open>Everything but the table, its size and the remapping state is the same.\<close>

definition same_rest :: "Dictionary \<Rightarrow> Dictionary \<Rightarrow> bool" where
  "same_rest d d' \<longleftrightarrow>
     d' = d\<lparr>remaps := remaps d', log2_buckets := log2_buckets d', remap_end := remap_end d', table := table d'\<rparr>"

lemma same_rest_fields:
  assumes "same_rest d d'"
  shows "num_iterators d' = num_iterators d" "num_entries d' = num_entries d" "max_entries d' = max_entries d"
    "cum_entries d' = cum_entries d" "delete_func d' = delete_func d" "cookies d' = cookies d"
    "order d' = order d" "cookie_store d' = cookie_store d" "fresh_cookie d' = fresh_cookie d"
  using arg_cong [OF assms [unfolded same_rest_def], of num_iterators]
    arg_cong [OF assms [unfolded same_rest_def], of num_entries]
    arg_cong [OF assms [unfolded same_rest_def], of max_entries]
    arg_cong [OF assms [unfolded same_rest_def], of cum_entries]
    arg_cong [OF assms [unfolded same_rest_def], of delete_func]
    arg_cong [OF assms [unfolded same_rest_def], of cookies]
    arg_cong [OF assms [unfolded same_rest_def], of order]
    arg_cong [OF assms [unfolded same_rest_def], of cookie_store]
    arg_cong [OF assms [unfolded same_rest_def], of fresh_cookie]
  by simp_all

lemma same_rest_refl [simp]: "same_rest d d"
  by (simp add: same_rest_def)

lemma same_rest_trans: "same_rest d d' \<Longrightarrow> same_rest d' d'' \<Longrightarrow> same_rest d d''"
  by (cases d, cases d', cases d'') (auto simp: same_rest_def)

lemma SizeUp_fields [simp]:
  "log2_buckets (SizeUp d) = Suc (log2_buckets d)" "remaps (SizeUp d) = Suc (remaps d)"
  "remap_end (SizeUp d) = int (cap d)"
  by (simp_all add: SizeUp_def Let_def)

lemma SizeUp_same_rest: "same_rest d (SizeUp d)"
  by (simp add: same_rest_def SizeUp_def Let_def)

lemma grown_cases:
  assumes "grown d d' j"
  shows "same_rest d d'"
    "(j < cap d \<and> log2_buckets d' = log2_buckets d \<and> remaps d' = remaps d \<and> remap_end d' = remap_end d) \<or>
     (j = cap d \<and> log2_buckets d' = Suc (log2_buckets d) \<and> remaps d' = Suc (remaps d) \<and> remap_end d' = int (cap d))"
proof -
  show "same_rest d d'"
  proof (cases "j < cap d")
    case True
    then show ?thesis using assms by (cases d, cases d') (auto simp: grown_def same_rest_def)
  next
    case False
    then have "d' = (SizeUp d)\<lparr>table := table d'\<rparr>" using assms by (simp add: grown_def)
    then have "same_rest (SizeUp d) d'" by (cases "SizeUp d", cases d') (auto simp: same_rest_def)
    then show ?thesis using SizeUp_same_rest same_rest_trans by blast
  qed
  show "(j < cap d \<and> log2_buckets d' = log2_buckets d \<and> remaps d' = remaps d \<and> remap_end d' = remap_end d) \<or>
     (j = cap d \<and> log2_buckets d' = Suc (log2_buckets d) \<and> remaps d' = Suc (remaps d) \<and> remap_end d' = int (cap d))"
    using assms
    by (cases "j < cap d")
      (auto simp: grown_def dest: arg_cong [of _ _ log2_buckets] arg_cong [of _ _ remaps] arg_cong [of _ _ remap_end])
qed

lemma cap_mono: "sized d \<Longrightarrow> sized d' \<Longrightarrow> log2_buckets d' = Suc (log2_buckets d) \<Longrightarrow> cap d < cap d'"
  by (simp add: sized_def Capacity_def)

lemma cap_same: "sized d \<Longrightarrow> sized d' \<Longrightarrow> log2_buckets d' = log2_buckets d \<Longrightarrow> cap d' = cap d"
  by (simp add: sized_def Capacity_def)

lemma placed_ok_Suc: "placed_ok l r M \<Longrightarrow> placed_ok (Suc l) (Suc r) M"
  unfolding placed_ok_def by (metis Suc_le_mono diff_Suc_Suc)

lemma placed_ok_grown:
  assumes "placed_ok (log2_buckets d) (remaps d) M" "grown d d' j"
  shows "placed_ok (log2_buckets d') (remaps d') M"
  using grown_cases(2) [OF assms(2)] assms(1) by (auto intro: placed_ok_Suc)

lemma remaps_grown:
  assumes "remaps d \<le> log2_buckets d" "remap_end d < int (cap d)" "grown d d' j" "sized d" "sized d'"
  shows "remaps d' \<le> log2_buckets d' \<and> remap_end d' < int (cap d')"
  using grown_cases(2) [OF assms(3)] assms cap_mono [of d d'] cap_same [of d d'] by auto

lemma SizeUp_shape:
  assumes "shape d"
  shows "shape (SizeUp d)" "settled (SizeUp d)" "dict_map (SizeUp d) = dict_map d"
proof -
  have s: "sized d" using assms by (simp add: shape_def)
  obtain k where k: "table (SizeUp d) = table d @ replicate k fresh_slot" using SizeUp_table [OF s] by blast
  have pl: "placed (table (SizeUp d)) = placed (table d)" by (simp add: k placed_append)
  have as: "mset (assoc (table (SizeUp d))) = mset (assoc (table d))" by (simp add: mset_assoc pl)
  have ku: "keys_unique (table (SizeUp d))" using keys_unique_cong [OF as] assms by (simp add: shape_def)
  then show "dict_map (SizeUp d) = dict_map d" using dict_map_cong [OF as] by simp
  show "shape (SizeUp d)"
    using assms ku SizeUp_sized [OF s] cap_mono [OF s SizeUp_sized [OF s]]
      same_rest_fields [OF SizeUp_same_rest [of d]]
    by (simp add: shape_def pl placed_ok_Suc) (simp add: k clustered_append)
  show "settled (SizeUp d)"
    using s by (auto simp: settled_def k occ_def sized_def nth_append fresh_slot_def split: if_splits)
qed

section \<open>Inserting at the end of a cluster\<close>

lemma BucketByHash_cap: "sized d \<Longrightarrow> BucketByHash h (log2_buckets d) < cap d"
  using BucketByHash_less [of h "log2_buckets d"] by (simp add: sized_def Capacity_def)

lemma fits_at_end:
  assumes s: "sized d" and b: "b < cap d" and i: "i = EndOfClusterByBucket d b"
    and card: "card {p. occ (table d) p} < 65535"
    and x: "x = e\<lparr>de_distance := of_int (int i - int b)\<rparr>"
  shows "b \<le> i" "int i - int (dist x) = int b" "\<not> Empty x" "fits (table d) x i" "payload x = payload e"
proof -
  let ?P = "\<lambda>q. \<not> Empty (table d ! q) \<and> BucketByPosition d q \<le> int b"
  have len: "length (table d) = cap d" using s by (simp add: sized_def)
  show bi: "b \<le> i" using i scan_ge by (simp add: EndOfClusterByBucket_def)
  have run: "occ (table d) q \<and> bk (table d) q \<le> int b" if "b \<le> q" "q < i" for q
    using scan_holds [of b q ?P "cap d"] that i len
    by (simp add: EndOfClusterByBucket_def occ_def BucketByPosition_bk)
  have "int i - int b \<le> int (card {p. occ (table d) p})"
    by (rule run_card) (use run in auto)
  then have small: "i - b < 65535" using card bi by linarith
  have "dist x = i - b"
  proof -
    have eq: "int i - int b = int (i - b)" using bi by (simp add: of_nat_diff)
    have "unat (of_int (int (i - b)) :: uint16) = (i - b) mod 65536"
      unfolding of_int_of_nat_eq unat_of_nat by simp
    then show ?thesis using small unfolding x dist_def eq by simp
  qed
  then show bx: "int i - int (dist x) = int b" and ne: "\<not> Empty x" using bi small by (auto simp: Empty_iff)
  have "int b < bk (table d) i" if "occ (table d) i"
    using scan_stop [of ?P "cap d" b] that i len by (auto simp: EndOfClusterByBucket_def occ_def BucketByPosition_bk)
  moreover have "i \<le> length (table d)" using scan_le [of b "cap d" ?P] b i len by (simp add: EndOfClusterByBucket_def)
  ultimately show "fits (table d) x i" using run ne by (simp add: fits_def bx)
  show "payload x = payload e" by (simp add: x payload_def)
qed

section \<open>Remapping one entry\<close>

lemma sized_frame: "sized d \<Longrightarrow> length t = length (table d) \<Longrightarrow> sized (d\<lparr>table := t\<rparr>)"
  by (auto simp: sized_def Capacity_def)

lemma table_frame:
  assumes "d1 = d\<lparr>table := t\<rparr>"
  shows "log2_buckets d1 = log2_buckets d" "remaps d1 = remaps d" "remap_end d1 = remap_end d" "same_rest d d1"
  using assms by (simp_all add: same_rest_def)

lemma shape_card: "shape d \<Longrightarrow> card {p. occ (table d) p} < 65536"
  by (simp add: shape_def size_placed)

lemma card_removed:
  assumes "rem_post t t' p j" "occ t p" "card {p. occ t p} < 65536"
  shows "card {p. occ t' p} < 65535"
proof -
  have "placed t = add_mset (bk t p, payload (t ! p)) (placed t')"
    using assms(1) placed_but_split [OF assms(2), of "{}"] by (simp add: rem_post_def placed_def)
  from arg_cong [OF this, of size] show ?thesis using assms(3) by (simp add: size_placed)
qed

text \<open>The two relocations of \<open>Remap(position)\<close>, with the table between them.\<close>

lemma RemapAt_steps:
  assumes s: "shape d" and o: "occ (table d) p" and old: "bk (table d) p \<noteq> home (log2_buckets d) (table d ! p)"
  obtains d1 j1 ip x d2 j2 where
    "rem_post (table d) (table d1) p j1" "sized d1" "d1 = d\<lparr>table := table d1\<rparr>"
    "int ip - int (dist x) = home (log2_buckets d) (table d ! p)" "payload x = payload (table d ! p)"
    "\<not> Empty x" "fits (table d1) x ip"
    "ins_post (table d1) (table d2) x ip j2" "sized d2" "grown d1 d2 j2" "RemapAt d p = (Some ip, d2)"
proof -
  let ?E = "BucketByHash (ucast (de_hash (table d ! p))) (log2_buckets d)"
  have sz: "sized d" and pl: "p < length (table d)" using s o by (auto simp: shape_def occ_def)
  obtain d1 j1 where r1: "remove_loop d p = (d1, j1)" by force
  have h: "holed (table d) p" using clustered_holed [OF _ pl] s by (simp add: shape_def)
  note r = remove_loop_post [OF sz h r1]
  have d1: "d1 = d\<lparr>table := table d1\<rparr>" and rp: "rem_post (table d) (table d1) p j1" and s1: "sized d1"
    using r by auto
  have l1: "log2_buckets d1 = log2_buckets d" using table_frame [OF d1] by simp
  let ?ip = "EndOfClusterByBucket d1 ?E"
  let ?x = "(table d ! p)\<lparr>de_distance := of_int (int ?ip - int ?E)\<rparr>"
  have E: "?E < cap d1" using BucketByHash_cap [OF s1] l1 by metis
  have card: "card {q. occ (table d1) q} < 65535" using card_removed [OF rp o shape_card [OF s]] .
  note f = fits_at_end [OF s1 E refl card, where e = "table d ! p", OF refl]
  obtain d2 e2 j2 where r2: "InsertAndRelocate d1 ?x ?ip = (d2, e2, j2)" by (metis prod_cases3)
  have c1: "clustered (table d1)" using rp by (simp add: rem_post_def)
  note i2 = InsertAndRelocate_post [OF s1 c1 f(4) card r2]
  have "RemapAt d p = (Some ?ip, d2)"
    using old r1 r2 by (simp add: RemapAt_def RemoveAndRelocate_def Let_def BucketByPosition_bk home_def l1)
  then show thesis
    using that [of d1 j1 ?ip ?x d2 j2] rp s1 d1 f(2,3,4,5) i2 by (auto simp: home_def)
qed

lemma rem_post_origin:
  assumes "rem_post t t1 p j" "occ t1 q" "occ t p"
  obtains q0 where "q \<le> q0" "q0 \<noteq> p" "occ t q0" "bk t q0 = bk t1 q" "payload (t ! q0) = payload (t1 ! q)"
proof -
  have pu: "pulled t t1 p j" using assms(1) by (simp add: rem_post_def)
  show thesis
  proof (cases "p \<le> q \<and> q < j")
    case True
    then obtain q0 where "p < q0" "q \<le> q0" "occ t q0" "bk t q0 = bk t1 q" "payload (t ! q0) = payload (t1 ! q)"
      using pu unfolding pulled_def by blast
    then show thesis using that by blast
  next
    case False
    then have "q \<noteq> j" using pu assms(2) by (auto simp: pulled_def)
    with False have "t1 ! q = t ! q" "q \<noteq> p" using pu by (auto simp: pulled_def)
    then show thesis using that [of q] pu assms(2) by (simp add: occ_def pulled_def bk_def)
  qed
qed

lemma RemapAt_shape:
  assumes s: "shape d" and o: "occ (table d) p" and old: "bk (table d) p \<noteq> home (log2_buckets d) (table d ! p)"
  obtains ip d' where "RemapAt d p = (Some ip, d')" "shape d'" "same_rest d d'" "dict_map d' = dict_map d"
    "occ (table d') ip" "payload (table d' ! ip) = payload (table d ! p)"
proof -
  from RemapAt_steps [OF s o old] obtain d1 j1 ip x d2 j2 where
    r: "rem_post (table d) (table d1) p j1" "sized d1" "d1 = d\<lparr>table := table d1\<rparr>"
    and x: "int ip - int (dist x) = home (log2_buckets d) (table d ! p)" "payload x = payload (table d ! p)" "\<not> Empty x"
    and i: "ins_post (table d1) (table d2) x ip j2" "sized d2" "grown d1 d2 j2" "RemapAt d p = (Some ip, d2)"
    by metis
  let ?M = "placed_but (table d) {p}"
  have pt: "placed (table d) = add_mset (bk (table d) p, payload (table d ! p)) ?M"
    using placed_but_split [OF o, of "{}"] by (simp add: placed_def)
  have p2: "placed (table d2) = add_mset (home (log2_buckets d) (table d ! p), payload (table d ! p)) ?M"
    using i(1) r(1) x(1,2) by (simp add: ins_post_def rem_post_def)
  have as: "mset (assoc (table d2)) = mset (assoc (table d))" by (simp add: mset_assoc pt p2)
  have f1: "log2_buckets d1 = log2_buckets d" "remaps d1 = remaps d" "remap_end d1 = remap_end d"
      "same_rest d d1"
    using table_frame [OF r(3)] by auto
  have sr: "same_rest d d2" using same_rest_trans [OF f1(4) grown_cases(1) [OF i(3)]] .
  have cap1: "cap d1 = cap d" using cap_same [OF _ r(2) f1(1)] s by (simp add: shape_def)
  have "placed_ok (log2_buckets d) (remaps d) (placed (table d2))"
    using s by (auto simp: shape_def placed_ok_def p2 pt intro!: exI [of _ 0])
  then have po: "placed_ok (log2_buckets d2) (remaps d2) (placed (table d2))"
    using placed_ok_grown [OF _ i(3)] f1 by simp
  have ku: "keys_unique (table d2)" using keys_unique_cong [OF as] s by (simp add: shape_def)
  have re: "remaps d2 \<le> log2_buckets d2 \<and> remap_end d2 < int (cap d2)"
    using remaps_grown [OF _ _ i(3) r(2) i(2)] s f1 cap1 by (simp add: shape_def)
  have "size (placed (table d2)) = size (placed (table d))" by (simp add: pt p2)
  moreover have "clustered (table d2)" using i(1) by (simp add: ins_post_def)
  ultimately have "shape d2"
    using s i(2) po ku re same_rest_fields(2) [OF sr] by (simp add: shape_def)
  moreover have "ip < length (table d2)" "table d2 ! ip = x" using i(1) by (auto simp: ins_post_def pushed_def)
  ultimately show thesis
    using that [OF i(4)] sr x(2,3) dict_map_cong [OF as ku] by (simp add: occ_def)
qed

lemma settled_grown:
  assumes "ins_post t t' x ip j" "length t = cap d" "grown d d' j" "log2_buckets d' \<noteq> log2_buckets d" "table d' = t'"
  shows "settled d'"
proof -
  have j: "j = cap d" "remap_end d' = int (cap d)" using grown_cases(2) [OF assms(3)] assms(4) by auto
  have "\<not> occ t' q" if "cap d < q" for q
    using assms(1,2) that j(1) by (simp add: ins_post_def pushed_def occ_def)
  then show ?thesis using j(2) assms(5) by (auto simp: settled_def)
qed

lemma RemapAt_settled:
  assumes s: "shape d" and o: "occ (table d) p" and old: "bk (table d) p \<noteq> home (log2_buckets d) (table d ! p)"
    and st: "settled d" and R: "RemapAt d p = (Some ip, d')"
    and behind: "\<And>q. occ (table d) q \<Longrightarrow> p < q \<Longrightarrow> bk (table d) q \<noteq> home (log2_buckets d) (table d ! q) \<Longrightarrow>
      bk (table d) q \<le> home (log2_buckets d) (table d ! p)"
  shows "settled d'"
proof -
  let ?t = "table d" and ?l = "log2_buckets d"
  from RemapAt_steps [OF s o old] R obtain d1 j1 x j2 where
    r: "rem_post ?t (table d1) p j1" "sized d1" "d1 = d\<lparr>table := table d1\<rparr>"
    and x: "int ip - int (dist x) = home ?l (?t ! p)" "payload x = payload (?t ! p)" "fits (table d1) x ip"
    and i: "ins_post (table d1) (table d') x ip j2" "sized d'" "grown d1 d' j2"
    by (metis (no_types) option.inject prod.inject)
  let ?t1 = "table d1" and ?t2 = "table d'"
  have c: "clustered ?t" "clustered ?t1" using s r(1) by (auto simp: shape_def rem_post_def)
  have l1: "log2_buckets d1 = ?l" "remap_end d1 = remap_end d" using table_frame [OF r(3)] by auto
  have low: "bk ?t p < home ?l (?t ! p)"
    using shape_entry(2) [OF s o] old home_mono [of "?l - _" ?l] by (metis diff_le_self order_le_less)
  have kept: "bk ?t1 q = home ?l (?t1 ! q)" if q: "occ ?t1 q" "remap_end d < int q \<or> home ?l (?t ! p) < bk ?t1 q" for q
  proof -
    from rem_post_origin [OF r(1) q(1) o] obtain q0 where
      q0: "q \<le> q0" "q0 \<noteq> p" "occ ?t q0" "bk ?t q0 = bk ?t1 q" "payload (?t ! q0) = payload (?t1 ! q)" .
    have "bk ?t q0 = home ?l (?t ! q0)"
    proof (rule ccontr)
      assume no: "bk ?t q0 \<noteq> home ?l (?t ! q0)"
      then have "int q0 \<le> remap_end d" using st q0(3) by (auto simp: settled_def not_less)
      then have big: "home ?l (?t ! p) < bk ?t q0" using q(2) q0(1,4) by auto
      then have "q0 < p" using behind [OF q0(3) _ no] q0(2) by (meson not_less nat_neq_iff)
      then show False using clustered_mono [OF c(1) o q0(3)] big low by auto
    qed
    then show ?thesis using q0(4,5) by (metis home_payload)
  qed
  show ?thesis
  proof (cases "log2_buckets d' = ?l")
    case False
    then show ?thesis using settled_grown [OF i(1) _ i(3) _ refl] r(2) l1 by (simp add: sized_def)
  next
    case True
    then have re: "remap_end d' = remap_end d" using grown_cases(2) [OF i(3)] l1 by auto
    have pu: "pushed ?t1 ?t2 x ip j2" using i(1) by (simp add: ins_post_def)
    have "bk ?t2 q = home ?l (?t2 ! q)" if q: "occ ?t2 q" "remap_end d < int q" for q
    proof -
      consider "q = ip" | "ip < q" "q \<le> j2" | "q < ip \<or> j2 < q" by linarith
      then show ?thesis
      proof cases
        case 1
        then have "?t2 ! q = x" using pu by (simp add: pushed_def)
        then show ?thesis using 1 x(1,2) by (simp add: bk_def) (metis home_payload)
      next
        case 2
        then obtain q0 where q0: "ip \<le> q0" "q0 \<le> q" "occ ?t1 q0" "bk ?t1 q0 = bk ?t2 q"
            "payload (?t1 ! q0) = payload (?t2 ! q)"
          using pu unfolding pushed_def by blast
        have "home ?l (?t ! p) < bk ?t1 q0"
          using fits_below [OF c(2) x(3) q0(3,1)] x(1) by simp
        then show ?thesis using kept [OF q0(3)] q0(4,5) by (metis home_payload)
      next
        case 3
        then have "occ ?t1 q" "?t2 ! q = ?t1 ! q" using pu q(1) by (auto simp: pushed_def occ_def)
        then show ?thesis using kept [of q] q(2) by (simp add: bk_def)
      qed
    qed
    then show ?thesis using True re by (simp add: settled_def)
  qed
qed

text \<open>With at most one unfinished growth no entry behind stands in the way.\<close>

lemma one_remap_behind:
  assumes s: "shape d" and r: "remaps d \<le> 1" and o: "occ (table d) p" "occ (table d) q"
    and old: "bk (table d) p \<noteq> home (log2_buckets d) (table d ! p)"
      "bk (table d) q \<noteq> home (log2_buckets d) (table d ! q)"
  shows "bk (table d) q \<le> home (log2_buckets d) (table d ! p)"
proof -
  have lev: "bk (table d) k = home (log2_buckets d - 1) (table d ! k)" "log2_buckets d \<noteq> 0"
    if k: "occ (table d) k" "bk (table d) k \<noteq> home (log2_buckets d) (table d ! k)" for k
  proof -
    obtain i where i: "i \<le> remaps d" "bk (table d) k = home (log2_buckets d - i) (table d ! k)"
      using shape_entry(2) [OF s k(1)] by blast
    with k(2) have "i \<noteq> 0" by (metis diff_zero)
    with i r have "i = 1" by simp
    with i show "bk (table d) k = home (log2_buckets d - 1) (table d ! k)" by simp
    with k(2) show "log2_buckets d \<noteq> 0" by (metis diff_0_eq_0)
  qed
  obtain l where l: "log2_buckets d = Suc l" using lev(2) [OF o(1) old(1)] not0_implies_Suc by blast
  let ?h = "\<lambda>k. ucast (de_hash (table d ! k)) :: uint64"
  have "BucketByHash (?h p) (Suc l) = BucketByHash (?h p) l + 2 ^ l"
    using lev(1) [OF o(1) old(1)] old(1) BucketByHash_double [of "?h p" l] l by (auto simp: home_def)
  then have "BucketByHash (?h q) l \<le> BucketByHash (?h p) (Suc l)"
    using BucketByHash_less [of "?h q" l] by linarith
  then show ?thesis using lev(1) [OF o(2) old(2)] l by (simp add: home_def)
qed

section \<open>The remapping loop\<close>

lemma remap_loop_wf:
  assumes "shape d" "settled d"
  shows "shape (remap_loop d left) \<and> settled (remap_loop d left) \<and> same_rest d (remap_loop d left) \<and>
    dict_map (remap_loop d left) = dict_map d"
  using assms
proof (induction d left rule: remap_loop.induct)
  case (1 d left)
  let ?p = "nat (remap_end d)"
  show ?case
  proof (cases "remap_end d \<ge> 0 \<and> left > 0")
    case False
    then have "remap_loop d left = d" by (subst remap_loop.simps) auto
    then show ?thesis using "1.prems" by simp
  next
    case go: True
    have pc: "?p < length (table d)" using "1.prems"(1) go by (auto simp: shape_def sized_def)
    show ?thesis
    proof (cases "\<not> Empty (table d ! ?p) \<and> bk (table d) ?p \<noteq> home (log2_buckets d) (table d ! ?p)")
      case True
      then have o: "occ (table d) ?p" using pc by (simp add: occ_def)
      from RemapAt_shape [OF "1.prems"(1) o] True obtain ip d' where
        R: "RemapAt d ?p = (Some ip, d')" "shape d'" "same_rest d d'" "dict_map d' = dict_map d"
        by metis
      have "settled d'"
        by (rule RemapAt_settled [OF "1.prems"(1) o _ "1.prems"(2) R(1)])
          (use True "1.prems"(2) go in \<open>auto simp: settled_def\<close>)
      moreover have "remap_loop d left = remap_loop d' (left - 1)"
        using go True R(1) by (simp add: remap_loop.simps [of d left])
      moreover have r: "(Some ip, d') = (if \<not> Empty (table d ! ?p) then RemapAt d ?p else (None, d))"
        using True R(1) by simp
      note ih = "1.IH"(1) [OF go r, unfolded fst_conv snd_conv]
      ultimately show ?thesis using ih [OF _ R(2)] R(3,4) same_rest_trans [OF R(3)] by simp
    next
      case False
      let ?d = "d\<lparr>remap_end := remap_end d - 1\<rparr>"
      have no: "\<not> Empty (table d ! ?p) \<Longrightarrow> RemapAt d ?p = (None, d)"
        using False by (simp add: RemapAt_def BucketByPosition_bk home_def)
      have shape: "shape ?d" using "1.prems"(1) by (auto simp: shape_def sized_def Capacity_def)
      have "settled ?d"
        unfolding settled_def
      proof (intro allI impI, goal_cases)
        case (1 p)
        then have "remap_end d < int p \<or> p = ?p" using go by auto
        then show ?case using 1 "1.prems"(2) False by (auto simp: settled_def occ_def)
      qed
      moreover have "remap_loop d left = remap_loop ?d left"
        using go no by (cases "Empty (table d ! ?p)") (simp_all add: remap_loop.simps [of d left])
      moreover have sr: "same_rest d ?d" "dict_map ?d = dict_map d" by (simp_all add: same_rest_def dict_map_def)
      moreover have r: "(None, d) = (if \<not> Empty (table d ! ?p) then RemapAt d ?p else (None, d))"
        using no by simp
      note ih = "1.IH"(2) [OF go r, unfolded fst_conv snd_conv]
      ultimately show ?thesis using ih [OF _ shape] same_rest_trans [OF sr(1)] by simp
    qed
  qed
qed

lemma Remap_wf:
  assumes "shape d" "settled d"
  shows "shape (Remap d)" "settled (Remap d)" "same_rest d (Remap d)" "dict_map (Remap d) = dict_map d"
proof -
  let ?d = "remap_loop d DICT_REMAP_ENTRIES"
  note w = remap_loop_wf [OF assms, of DICT_REMAP_ENTRIES]
  have fin: "shape (?d\<lparr>remaps := 0\<rparr>)" "settled (?d\<lparr>remaps := 0\<rparr>)" if "remap_end ?d < 0"
  proof -
    have all: "bk (table ?d) p = home (log2_buckets ?d) (table ?d ! p)" if "occ (table ?d) p" for p
      using w that \<open>remap_end ?d < 0\<close> by (auto simp: settled_def)
    have "placed_ok (log2_buckets ?d) 0 (placed (table ?d))"
      using all shape_entry(1) [of ?d] w by (auto simp: placed_ok_def in_placed)
    then show "shape (?d\<lparr>remaps := 0\<rparr>)" using w by (auto simp: shape_def sized_def Capacity_def)
    show "settled (?d\<lparr>remaps := 0\<rparr>)" using w by (simp add: settled_def)
  qed
  show "shape (Remap d)" "settled (Remap d)" using assms w fin by (auto simp: Remap_def Let_def)
  show "same_rest d (Remap d)"
    using w same_rest_trans [of d ?d "?d\<lparr>remaps := 0\<rparr>"] by (simp add: Remap_def Let_def) (simp add: same_rest_def)
  show "dict_map (Remap d) = dict_map d" using w by (simp add: Remap_def Let_def dict_map_def)
qed

end
