(* ===== verification/MapSpec.thy ===== *)
theory MapSpec
  imports Prelude
begin

text \<open>
  The contract of a dictionary: an abstract map from keys to pointers, and what lookups, insertions
  and removals return and do to it. Clients are sequences of operations. The locale states the laws of
  one operation; inside it a run of operations is shown to return, step by step, what the abstract map
  returns, and an insertion or removal to be visible at its key only.
\<close>

section \<open>Abstract maps\<close>

datatype 'k map_op = LookupOp 'k | InsertOp 'k ptr | RemoveOp 'k

definition value_or_null :: "ptr option \<Rightarrow> ptr" where
  "value_or_null x = (case x of None \<Rightarrow> NULL | Some v \<Rightarrow> v)"

fun map_step :: "('m \<Rightarrow> ptr option) \<Rightarrow> 'm map_op \<Rightarrow> ptr \<times> ('m \<Rightarrow> ptr option)" where
  "map_step m (LookupOp k) = (value_or_null (m k), m)"
| "map_step m (InsertOp k v) = (value_or_null (m k), m(k \<mapsto> v))"
| "map_step m (RemoveOp k) = (value_or_null (m k), m(k := None))"

fun map_run :: "('m \<Rightarrow> ptr option) \<Rightarrow> 'm map_op list \<Rightarrow> ptr list \<times> ('m \<Rightarrow> ptr option)" where
  "map_run m [] = ([], m)"
| "map_run m (x # xs) = (let (r, m) = map_step m x; (rs, m) = map_run m xs in (r # rs, m))"

section \<open>Runs of an implementation\<close>

fun run_ops :: "('s \<Rightarrow> 'o \<Rightarrow> 'e + ptr \<times> 's) \<Rightarrow> 's \<Rightarrow> 'o list \<Rightarrow> 'e + ptr list \<times> 's" where
  "run_ops step s [] = Inr ([], s)"
| "run_ops step s (x # xs) =
     (case step s x of
        Inl e \<Rightarrow> Inl e
      | Inr (r, s) \<Rightarrow> (case run_ops step s xs of Inl e \<Rightarrow> Inl e | Inr (rs, s) \<Rightarrow> Inr (r # rs, s)))"

text \<open>Every state the run passes through satisfies the condition of its operation.\<close>

fun run_guarded :: "('s \<Rightarrow> 'o \<Rightarrow> bool) \<Rightarrow> ('s \<Rightarrow> 'o \<Rightarrow> 'e + ptr \<times> 's) \<Rightarrow> 's \<Rightarrow> 'o list \<Rightarrow> bool" where
  "run_guarded ok step s [] = True"
| "run_guarded ok step s (x # xs) =
     (ok s x \<and> (case step s x of Inl e \<Rightarrow> True | Inr (r, s) \<Rightarrow> run_guarded ok step s xs))"

lemma run_ops_append:
  "run_ops step s (xs @ ys) =
     (case run_ops step s xs of
        Inl e \<Rightarrow> Inl e
      | Inr (rs, s) \<Rightarrow> (case run_ops step s ys of Inl e \<Rightarrow> Inl e | Inr (rs', s) \<Rightarrow> Inr (rs @ rs', s)))"
  by (induction xs arbitrary: s) (auto split: sum.splits)

lemma run_guarded_append:
  "run_guarded ok step s (xs @ ys) \<longleftrightarrow> run_guarded ok step s xs \<and>
     (case run_ops step s xs of Inl e \<Rightarrow> True | Inr (rs, s) \<Rightarrow> run_guarded ok step s ys)"
  by (induction xs arbitrary: s) (auto split: sum.splits)

lemma map_run_inserts:
  "snd (map_run m (map (\<lambda>i. InsertOp (K i) (V i)) is)) = fold (\<lambda>i m. m(K i \<mapsto> V i)) is m"
  by (induction "is" arbitrary: m) (auto simp: Let_def case_prod_beta)

lemma map_run_lookups:
  "map_run m (map (\<lambda>i. LookupOp (K i)) is) = (map (\<lambda>i. value_or_null (m (K i))) is, m)"
  by (induction "is") (auto simp: Let_def)

section \<open>The contract\<close>

locale map_impl =
  fixes inv :: "'s \<Rightarrow> bool"
    and abs_map :: "'s \<Rightarrow> 'm \<Rightarrow> ptr option"
    and abs_key :: "'k \<Rightarrow> 'm"
    and ok :: "'s \<Rightarrow> 'k map_op \<Rightarrow> bool"
    and step :: "'s \<Rightarrow> 'k map_op \<Rightarrow> 'e + ptr \<times> 's"
  assumes step_law: "inv s \<Longrightarrow> ok s x \<Longrightarrow>
    \<exists>r s'. step s x = Inr (r, s') \<and> inv s' \<and> map_step (abs_map s) (map_map_op abs_key x) = (r, abs_map s')"
begin

lemma run_refines:
  "inv s \<Longrightarrow> run_guarded ok step s xs \<Longrightarrow>
   \<exists>rs s'. run_ops step s xs = Inr (rs, s') \<and> inv s' \<and>
     map_run (abs_map s) (map (map_map_op abs_key) xs) = (rs, abs_map s')"
proof (induction xs arbitrary: s)
  case Nil
  then show ?case by simp
next
  case (Cons x xs)
  from step_law [OF Cons.prems(1), of x] Cons.prems(2) obtain r s' where
    s': "step s x = Inr (r, s')" "inv s'" "map_step (abs_map s) (map_map_op abs_key x) = (r, abs_map s')"
    by auto
  moreover from this Cons.prems(2) have "run_guarded ok step s' xs" by simp
  ultimately show ?case using Cons.IH [of s'] by fastforce
qed

lemma run_keeps:
  assumes keep: "\<And>s x r s'. inv s \<Longrightarrow> ok s x \<Longrightarrow> P s \<Longrightarrow> step s x = Inr (r, s') \<Longrightarrow> P s'"
  shows "inv s \<Longrightarrow> run_guarded ok step s xs \<Longrightarrow> P s \<Longrightarrow> run_ops step s xs = Inr (rs, s') \<Longrightarrow> P s'"
proof (induction xs arbitrary: s rs)
  case Nil
  then show ?case by simp
next
  case (Cons x xs)
  from step_law [OF Cons.prems(1), of x] Cons.prems(2) obtain r t where
    t: "step s x = Inr (r, t)" "inv t" by auto
  moreover have "P t" using keep [OF Cons.prems(1) _ Cons.prems(3) t(1)] Cons.prems(2) by simp
  moreover obtain rs' where "run_ops step t xs = Inr (rs', s')"
    using Cons.prems(4) t(1) by (auto split: sum.splits)
  ultimately show ?case using Cons.IH [of t] Cons.prems(2) by simp
qed

lemma insert_then_lookup:
  assumes "inv s" "ok s (InsertOp k v)" "step s (InsertOp k v) = Inr (r, s')" "ok s' (LookupOp k')"
  shows "\<exists>s''. step s' (LookupOp k') =
    Inr (if abs_key k' = abs_key k then v else value_or_null (abs_map s (abs_key k')), s'')"
proof -
  have m: "inv s'" "abs_map s' = (abs_map s)(abs_key k \<mapsto> v)"
    using step_law [OF assms(1,2)] assms(3) by auto
  from step_law [OF m(1) assms(4)] show ?thesis by (auto simp: m(2) value_or_null_def)
qed

lemma remove_then_lookup:
  assumes "inv s" "ok s (RemoveOp k)" "step s (RemoveOp k) = Inr (r, s')" "ok s' (LookupOp k')"
  shows "\<exists>s''. step s' (LookupOp k') =
    Inr (if abs_key k' = abs_key k then NULL else value_or_null (abs_map s (abs_key k')), s'')"
proof -
  have m: "inv s'" "abs_map s' = (abs_map s)(abs_key k := None)"
    using step_law [OF assms(1,2)] assms(3) by auto
  from step_law [OF m(1) assms(4)] show ?thesis by (auto simp: m(2) value_or_null_def)
qed

end

end
