(* ===== verification/DictOps.thy ===== *)
theory DictOps
  imports DictRemap MapSpec
begin

text \<open>
  The public operations of the dictionary against its abstract map. \<open>Lookup\<close>, \<open>Insert\<close> and \<open>Remove\<close>
  return what the map says and change it at their key only; the interface of a finite map is a locale,
  interpreted on them.
\<close>

text \<open>
  A lookup remaps the entry it finds in an old bucket. The invariant survives that when at most one
  growth is unfinished; with an iteration under way nothing is remapped.
\<close>

definition remap_safe :: "Dictionary \<Rightarrow> bool" where
  "remap_safe d \<longleftrightarrow> remaps d \<le> 1 \<or> num_iterators d \<noteq> 0"

section \<open>LookupIndex\<close>

lemma unique_hit:
  assumes "shape d" "occ (table d) p" "key_of (table d ! p) = (ucast h, key)"
    "fst (LookupIndexIn d key h b end) = Some q" "end \<le> cap d"
  shows "q = p"
  using LookupIndexIn_only [OF assms(1,4,5)] keys_unique_pos [of "table d" q p] assms(1-3) by (simp add: shape_def)

lemma remap_end_cap: "shape d \<Longrightarrow> nat (remap_end d + 1) \<le> cap d"
  unfolding shape_def by linarith

text \<open>What the loop over the previous sizes answers once it has found position \<open>p\<close>.\<close>

definition found_at :: "Dictionary \<Rightarrow> nat \<Rightarrow> nat option \<times> Dictionary" where
  "found_at d p =
     (if num_iterators d = 0
      then (case RemapAt d p of (Some n, d') \<Rightarrow> (Some n, d') | (None, d') \<Rightarrow> (Some p, d'))
      else (Some p, d))"

lemma prev_loop_hit:
  assumes s: "shape d" and o: "occ (table d) p" and k: "key_of (table d ! p) = (ucast h, key)"
    and r: "int p \<le> remap_end d" and l: "bk (table d) p = home (log2_buckets d - m) (table d ! p)" "m \<le> remaps d"
  shows "i \<le> m \<Longrightarrow> prev_loop d key h i = found_at d p"
proof (induction "m - i" arbitrary: i rule: less_induct)
  case less
  let ?b = "BucketByHash h (log2_buckets d - i)" and ?e = "nat (remap_end d + 1)"
  have e: "?e \<le> cap d" by (rule remap_end_cap [OF s])
  have hit: "fst (LookupIndexIn d key h ?b ?e) = Some p" "int ?b \<le> remap_end d" if "i = m"
  proof -
    have "de_hash (table d ! p) = ucast h" using k by (simp add: key_of_def)
    then have b: "bk (table d) p = int ?b" using l(1) that by (simp add: home_def)
    show "fst (LookupIndexIn d key h ?b ?e) = Some p"
      by (rule LookupIndexIn_hit [OF s o k b _ e]) (use r in linarith)
    show "int ?b \<le> remap_end d" using b bk_le [of "table d" p] r by simp
  qed
  show ?case
  proof (cases "int ?b \<le> remap_end d \<and> fst (LookupIndexIn d key h ?b ?e) \<noteq> None")
    case True
    then have "fst (LookupIndexIn d key h ?b ?e) = Some p" using unique_hit [OF s o k _ e] by auto
    then show ?thesis
      using True less.prems l(2) by (simp add: prev_loop.simps [of d key h i] found_at_def)
  next
    case False
    then have "i < m" using hit less.prems by (metis le_neq_implies_less option.distinct(1))
    then have "prev_loop d key h (i + 1) = found_at d p" using less.hyps [of "i + 1"] by simp
    then show ?thesis
      using False less.prems l(2) by (auto simp: prev_loop.simps [of d key h i] Let_def)
  qed
qed

lemma prev_loop_miss:
  assumes s: "shape d" and no: "\<And>p. occ (table d) p \<Longrightarrow> key_of (table d ! p) \<noteq> (ucast h, key)"
  shows "prev_loop d key h i = (None, d)"
proof (induction "Suc (remaps d) - i" arbitrary: i rule: less_induct)
  case less
  let ?b = "BucketByHash h (log2_buckets d - i)" and ?e = "nat (remap_end d + 1)"
  have e: "?e \<le> cap d" by (rule remap_end_cap [OF s])
  have "fst (LookupIndexIn d key h ?b ?e) = None"
    using LookupIndexIn_only [OF s _ e] no by (metis not_None_eq)
  then show ?case
    using less.hyps [of "i + 1"] by (auto simp: prev_loop.simps [of d key h i] Let_def)
qed

text \<open>An entry at its bucket for the present size, or not behind \<open>remap_end\<close>, is found.\<close>

lemma LookupIndex_hit:
  assumes s: "shape d" and f: "bk (table d) p = home (log2_buckets d) (table d ! p) \<or> int p \<le> remap_end d" and o: "occ (table d) p" and k: "key_of (table d ! p) = (ucast h, key)"
    and X: "X = (if bk (table d) p = home (log2_buckets d) (table d ! p) then (Some p, d) else found_at d p)"
  shows "\<exists>a b. LookupIndex d key h = (fst X, a, b, snd X)"
proof -
  let ?b = "BucketByHash h (log2_buckets d)"
  have t: "table d \<noteq> []" using s by (simp add: shape_def sized_def)
  have hash: "de_hash (table d ! p) = ucast h" using k by (simp add: key_of_def)
  obtain r q where r: "LookupIndexIn d key h ?b (cap d) = (r, q)" by force
  have pc: "p < cap d" using o s by (simp add: occ_def shape_def sized_def)
  show ?thesis
  proof (cases "bk (table d) p = home (log2_buckets d) (table d ! p)")
    case True
    then have "r = Some p"
      using LookupIndexIn_hit [OF s o k _ pc, of ?b] r hash by (simp add: home_def)
    then show ?thesis using True r t by (simp add: LookupIndex_def X)
  next
    case False
    obtain m where m: "m \<le> remaps d" "bk (table d) p = home (log2_buckets d - m) (table d ! p)"
      using shape_entry(2) [OF s o] by blast
    with False have m1: "1 \<le> m" by (cases m) auto
    have re: "int p \<le> remap_end d" using False f by simp
    have "r = None"
    proof (rule ccontr)
      assume "r \<noteq> None"
      then have "fst (LookupIndexIn d key h ?b (cap d)) = Some p" using unique_hit [OF s o k, of ?b "cap d"] r by auto
      then show False using LookupIndexIn_only [OF s] False hash by (auto simp: home_def)
    qed
    then show ?thesis
      using False r t prev_loop_hit [OF s o k re m(2,1) m1]
      by (cases "found_at d p") (simp add: LookupIndex_def X)
  qed
qed

text \<open>Any other entry is not.\<close>

lemma LookupIndex_lost:
  assumes s: "shape d" and f: "bk (table d) p \<noteq> home (log2_buckets d) (table d ! p)" "remap_end d < int p"
    and o: "occ (table d) p" and k: "key_of (table d ! p) = (ucast h, key)"
  shows "\<exists>a b. LookupIndex d key h = (None, a, b, d)"
proof -
  have n: "fst (LookupIndexIn d key h b e) = None" if "e \<le> cap d" "b = BucketByHash h (log2_buckets d) \<or> e \<le> p" for b e
  proof (rule ccontr)
    assume "fst (LookupIndexIn d key h b e) \<noteq> None"
    then have q: "fst (LookupIndexIn d key h b e) = Some p" using unique_hit [OF s o k _ that(1)] by auto
    have "bk (table d) p = int b" "p < e" using LookupIndexIn_only [OF s q that(1)] by auto
    then show False using that(2) f(1) k by (auto simp: home_def key_of_def)
  qed
  have "nat (remap_end d + 1) \<le> p" using f(2) by linarith
  then have "fst (LookupIndexIn d key h b (nat (remap_end d + 1))) = None" for b using n remap_end_cap [OF s] by blast
  then have "prev_loop d key h i = (None, d)" for i
  proof (induction "Suc (remaps d) - i" arbitrary: i rule: less_induct)
    case less
    then show ?case using less.hyps [of "i + 1"] by (auto simp: prev_loop.simps [of d key h i] Let_def)
  qed
  moreover obtain r i where "LookupIndexIn d key h (BucketByHash h (log2_buckets d)) (cap d) = (r, i)" by force
  moreover from this have "r = None" using n [of "cap d" "BucketByHash h (log2_buckets d)"] by simp
  ultimately show ?thesis using s by (simp add: LookupIndex_def shape_def sized_def)
qed

text \<open>A lookup of a stored key: the position found holds it, in a dictionary with the same map.\<close>

lemma LookupIndex_found:
  assumes s: "shape d" "settled d" and v: "dict_map d (ucast h, key) = Some v"
  obtains p a b d' where "LookupIndex d key h = (Some p, a, b, d')" "occ (table d') p"
    "key_of (table d' ! p) = (ucast h, key)" "de_value (table d' ! p) = v" "dict_map d' = dict_map d"
    "same_rest d d'" "shape d'" "remap_safe d \<Longrightarrow> settled d'"
proof -
  obtain p where o: "occ (table d) p" and k: "key_of (table d ! p) = (ucast h, key)" and val: "de_value (table d ! p) = v"
    using v s(1) by (auto simp: dict_map_Some shape_def)
  have "bk (table d) p = home (log2_buckets d) (table d ! p) \<or> int p \<le> remap_end d" using s(2) o by (auto simp: settled_def not_less)
  note hit = LookupIndex_hit [OF s(1) this o k refl]
  show thesis
  proof (cases "bk (table d) p = home (log2_buckets d) (table d ! p) \<or> num_iterators d \<noteq> 0")
    case True
    then show thesis using hit that o k val s by (auto simp: found_at_def)
  next
    case False
    from RemapAt_shape [OF s(1) o] False obtain ip d' where
      R: "RemapAt d p = (Some ip, d')" "shape d'" "same_rest d d'" "dict_map d' = dict_map d"
        "occ (table d') ip" "payload (table d' ! ip) = payload (table d ! p)"
      by metis
    have "settled d'" if "remap_safe d"
      by (rule RemapAt_settled [OF s(1) o _ s(2) R(1)])
        (use that False one_remap_behind [OF s(1) _ o] in \<open>auto simp: remap_safe_def\<close>)
    moreover have "key_of (table d' ! ip) = (ucast h, key)" "de_value (table d' ! ip) = v"
      using R(6) k val by (metis kv_payload(2), metis kv_payload(5))
    ultimately show thesis using hit that R False by (auto simp: found_at_def)
  qed
qed

lemma LookupIndex_missing:
  assumes s: "shape d" and v: "dict_map d (ucast h, key) = None"
    and b: "b = BucketByHash h (log2_buckets d)" and i: "i = EndOfClusterByBucket d b"
  shows "LookupIndex d key h = (None, int i, int i - int b, d)"
proof -
  have no: "\<And>p. occ (table d) p \<Longrightarrow> key_of (table d ! p) \<noteq> (ucast h, key)"
    using v s by (simp add: dict_map_None shape_def)
  obtain r q where r: "LookupIndexIn d key h b (cap d) = (r, q)" by force
  have "r = None" using LookupIndexIn_only [OF s, of key h b "cap d"] no r by (cases r) auto
  moreover from this have "q = i"
    using lookup_loop_None [of d key h b "cap d" b q] r i by (simp add: LookupIndexIn_def EndOfClusterByBucket_def)
  ultimately show ?thesis
    using r prev_loop_miss [OF s no, where i = 1] s b by (simp add: LookupIndex_def shape_def sized_def)
qed

section \<open>Insert\<close>

text \<open>What the map interface leaves alone: the cookies, the iterator count and, here, no order.\<close>

definition iter_same :: "Dictionary \<Rightarrow> Dictionary \<Rightarrow> bool" where
  "iter_same d d' \<longleftrightarrow> num_iterators d' = num_iterators d \<and> cookies d' = cookies d \<and> order d' = order d"

lemma same_rest_iter: "same_rest d d' \<Longrightarrow> iter_same d d'"
  by (simp add: iter_same_def same_rest_fields)

lemma iter_same_trans: "iter_same d d' \<Longrightarrow> iter_same d' d'' \<Longrightarrow> iter_same d d''"
  by (simp add: iter_same_def)

lemma shape_cong:
  assumes "table d' = table d" "log2_buckets d' = log2_buckets d" "remaps d' = remaps d"
    "remap_end d' = remap_end d" "num_entries d' = num_entries d"
  shows "shape d' = shape d" "settled d' = settled d" "dict_map d' = dict_map d"
  using assms by (simp_all add: shape_def settled_def dict_map_def sized_def Capacity_def)

lemma update_cookies_fields [simp]:
  "table (update_cookies f d) = table d" "log2_buckets (update_cookies f d) = log2_buckets d"
  "remaps (update_cookies f d) = remaps d" "remap_end (update_cookies f d) = remap_end d"
  "num_entries (update_cookies f d) = num_entries d" "num_iterators (update_cookies f d) = num_iterators d"
  "cookies (update_cookies f d) = cookies d" "order (update_cookies f d) = order d"
  "max_entries (update_cookies f d) = max_entries d" "cum_entries (update_cookies f d) = cum_entries d"
  by (simp_all add: update_cookies_def split: option.splits)

lemma payload_value: "payload (e\<lparr>de_value := v\<rparr>) = (payload e)\<lparr>de_value := v\<rparr>"
  by (simp add: payload_def)

lemma set_value_shape:
  assumes s: "shape d" "settled d" and o: "occ (table d) p"
    and d': "d' = set_slot d p ((table d ! p)\<lparr>de_value := v\<rparr>)"
  shows "shape d' \<and> settled d' \<and> dict_map d' = (dict_map d)(key_of (table d ! p) \<mapsto> v)"
proof -
  let ?t = "table d" and ?e = "(table d ! p)\<lparr>de_value := v\<rparr>"
  have len: "p < length ?t" "\<not> Empty ?e" "dist ?e = dist (?t ! p)"
    using o by (auto simp: occ_def Empty_def dist_def)
  have t': "table d' = ?t[p := ?e]" by (simp add: d')
  have same: "occ (table d') q = occ ?t q" "bk (table d') q = bk ?t q" "de_hash (table d' ! q) = de_hash (?t ! q)" for q
    using o len by (cases "q = p"; auto simp: t' occ_update bk_update bk_def)+
  let ?M = "placed_but ?t {p}"
  have pt: "placed ?t = add_mset (bk ?t p, payload (?t ! p)) ?M"
    using placed_but_split [OF o, of "{}"] by (simp add: placed_def)
  have pt': "placed (table d') = add_mset (bk ?t p, payload ?e) ?M"
    using placed_update_occ [OF len(1,2)] len(3) by (simp add: t' bk_def)
  obtain zs where zs: "mset zs = image_mset (\<lambda>x. kv (snd x)) ?M" using ex_mset by blast
  have m: "mset (assoc ?t) = add_mset (key_of (?t ! p), de_value (?t ! p)) (mset zs)"
    by (simp add: mset_assoc pt zs) (simp add: kv_def)
  have m': "mset (assoc (table d')) = add_mset (key_of (?t ! p), v) (mset zs)"
    by (simp add: mset_assoc pt' zs) (simp add: kv_def key_of_def)
  have ku: "keys_unique ?t" using s(1) by (simp add: shape_def)
  have "mset (map fst (assoc (table d'))) = mset (map fst (assoc ?t))" by (simp add: m m')
  then have ku': "keys_unique (table d')" using ku unfolding keys_unique_def by (metis mset_eq_imp_distinct_iff)
  have "dict_map d' = (dict_map d)(key_of (?t ! p) \<mapsto> v)"
    using map_of_add_mset(1) [OF m] map_of_add_mset(1) [OF m'] ku ku' by (simp add: dict_map_def keys_unique_def)
  moreover have "home l (payload ?e) = home l (?t ! p)" "entry_ok (payload ?e) = entry_ok (?t ! p)" for l
    by (simp_all add: home_def entry_ok_def payload_def)
  then have "placed_ok l r (placed (table d')) = placed_ok l r (placed ?t)" for l r
    unfolding placed_ok_def pt pt' by simp
  moreover have "size (placed (table d')) = size (placed ?t)" by (simp add: pt pt')
  moreover have "clustered (table d')" using s(1) by (simp add: clustered_def same shape_def)
  moreover have "settled d'" using s(2) by (simp add: settled_def same home_def) (simp add: d' set_slot_def)
  moreover have "sized d' = sized d" "cap d' = cap d" by (simp_all add: d')
  moreover have "log2_buckets d' = log2_buckets d" "remaps d' = remaps d" "remap_end d' = remap_end d"
      "num_entries d' = num_entries d"
    by (simp_all add: d' set_slot_def)
  ultimately show ?thesis using s(1) ku' by (simp add: shape_def)
qed

lemma insert_found_ok:
  assumes s: "shape d" "settled d" and o: "occ (table d) p" and ord: "order d = None"
  obtains d' where "insert_found d p val = Inr (de_value (table d ! p), d')" "shape d'" "settled d'"
    "dict_map d' = (dict_map d)(key_of (table d ! p) \<mapsto> val)" "iter_same d d'"
proof -
  define d1 where "d1 = set_slot d p ((table d ! p)\<lparr>de_value := val\<rparr>)"
  define d' where "d' = update_cookies (\<lambda>c. c\<lparr>inserted := set_value (table d1 ! p) val (inserted c)\<rparr>)
    (d1\<lparr>order := map_option (set_value (table d1 ! p) val) (order d1)\<rparr>)"
  have o1: "order d1 = None" "num_iterators d1 = num_iterators d" "cookies d1 = cookies d"
    using ord by (simp_all add: d1_def set_slot_def)
  have "insert_found d p val = Inr (de_value (table d ! p), d')"
    using o1(1) unfolding insert_found_def d'_def d1_def Let_def by simp
  moreover have "shape d' = shape d1" "settled d' = settled d1" "dict_map d' = dict_map d1"
    by (rule shape_cong; simp add: d'_def)+
  ultimately show thesis
    using set_value_shape [OF s o d1_def] that [of d'] o1 ord by (simp add: d'_def iter_same_def)
qed

text \<open>A new entry at the end of its cluster, with \<open>remap_end\<close> moved back over the entries pushed.\<close>

lemma adjust_settled:
  assumes sz: "sized d" and st: "settled d" and i: "ins_post (table d) (table d1) x ip j" "grown d d1 j"
    and x: "int ip - int (dist x) = home (log2_buckets d) x"
    and d2: "d2 = (if Remapping d1 \<and> int ip \<le> remap_end d1 \<and> remap_end d1 < int j then d1\<lparr>remap_end := int j\<rparr> else d1)"
  shows "settled d2"
proof (cases "log2_buckets d1 = log2_buckets d")
  case False
  then have "settled d1" using settled_grown [OF i(1) _ i(2) _ refl] sz by (simp add: sized_def)
  moreover have "\<not> remap_end d1 < int j" using grown_cases(2) [OF i(2)] False by auto
  ultimately show ?thesis by (simp add: d2)
next
  case True
  then have re: "remap_end d1 = remap_end d" using grown_cases(2) [OF i(2)] by auto
  have pu: "pushed (table d) (table d1) x ip j" using i(1) by (simp add: ins_post_def)
  have t2: "table d2 = table d1" "log2_buckets d2 = log2_buckets d"
      "remap_end d2 = (if 0 \<le> remap_end d \<and> int ip \<le> remap_end d \<and> remap_end d < int j then int j else remap_end d)"
    using True by (simp_all add: d2 re Remapping_def)
  have "bk (table d1) q = home (log2_buckets d) (table d1 ! q)" if q: "occ (table d1) q" "remap_end d2 < int q" for q
  proof -
    have rq: "remap_end d < int q" using q(2) t2(3) by (auto split: if_splits)
    consider "q = ip" | "ip < q" "q \<le> j" | "q < ip \<or> j < q" by linarith
    then show ?thesis
    proof cases
      case 1
      then show ?thesis using pu x by (simp add: pushed_def bk_def)
    next
      case 2
      then obtain q0 where q0: "ip \<le> q0" "q0 \<le> q" "occ (table d) q0" "bk (table d) q0 = bk (table d1) q"
          "payload (table d ! q0) = payload (table d1 ! q)"
        using pu unfolding pushed_def by blast
      have "remap_end d < int ip" using 2 q(2) t2(3) by (auto split: if_splits)
      then have "bk (table d) q0 = home (log2_buckets d) (table d ! q0)" using st q0(1,3) by (auto simp: settled_def)
      then show ?thesis using q0(4,5) by (metis home_payload)
    next
      case 3
      then have "occ (table d) q" "table d1 ! q = table d ! q" using pu q(1) by (auto simp: pushed_def occ_def)
      then show ?thesis using st rq by (simp add: settled_def bk_def)
    qed
  qed
  then show ?thesis by (simp add: settled_def t2)
qed

lemma InsertRelocateAndAdjust_ok:
  assumes s: "shape d" "settled d" and n: "num_entries d < 65535" and len: "length key < 65536"
    and no: "dict_map d (ucast h, key) = None"
    and b: "b = BucketByHash h (log2_buckets d)" and ip: "ip = EndOfClusterByBucket d b"
    and e: "e = new_DictEntry key h v (int ip - int b)"
    and R: "InsertRelocateAndAdjust d e ip = (d', e')"
  shows "shape (d'\<lparr>num_entries := num_entries d' + 1\<rparr>) \<and> settled d' \<and>
    dict_map d' = (dict_map d)((ucast h, key) \<mapsto> v) \<and> order d' = order d \<and>
    num_iterators d' = num_iterators d \<and> cookies d' = cookies d \<and> num_entries d' = num_entries d"
proof -
  have sz: "sized d" and card: "card {p. occ (table d) p} < 65535" using s(1) n by (auto simp: shape_def size_placed)
  have bc: "b < cap d" using BucketByHash_cap [OF sz] b by simp
  have ed: "e = (new_DictEntry key h v 0)\<lparr>de_distance := of_int (int ip - int b)\<rparr>" by (simp add: e new_DictEntry_def)
  note f = fits_at_end [OF sz bc ip card ed]
  obtain d1 e1 j where I: "InsertAndRelocate d e ip = (d1, e1, j)" by (metis prod_cases3)
  have cl: "clustered (table d)" using s(1) by (simp add: shape_def)
  note i = InsertAndRelocate_post [OF sz cl f(4) card I]
  define d2 where "d2 = (if Remapping d1 \<and> int ip \<le> remap_end d1 \<and> remap_end d1 < int j
    then d1\<lparr>remap_end := int j\<rparr> else d1)"
  have hb: "home l e = int (BucketByHash h l)" for l by (simp add: home_def e new_DictEntry_def)
  have st2: "settled d2" using adjust_settled [OF sz s(2) _ _ _ d2_def] i f(2) hb b by auto
  have d': "d' = update_cookies (AdjustOnInsert d2 e1 ip j) d2"
    unfolding d2_def using R I by (auto simp: InsertRelocateAndAdjust_def Let_def)
  let ?t' = "table d1"
  have t2: "table d2 = ?t'" "log2_buckets d2 = log2_buckets d1" "remaps d2 = remaps d1" "same_rest d1 d2"
    by (simp_all add: d2_def same_rest_def)
  have sr: "same_rest d d2" using same_rest_trans [OF grown_cases(1) t2(4)] i by blast
  have pt: "placed ?t' = add_mset (int b, payload e) (placed (table d))"
    using i f(2) by (simp add: ins_post_def)
  have kv: "kv e = ((ucast h, key), v)" by (simp add: kv_def key_of_def e new_DictEntry_def)
  have m: "mset (assoc ?t') = add_mset ((ucast h, key), v) (mset (assoc (table d)))"
    by (simp add: mset_assoc pt kv)
  have ku: "keys_unique ?t'"
  proof -
    have "distinct (map fst (((ucast h, key), v) # assoc (table d)))"
      using s(1) no by (simp add: shape_def keys_unique_def dict_map_def map_of_eq_None_iff)
    then show ?thesis
      unfolding keys_unique_def using map_of_mset_cong(2) [of "((ucast h, key), v) # assoc (table d)"] m by simp
  qed
  have map: "map_of (assoc ?t') = (dict_map d)((ucast h, key) \<mapsto> v)"
    using map_of_add_mset(1) [OF m] ku by (simp add: keys_unique_def dict_map_def)
  have ok: "entry_ok (payload e)" using len by (simp add: entry_ok_def e new_DictEntry_def payload_def unat_of_nat)
  have "placed_ok (log2_buckets d) (remaps d) (placed ?t')"
    using s(1) ok hb [of "log2_buckets d - 0"] b
    by (auto simp: shape_def placed_ok_def pt intro!: exI [of _ 0])
  then have po: "placed_ok (log2_buckets d2) (remaps d2) (placed ?t')"
    using placed_ok_grown i t2(2,3) by metis
  have re: "remaps d1 \<le> log2_buckets d1 \<and> remap_end d1 < int (cap d1)"
    using remaps_grown [of d d1 j] i sz s(1) by (simp add: shape_def)
  have sz2: "sized d2" "cap d2 = cap d1" using i by (auto simp: d2_def sized_def Capacity_def)
  have "int j < int (cap d1)" using i by (auto simp: ins_post_def pushed_def sized_def)
  then have re2: "remap_end d2 < int (cap d2)" "remaps d2 \<le> log2_buckets d2"
    using re sz2(2) t2(2,3) by (auto simp: d2_def)
  have "num_entries d = int (size (placed (table d)))" using s(1) by (simp add: shape_def)
  then have "shape (d2\<lparr>num_entries := num_entries d2 + 1\<rparr>)"
    using i ku po re2 sz2 n same_rest_fields(2) [OF sr]
    by (auto simp: shape_def t2 pt ins_post_def sized_def Capacity_def)
  moreover have "shape (d'\<lparr>num_entries := num_entries d' + 1\<rparr>) = shape (d2\<lparr>num_entries := num_entries d2 + 1\<rparr>)"
    by (rule shape_cong(1)) (simp_all add: d')
  moreover have "settled d' = settled d2" "dict_map d' = dict_map d2" by (rule shape_cong; simp add: d')+
  moreover have "dict_map d2 = (dict_map d)((ucast h, key) \<mapsto> v)" using map by (simp add: dict_map_def t2)
  ultimately show ?thesis using st2 same_rest_fields [OF sr] by (simp add: d')
qed

lemma insert_new_ok:
  assumes s: "shape d" "settled d" and n: "num_entries d < 65535" and len: "length key < 65536"
    and no: "dict_map d (ucast h, key) = None" and ord: "order d = None"
    and b: "b = BucketByHash h (log2_buckets d)" and ip: "ip = EndOfClusterByBucket d b"
    and d': "d' = insert_new d key h v ip (int ip - int b)"
  shows "shape d' \<and> settled d' \<and> dict_map d' = (dict_map d)((ucast h, key) \<mapsto> v) \<and> iter_same d d'"
proof -
  obtain d1 e1 where R: "InsertRelocateAndAdjust d (new_DictEntry key h v (int ip - int b)) ip = (d1, e1)" by force
  note I = InsertRelocateAndAdjust_ok [OF s n len no b ip refl R]
  define d2 where "d2 = d1\<lparr>order := map_option (\<lambda>xs. xs @ [e1]) (order d1), num_entries := num_entries d1 + 1,
    cum_entries := cum_entries d1 + 1\<rparr>"
  define d3 where "d3 = (if max_entries d2 < num_entries d2 then d2\<lparr>max_entries := num_entries d2\<rparr> else d2)"
  have "shape d3 = shape (d1\<lparr>num_entries := num_entries d1 + 1\<rparr>)" "settled d3 = settled (d1\<lparr>num_entries := num_entries d1 + 1\<rparr>)"
      "dict_map d3 = dict_map (d1\<lparr>num_entries := num_entries d1 + 1\<rparr>)"
    by (rule shape_cong; simp add: d3_def d2_def)+
  then have w: "shape d3" "settled d3" "dict_map d3 = (dict_map d)((ucast h, key) \<mapsto> v)"
    using I by (auto simp: settled_def dict_map_def)
  have "iter_same d d3" using I ord by (simp add: iter_same_def d3_def d2_def)
  moreover have "d' = (if num_entries d3 > int (ThresholdEntries d3) then SizeUp d3 else d3)"
    by (simp add: d' insert_new_def R Let_def d3_def d2_def)
  ultimately show ?thesis
    using w SizeUp_shape [OF w(1)] same_rest_iter [OF SizeUp_same_rest [of d3]] iter_same_trans by auto
qed

lemma Init_shape:
  assumes "wf_dict d" "table d = []"
  shows "shape (Init d)" "settled (Init d)" "dict_map (Init d) = dict_map d" "same_rest d (Init d)"
    "remaps (Init d) = 0" "num_entries (Init d) = 0"
proof -
  have f: "num_entries d = 0" "remaps d = 0" "remap_end d = -1" using assms by (auto simp: wf_dict_def)
  have no: "\<not> occ (table (Init d)) p" for p
    by (auto simp: occ_def Init_def fresh_slot_def)
  have "placed (table (Init d)) = {#}" using no by (simp add: placed_def placed_but_def)
  moreover from this have "assoc (table (Init d)) = []" using mset_assoc [of "table (Init d)"] by simp
  moreover have "sized (Init d)" by (simp add: sized_def Init_def Capacity_def)
  moreover have i: "remap_end (Init d) = -1" "remaps (Init d) = 0" "num_entries (Init d) = 0"
    using f by (simp_all add: Init_def)
  moreover have "- 1 < int (cap (Init d))" by linarith
  ultimately show "shape (Init d)" "dict_map (Init d) = dict_map d"
    using no assms(2)
    by (simp_all add: shape_def clustered_def placed_ok_def keys_unique_def dict_map_def assoc_def)
  show "settled (Init d)" using no by (simp add: settled_def)
  show "same_rest d (Init d)" by (simp add: same_rest_def Init_def)
  show "remaps (Init d) = 0" "num_entries (Init d) = 0" using f by (simp_all add: Init_def)
qed

text \<open>\<open>Insert\<close> after the table has been allocated.\<close>

definition insert_body :: "Dictionary \<Rightarrow> byte list \<Rightarrow> uint64 \<Rightarrow> ptr \<Rightarrow> dict_error + ptr \<times> Dictionary" where
  "insert_body d key h val =
     (let (position, insert_position, insert_distance, d) = LookupIndex d key h;
          r = (case position of
                 Some position \<Rightarrow> insert_found d position val
               | None \<Rightarrow> Inr (NULL, insert_new d key h val (nat insert_position) insert_distance))
      in case r of Inl err \<Rightarrow> Inl err | Inr (v, d) \<Rightarrow> Inr (v, if Remapping d then Remap d else d))"

lemma insert_body_ok:
  assumes s: "shape d" "settled d" "remap_safe d" and n: "num_entries d < 65535" and len: "length key < 65536"
    and ord: "order d = None"
  obtains d' where
    "insert_body d key h val = Inr (case dict_map d (ucast h, key) of None \<Rightarrow> NULL | Some v \<Rightarrow> v, d')"
    "shape d'" "settled d'" "dict_map d' = (dict_map d)((ucast h, key) \<mapsto> val)" "iter_same d d'"
proof -
  obtain r d1 where R: "r = (case dict_map d (ucast h, key) of None \<Rightarrow> NULL | Some v \<Rightarrow> v)"
    and B: "insert_body d key h val = Inr (r, if Remapping d1 then Remap d1 else d1)"
    and w: "shape d1" "settled d1" "dict_map d1 = (dict_map d)((ucast h, key) \<mapsto> val)" "iter_same d d1"
  proof (cases "dict_map d (ucast h, key)")
    case None
    let ?b = "BucketByHash h (log2_buckets d)"
    let ?i = "EndOfClusterByBucket d ?b"
    define d1 where "d1 = insert_new d key h val ?i (int ?i - int ?b)"
    note I = insert_new_ok [OF s(1,2) n len None ord refl refl d1_def]
    have "insert_body d key h val = Inr (NULL, if Remapping d1 then Remap d1 else d1)"
      by (simp add: insert_body_def LookupIndex_missing [OF s(1) None refl refl] d1_def)
    then show thesis using that [of NULL d1] None I by simp
  next
    case (Some v)
    from LookupIndex_found [OF s(1,2) Some] obtain p a b d2 where
      L: "LookupIndex d key h = (Some p, a, b, d2)" "occ (table d2) p" "key_of (table d2 ! p) = (ucast h, key)"
        "de_value (table d2 ! p) = v" "dict_map d2 = dict_map d" "same_rest d d2" "shape d2" "settled d2"
      using s(3) by metis
    have "order d2 = None" using ord same_rest_fields [OF L(6)] by simp
    from insert_found_ok [OF L(7,8,2) this, of val] obtain d3 where
      F: "insert_found d2 p val = Inr (v, d3)" "shape d3" "settled d3"
        "dict_map d3 = (dict_map d)((ucast h, key) \<mapsto> val)" "iter_same d2 d3"
      unfolding L(3,4,5) .
    show thesis
      using that [of v d3] Some F L(1) iter_same_trans [OF same_rest_iter [OF L(6)] F(5)] by (simp add: insert_body_def)
  qed
  show thesis
    using that [of "if Remapping d1 then Remap d1 else d1"] R B w Remap_wf [OF w(1,2)]
      iter_same_trans [OF w(4) same_rest_iter [OF Remap_wf(3) [OF w(1,2)]]]
    by (cases "Remapping d1") simp_all
qed

section \<open>The laws of the operations\<close>

lemma wf_nonempty: "wf_dict d \<Longrightarrow> table d \<noteq> [] \<Longrightarrow> shape d \<and> settled d"
  by (simp add: wf_dict_def)

lemma shape_wf: "shape d \<Longrightarrow> settled d \<Longrightarrow> wf_dict d"
  by (auto simp: wf_dict_def shape_def sized_def)

lemma Insert_law:
  assumes w: "wf_dict d" "remap_safe d" "order d = None" "iterators_robust d"
    and n: "num_entries d < 65535" and len: "length key < 65536"
  obtains d' where
    "Dictionary_Insert d key h val = Inr (case dict_map d (ucast h, key) of None \<Rightarrow> NULL | Some v \<Rightarrow> v, d')"
    "wf_dict d'" "dict_map d' = (dict_map d)((ucast h, key) \<mapsto> val)" "iter_same d d'"
proof -
  define d0 where "d0 = (if table d = [] then Init d else d)"
  have d0: "shape d0" "settled d0" "dict_map d0 = dict_map d" "same_rest d d0" "remap_safe d0" "num_entries d0 < 65535"
    using w(1,2) n Init_shape [OF w(1)] wf_nonempty [OF w(1)] by (auto simp: d0_def remap_safe_def)
  have "order d0 = None" using w(3) same_rest_fields [OF d0(4)] by simp
  from insert_body_ok [OF d0(1,2,5,6) len this, of h val] obtain d' where
    B: "insert_body d0 key h val = Inr (case dict_map d (ucast h, key) of None \<Rightarrow> NULL | Some v \<Rightarrow> v, d')"
      "shape d'" "settled d'" "dict_map d' = (dict_map d)((ucast h, key) \<mapsto> val)" "iter_same d0 d'"
    using d0(3) by metis
  have "Dictionary_Insert d key h val = insert_body d0 key h val"
    using w(4) by (simp add: Dictionary_Insert_def insert_body_def d0_def Let_def)
  then show thesis
    using that [of d'] B shape_wf iter_same_trans [OF same_rest_iter [OF d0(4)]] by simp
qed

lemma Lookup_law:
  assumes w: "wf_dict d"
  obtains d' where "Dictionary_Lookup d key h = (case dict_map d (ucast h, key) of None \<Rightarrow> NULL | Some v \<Rightarrow> v, d')"
    "dict_map d' = dict_map d" "same_rest d d'" "remap_safe d \<Longrightarrow> wf_dict d'"
proof (cases "table d = []")
  case True
  then show thesis using that [of d] w by (simp add: Dictionary_Lookup_def LookupIndex_def dict_map_def assoc_def)
next
  case False
  then have s: "shape d" "settled d" using wf_nonempty [OF w] by auto
  show thesis
  proof (cases "dict_map d (ucast h, key)")
    case None
    then show thesis
      using that [of d] w LookupIndex_missing [OF s(1) None refl refl] by (simp add: Dictionary_Lookup_def)
  next
    case (Some v)
    from LookupIndex_found [OF s Some] obtain p a b d' where
      L: "LookupIndex d key h = (Some p, a, b, d')" "de_value (table d' ! p) = v" "dict_map d' = dict_map d"
        "same_rest d d'" "shape d'" "remap_safe d \<Longrightarrow> settled d'"
      by metis
    then show thesis using that [of d'] Some shape_wf by (simp add: Dictionary_Lookup_def)
  qed
qed

lemma remove_at_ok:
  assumes s: "shape d" "settled d" and o: "occ (table d) p" and R: "RemoveRelocateAndAdjust d p = (e, d1)"
    and d': "d' = d1\<lparr>num_entries := num_entries d1 - 1\<rparr>"
  shows "e = table d ! p \<and> shape d' \<and> settled d' \<and> dict_map d' = (dict_map d)(key_of (table d ! p) := None) \<and>
    iter_same d d'"
proof -
  let ?t = "table d"
  obtain d2 j where r: "remove_loop d p = (d2, j)" by force
  have sz: "sized d" and h: "holed ?t p"
    using s(1) o clustered_holed [of ?t p] by (auto simp: shape_def occ_def)
  note P = remove_loop_post [OF sz h r]
  have fr: "d2 = d\<lparr>table := table d2\<rparr>" using P by simp
  have e: "e = ?t ! p" and d1: "d1 = update_cookies (AdjustOnRemove d2 e p j) d2"
    using R r by (auto simp: RemoveRelocateAndAdjust_def RemoveAndRelocate_def Let_def)
  have pt: "placed ?t = add_mset (bk ?t p, payload (?t ! p)) (placed (table d2))"
    using P placed_but_split [OF o, of "{}"] by (simp add: rem_post_def placed_def)
  have m: "mset (assoc ?t) = add_mset (key_of (?t ! p), de_value (?t ! p)) (mset (assoc (table d2)))"
    by (simp add: mset_assoc pt) (simp add: kv_def)
  have ku: "distinct (map fst (assoc ?t))" using s(1) by (simp add: shape_def keys_unique_def)
  note fl = table_frame [OF fr]
  have "settled d2"
    unfolding settled_def
  proof (intro allI impI, goal_cases)
    case (1 q)
    from rem_post_origin [of ?t "table d2" p j q] P 1 o obtain q0 where
      "q \<le> q0" "occ ?t q0" "bk ?t q0 = bk (table d2) q" "payload (?t ! q0) = payload (table d2 ! q)" by metis
    moreover from this 1 have "bk ?t q0 = home (log2_buckets d) (?t ! q0)"
      using s(2) fl(3) by (auto simp: settled_def)
    ultimately show ?case using fl(1) by (metis home_payload)
  qed
  moreover have "shape (d2\<lparr>num_entries := num_entries d2 - 1\<rparr>)"
    using s(1) P pt map_of_add_mset(4) [OF m ku] fl same_rest_fields(2) [OF fl(4)] cap_same [OF sz _ fl(1)]
    by (auto simp: shape_def rem_post_def placed_ok_def keys_unique_def sized_def Capacity_def)
  moreover have "dict_map d2 = (dict_map d)(key_of (?t ! p) := None)"
    using map_of_add_mset(3) [OF m ku] by (simp add: dict_map_def)
  moreover have "shape d' = shape (d2\<lparr>num_entries := num_entries d2 - 1\<rparr>)" "settled d' = settled (d2\<lparr>num_entries := num_entries d2 - 1\<rparr>)"
      "dict_map d' = dict_map (d2\<lparr>num_entries := num_entries d2 - 1\<rparr>)"
    by (rule shape_cong; simp add: d' d1)+
  ultimately show ?thesis
    using e same_rest_fields [OF fl(4)] by (simp add: d' d1 iter_same_def settled_def dict_map_def)
qed

lemma Remove_law:
  assumes w: "wf_dict d" "remap_safe d" "order d = None" "iterators_robust d"
  obtains d' where
    "Dictionary_Remove d key h False = Inr (case dict_map d (ucast h, key) of None \<Rightarrow> NULL | Some v \<Rightarrow> v, d')"
    "wf_dict d'" "dict_map d' = (dict_map d)((ucast h, key) := None)" "iter_same d d'"
proof (cases "table d = []")
  case True
  then show thesis
    using that [of d] w by (simp add: Dictionary_Remove_def LookupIndex_def dict_map_def assoc_def iter_same_def)
next
  case False
  then have s: "shape d" "settled d" using wf_nonempty [OF w(1)] by auto
  show thesis
  proof (cases "dict_map d (ucast h, key)")
    case None
    moreover from this have "(dict_map d)((ucast h, key) := None) = dict_map d" by (simp add: fun_upd_idem)
    ultimately show thesis
      using that [of d] w LookupIndex_missing [OF s(1) None refl refl]
      by (simp add: Dictionary_Remove_def iter_same_def)
  next
    case (Some v)
    from LookupIndex_found [OF s Some] obtain p a b d1 where
      L: "LookupIndex d key h = (Some p, a, b, d1)" "occ (table d1) p" "key_of (table d1 ! p) = (ucast h, key)"
        "de_value (table d1 ! p) = v" "dict_map d1 = dict_map d" "same_rest d d1" "shape d1" "settled d1"
      using w(2) by metis
    obtain e d2 where R: "RemoveRelocateAndAdjust d1 p = (e, d2)" by force
    note A = remove_at_ok [OF L(7,8,2) R refl]
    have "order d2 = None" using A same_rest_fields [OF L(6)] w(3) by (auto simp: iter_same_def)
    then show thesis
      using that [of "d2\<lparr>num_entries := num_entries d2 - 1\<rparr>"] A Some L R w(4) shape_wf
        iter_same_trans [OF same_rest_iter [OF L(6)]]
      by (simp add: Dictionary_Remove_def)
  qed
qed

section \<open>The dictionary as an implementation of maps\<close>

text \<open>A client's call: the raw key and its hash are the arguments of the overloaded operations.\<close>

fun dict_step :: "Dictionary \<Rightarrow> (byte list \<times> uint64) map_op \<Rightarrow> dict_error + ptr \<times> Dictionary" where
  "dict_step d (LookupOp (key, h)) = Inr (Dictionary_Lookup d key h)"
| "dict_step d (InsertOp (key, h) v) = Dictionary_Insert d key h v"
| "dict_step d (RemoveOp (key, h)) = Dictionary_Remove d key h False"

definition dict_key :: "byte list \<times> uint64 \<Rightarrow> uint32 \<times> byte list" where
  "dict_key k = (ucast (snd k), fst k)"

text \<open>
  The conditions of one call: at most one unfinished growth unless iterating, and for an insertion
  room for 16-bit distances and a key length that 16 bits hold.
\<close>

definition dict_ok :: "Dictionary \<Rightarrow> (byte list \<times> uint64) map_op \<Rightarrow> bool" where
  "dict_ok d x \<longleftrightarrow> remap_safe d \<and>
     (case x of InsertOp k v \<Rightarrow> num_entries d < 65535 \<and> int (length (fst k)) < 65536 | _ \<Rightarrow> True)"

definition dict_inv :: "Dictionary \<Rightarrow> bool" where
  "dict_inv d \<longleftrightarrow> wf_dict d \<and> order d = None \<and> iterators_robust d"

lemma iter_same_robust: "iter_same d d' \<Longrightarrow> iterators_robust d' = iterators_robust d"
  by (auto simp: iter_same_def iterators_robust_def split: option.splits)

interpretation dict: map_impl dict_inv dict_map dict_key dict_ok dict_step
proof
  fix d x
  assume i: "dict_inv d" and k: "dict_ok d x"
  have w: "wf_dict d" "remap_safe d" "order d = None" "iterators_robust d"
    using i k by (auto simp: dict_inv_def dict_ok_def)
  have inv: "dict_inv d'" if "wf_dict d'" "iter_same d d'" for d'
    using that w iter_same_robust [OF that(2)] by (simp add: dict_inv_def iter_same_def)
  show "\<exists>r s'. dict_step d x = Inr (r, s') \<and> dict_inv s' \<and>
      map_step (dict_map d) (map_map_op dict_key x) = (r, dict_map s')"
  proof (cases x)
    case (LookupOp q)
    obtain key h where q: "q = (key, h)" by force
    from Lookup_law [OF w(1), of key h] show ?thesis
      using w(2) inv same_rest_iter by (auto simp: LookupOp q dict_key_def value_or_null_def) metis
  next
    case (InsertOp q v)
    obtain key h where q: "q = (key, h)" by force
    have "num_entries d < 65535" "length key < 65536" using k by (auto simp: dict_ok_def InsertOp q)
    from Insert_law [OF w this, of h v] show ?thesis
      using inv by (auto simp: InsertOp q dict_key_def value_or_null_def) metis
  next
    case (RemoveOp q)
    obtain key h where q: "q = (key, h)" by force
    from Remove_law [OF w, of key h] show ?thesis
      using inv by (auto simp: RemoveOp q dict_key_def value_or_null_def) metis
  qed
qed

end
