(* ===== verification/DictProps.thy ===== *)
theory DictProps
  imports DictOps
begin

text \<open>
  The properties of the dictionary: the results of \<open>Lookup\<close>, \<open>Insert\<close> and \<open>Remove\<close>, runs of operations
  against the abstract map, the invariant checked by the code's own \<open>AssertValid\<close>, agreement of the
  indexed with the linear lookup, and the behaviours in which the code departs from its documentation.
\<close>

section \<open>A dictionary for the witnesses\<close>

lemma new_Dictionary_inv: "dict_inv (new_Dictionary UNORDERED n)"
proof (cases "n > 0")
  case False
  then show ?thesis by (simp add: new_Dictionary_def Let_def dict_inv_def wf_dict_def iterators_robust_def)
next
  case True
  define d where "d = (new_Dictionary UNORDERED 0)\<lparr>log2_buckets := Log2 (nat n)\<rparr>"
  have d: "wf_dict d" "table d = []" "num_iterators d = 0" "order d = None"
    by (simp_all add: d_def new_Dictionary_def Let_def wf_dict_def)
  note i = Init_shape [OF d(1,2)]
  have "new_Dictionary UNORDERED n = Init d"
    using True by (simp add: new_Dictionary_def Let_def d_def)
  then show ?thesis
    using shape_wf [OF i(1,2)] same_rest_fields [OF i(4)] d(3,4) by (simp add: dict_inv_def iterators_robust_def)
qed

lemma new_Dictionary_map: "dict_map (new_Dictionary UNORDERED n) = Map.empty"
  by (auto simp: new_Dictionary_def Let_def dict_map_def assoc_def Init_def fresh_slot_def)

definition demo_ops :: "(byte list \<times> uint64) map_op list" where
  "demo_ops = [InsertOp ([1], 1) 10, InsertOp ([2], 2) 20, InsertOp ([3], 4) 30]"

definition demo_dict :: Dictionary where
  "demo_dict =
     (case run_ops dict_step (new_Dictionary UNORDERED 0) demo_ops of Inr (_, d) \<Rightarrow> d | Inl _ \<Rightarrow> new_Dictionary UNORDERED 0)"

lemma demo_guarded: "run_guarded dict_ok dict_step (new_Dictionary UNORDERED 0) demo_ops"
  by code_simp

lemma demo_dict_inv:
  "dict_inv demo_dict" "dict_map demo_dict = [(1, [1]) \<mapsto> 10, (2, [2]) \<mapsto> 20, (4, [3]) \<mapsto> 30]"
proof -
  from dict.run_refines [OF new_Dictionary_inv demo_guarded] obtain rs d where
    "run_ops dict_step (new_Dictionary UNORDERED 0) demo_ops = Inr (rs, d)" "dict_inv d"
    "map_run Map.empty (map (map_map_op dict_key) demo_ops) = (rs, dict_map d)"
    by (auto simp: new_Dictionary_map)
  then show "dict_inv demo_dict" "dict_map demo_dict = [(1, [1]) \<mapsto> 10, (2, [2]) \<mapsto> 20, (4, [3]) \<mapsto> 30]"
    by (simp_all add: demo_dict_def) (simp add: demo_ops_def dict_key_def Let_def)
qed

lemma demo_dict_fields: "remaps demo_dict = 0" "num_entries demo_dict = 3" "num_iterators demo_dict = 0" "table demo_dict \<noteq> []"
  by code_simp+

section \<open>The map operations\<close>

text \<open>
  C1. In a well-formed dictionary \<open>Lookup\<close> returns the value stored under the key and the lower 32
  bits of its hash, or the null pointer, whatever the state of the incremental remapping; the remapping
  it does on the way changes no stored value, and keeps the dictionary well-formed when at most one
  growth is unfinished or an iteration is under way.
\<close>

theorem Dictionary_Lookup_correct:
  assumes "wf_dict d"
  shows "fst (Dictionary_Lookup d key h) = value_or_null (dict_map d (ucast h, key)) \<and>
    dict_map (snd (Dictionary_Lookup d key h)) = dict_map d \<and>
    (remap_safe d \<longrightarrow> wf_dict (snd (Dictionary_Lookup d key h)))"
  by (rule Lookup_law [OF assms, of key h]) (simp add: value_or_null_def)

theorem Dictionary_Lookup_correct_witness:
  "fst (Dictionary_Lookup demo_dict [2] 2) = 20 \<and> fst (Dictionary_Lookup demo_dict [9] 2) = 0"
proof -
  have "wf_dict demo_dict" using demo_dict_inv(1) by (simp add: dict_inv_def)
  from Dictionary_Lookup_correct [OF this, of "[2]" 2] Dictionary_Lookup_correct [OF this, of "[9]" 2]
  show ?thesis by (simp add: demo_dict_inv(2) value_or_null_def)
qed

text \<open>
  C2. \<open>Insert\<close> into an unordered, well-formed dictionary returns the previous value of the key or the
  null pointer, makes the key map to the new value, changes no other key and keeps the dictionary
  well-formed, through any displacement of clusters, growth and remapping it causes. The bounds are
  those of the 16-bit distances and key sizes of an entry.
\<close>

theorem Dictionary_Insert_correct:
  assumes "wf_dict d" "remap_safe d" "order d = None" "iterators_robust d" "num_entries d < 65535"
    "length key < 65536"
  shows "\<exists>d'. Dictionary_Insert d key h val = Inr (value_or_null (dict_map d (ucast h, key)), d') \<and>
    wf_dict d' \<and> dict_map d' = (dict_map d)((ucast h, key) \<mapsto> val)"
  by (rule Insert_law [OF assms, of h val]) (auto simp: value_or_null_def)

theorem Dictionary_Insert_correct_witness:
  "\<exists>d'. Dictionary_Insert demo_dict [3] 4 77 = Inr (30, d') \<and> wf_dict d' \<and> dict_map d' (4, [3]) = Some 77"
proof -
  have w: "wf_dict demo_dict" "remap_safe demo_dict" "order demo_dict = None" "iterators_robust demo_dict"
    using demo_dict_inv(1) demo_dict_fields by (auto simp: dict_inv_def remap_safe_def)
  from Dictionary_Insert_correct [OF w, of "[3]" 4 77] show ?thesis
    using demo_dict_fields by (auto simp: demo_dict_inv(2) value_or_null_def)
qed



text \<open>
  C4. A client that starts with a new unordered dictionary of any initial size and makes any sequence
  of lookups, insertions and removals gets exactly the results of a finite map, as long as no lookup
  meets a dictionary with two unfinished growths and no key or table exceeds the 16-bit bounds.
\<close>

theorem Dictionary_run_refines_map:
  assumes "run_guarded dict_ok dict_step (new_Dictionary UNORDERED n) ops"
  shows "\<exists>rs d. run_ops dict_step (new_Dictionary UNORDERED n) ops = Inr (rs, d) \<and> wf_dict d \<and>
    map_run Map.empty (map (map_map_op dict_key) ops) = (rs, dict_map d)"
  using dict.run_refines [OF new_Dictionary_inv assms] by (auto simp: new_Dictionary_map dict_inv_def)

theorem Dictionary_run_refines_map_witness:
  "run_guarded dict_ok dict_step (new_Dictionary UNORDERED 0) demo_ops \<and>
   (\<exists>d. run_ops dict_step (new_Dictionary UNORDERED 0) demo_ops = Inr ([0, 0, 0], d))"
  using demo_guarded Dictionary_run_refines_map [OF demo_guarded]
  by (auto simp: demo_ops_def dict_key_def Let_def value_or_null_def)

text \<open>
  C5. The loop \<open>Remap()\<close> ends, and from any number of unfinished growths on keeps the dictionary
  well-formed, its map, and its number of entries.
\<close>

theorem Remap_keeps_map:
  assumes "wf_dict d" "table d \<noteq> []"
  shows "wf_dict (Remap d) \<and> dict_map (Remap d) = dict_map d \<and> Length (Remap d) = Length d"
  using wf_nonempty [OF assms] Remap_wf [of d] shape_wf same_rest_fields(2) [OF Remap_wf(3)]
  by (auto simp: Length_def)

theorem Remap_keeps_map_witness: "wf_dict (Remap (SizeUp demo_dict)) \<and> dict_map (Remap (SizeUp demo_dict)) (2, [2]) = Some 20"
proof -
  have s: "shape demo_dict" using demo_dict_inv(1) demo_dict_fields(4) by (simp add: dict_inv_def wf_dict_def)
  have "wf_dict (SizeUp demo_dict)" using SizeUp_shape [OF s] shape_wf by blast
  moreover have "table (SizeUp demo_dict) \<noteq> []" using SizeUp_sized s by (simp add: shape_def sized_def)
  ultimately show ?thesis
    using Remap_keeps_map [of "SizeUp demo_dict"] SizeUp_shape(3) [OF s] demo_dict_inv(2) by simp
qed

section \<open>Validation\<close>

lemma fold_count:
  "fold (\<lambda>i n. if P i then n - 1 else n) xs n = n - int (length (filter P xs))"
  for n :: int
  by (induction xs arbitrary: n) auto

lemma clustered_neighbours:
  assumes c: "clustered t" and o: "occ t i" and i: "0 < i"
  shows "if occ t (i - 1)
    then bk t (i - 1) \<le> bk t i \<and> (if bk t i = bk t (i - 1) then dist (t ! i) = dist (t ! (i - 1)) + 1
           else dist (t ! i) \<le> dist (t ! (i - 1)))
    else dist (t ! i) = 0"
proof (cases "occ t (i - 1)")
  case True
  have "bk t (i - 1) \<le> bk t i" using clustered_mono [OF c o True] by simp
  then show ?thesis using True i by (auto simp: bk_def of_nat_diff)
next
  case False
  then have "\<not> bk t i \<le> int (i - 1)" using clustered_occ [OF c o, of "i - 1"] by auto
  then show ?thesis using False i by (simp add: bk_def of_nat_diff)
qed

text \<open>
  C10. Every well-formed dictionary passes the code's own \<open>AssertValid\<close>: the entry count is right,
  an entry after an empty slot is at its bucket, buckets do not decrease along a run, and distances step
  as the comparisons demand. Insertions, removals, lookups and remapping therefore keep it passing.
\<close>

theorem wf_AssertValid:
  assumes "wf_dict d"
  shows "AssertValid d"
proof (cases "table d = []")
  case True
  then show ?thesis using assms by (simp add: AssertValid_def Capacity_def wf_dict_def)
next
  case False
  then have s: "shape d" using assms by (simp add: wf_dict_def)
  have len: "length (table d) = cap d" and c: "clustered (table d)" using s by (auto simp: shape_def sized_def)
  have "length (filter (\<lambda>i. \<not> Empty (table d ! i)) (rev [0..<cap d])) = length (filter (\<lambda>e. \<not> Empty e) (table d))"
    unfolding filter_nth [of _ "table d"] len by (simp flip: rev_filter)
  also have "\<dots> = card {p. occ (table d) p}" using length_assoc [of "table d"] by (simp add: assoc_def)
  finally have "fold (\<lambda>i n. if \<not> Empty (table d ! i) then n - 1 else n) (rev [0..<cap d]) (num_entries d) = 0"
    unfolding fold_count using s by (simp add: shape_def size_placed)
  moreover have "Empty (table d ! i) \<or>
        (if Empty (table d ! (i - 1)) then de_distance (table d ! i) = 0
         else BucketByPosition d i \<ge> BucketByPosition d (i - 1) \<and>
              (if BucketByPosition d i = BucketByPosition d (i - 1)
               then unat (de_distance (table d ! i)) = unat (de_distance (table d ! (i - 1))) + 1
               else unat (de_distance (table d ! i)) \<le> unat (de_distance (table d ! (i - 1)))))"
    if "i \<in> set [1..<cap d]" for i
  proof (cases "Empty (table d ! i)")
    case False
    have "0 < i" "i < cap d" using that by auto
    then have "occ (table d) i" "occ (table d) (i - 1) = (\<not> Empty (table d ! (i - 1)))"
      using False len by (auto simp: occ_def)
    then show ?thesis
      using clustered_neighbours [OF c _ \<open>0 < i\<close>]
      by (auto simp: BucketByPosition_bk dist_def unsigned_eq_0_iff split: if_splits)
  qed simp
  ultimately show ?thesis by (simp add: AssertValid_def)
qed

theorem wf_AssertValid_witness: "AssertValid demo_dict"
  using wf_AssertValid demo_dict_inv(1) by (simp add: dict_inv_def)

text \<open>
  C11. The position \<open>LookupIndex\<close> returns is the one the linear search of the debug build finds in the
  dictionary it leaves behind, and it finds none exactly when that search finds none.
\<close>

theorem LookupIndex_linear:
  assumes "wf_dict d" "LookupIndex d key h = (pos, ip, idist, d')"
  shows "LinearLookupIndex d' key h = (case pos of None \<Rightarrow> -1 | Some p \<Rightarrow> int p)"
proof (cases "table d = []")
  case True
  then show ?thesis using assms(2) by (auto simp: LookupIndex_def LinearLookupIndex_def Capacity_def scan_stay)
next
  case False
  let ?no = "\<lambda>d i. \<not> (\<not> Empty (table d ! i) \<and> Equal (table d ! i) key h)"
  have s: "shape d" "settled d" using assms(1) False by (auto simp: wf_dict_def)
  show ?thesis
  proof (cases "dict_map d (ucast h, key)")
    case None
    then have r: "pos = None" "d' = d" using LookupIndex_missing [OF s(1) None refl refl] assms(2) by auto
    have "?no d i" if "i < cap d" for i
      using None s(1) that shape_entry(1) [OF s(1), of i]
      by (auto simp: dict_map_None shape_def sized_def occ_def Equal_iff)
    then have "scan (?no d) (cap d) 0 = cap d" by (intro scan_eqI) auto
    then show ?thesis by (simp add: r LinearLookupIndex_def)
  next
    case (Some v)
    from LookupIndex_found [OF s Some] obtain p where
      p: "pos = Some p" "occ (table d') p" "key_of (table d' ! p) = (ucast h, key)" "shape d'"
      using assms(2) by (metis prod.inject)
    have len: "length (table d') = cap d'" using p(4) by (simp add: shape_def sized_def)
    have "?no d' i" if "i < p" for i
      using keys_unique_pos [of "table d'" i p] p that shape_entry(1) [OF p(4), of i] len
      by (auto simp: shape_def occ_def Equal_iff)
    moreover have "\<not> ?no d' p" using p(2,3) shape_entry(1) [OF p(4,2)] by (simp add: occ_def Equal_iff)
    ultimately have "scan (?no d') (cap d') 0 = p" using p(2) len by (intro scan_eqI) (auto simp: occ_def)
    then show ?thesis using p(1,2) len by (simp add: LinearLookupIndex_def occ_def)
  qed
qed

theorem LookupIndex_linear_witness: "LinearLookupIndex demo_dict [9] 2 = -1"
proof -
  have w: "wf_dict demo_dict" using demo_dict_inv(1) by (simp add: dict_inv_def)
  then have s: "shape demo_dict" using demo_dict_fields(4) by (simp add: wf_dict_def)
  have "dict_map demo_dict (ucast (2 :: uint64), [9]) = None" by (simp add: demo_dict_inv(2))
  from LookupIndex_linear [OF w LookupIndex_missing [OF s this refl refl]] show ?thesis by simp
qed

text \<open>
  \<open>Length()\<close> is the number of keys stored.
\<close>

theorem Length_card_keys:
  assumes "wf_dict d"
  shows "Length d = int (card (dom (dict_map d)))"
proof (cases "table d = []")
  case True
  then show ?thesis using assms by (simp add: wf_dict_def Length_def dict_map_def assoc_def)
next
  case False
  then have s: "shape d" using assms by (simp add: wf_dict_def)
  then have "card (dom (dict_map d)) = length (assoc (table d))"
    using distinct_card [of "map fst (assoc (table d))"]
    by (simp add: dict_map_def dom_map_of_conv_image_fst shape_def keys_unique_def)
  then show ?thesis using s by (simp add: length_assoc Length_def shape_def size_placed)
qed

theorem Length_card_keys_witness: "Length demo_dict = int (card {(1, [1]), (2, [2]), (4 :: uint32, [3 :: byte])})"
  using Length_card_keys [of demo_dict] demo_dict_inv by (simp add: dict_inv_def insert_commute)

section \<open>Where the code departs from its documentation\<close>

definition insert_all :: "(byte list \<times> uint64 \<times> ptr) list \<Rightarrow> Dictionary \<Rightarrow> Dictionary" where
  "insert_all xs d =
     fold (\<lambda>(k, h, v) d. case Dictionary_Insert d k h v of Inr (_, d) \<Rightarrow> d | Inl _ \<Rightarrow> d) xs d"

text \<open>
  Seven insertions during a robust iteration, from a table of two buckets: the growths they cause
  are not remapped, so that two are unfinished when the iteration stops.
\<close>

definition growth_ops :: "(byte list \<times> uint64) map_op list" where
  "growth_ops = [InsertOp ([10], 2) 10, InsertOp ([20], 5) 20, InsertOp ([21], 5) 21, InsertOp ([22], 5) 22, InsertOp ([30], 2) 30,
     InsertOp ([40], 3) 40, InsertOp ([41], 3) 41]"

definition iterating :: Dictionary where
  "iterating = (case InitForIteration (new_Dictionary UNORDERED 2) of (c, d) \<Rightarrow> case MakeRobustCookie d c of Inl _ \<Rightarrow> d | Inr d \<Rightarrow> d)"

definition two_growths :: Dictionary where
  "two_growths =
     (case run_ops dict_step iterating growth_ops of
        Inl _ \<Rightarrow> iterating
      | Inr (_, d) \<Rightarrow> (case StopIteration d (fst (InitForIteration (new_Dictionary UNORDERED 2))) of Inl _ \<Rightarrow> d | Inr d \<Rightarrow> d))"

text \<open>The invariant does not depend on iterators and cookies.\<close>

lemma wf_dict_core:
  assumes "wf_dict d" "table d' = table d" "num_entries d' = num_entries d" "remaps d' = remaps d" "remap_end d' = remap_end d"
    "log2_buckets d' = log2_buckets d"
  shows "wf_dict d'"
  using assms by (auto simp: wf_dict_def shape_def settled_def sized_def Capacity_def split: if_splits)

lemma StopIteration_wf:
  assumes "wf_dict d" "StopIteration d c = Inr d'"
  shows "wf_dict d'"
  using assms by (intro wf_dict_core [OF assms(1)]) (auto simp: StopIteration_def end_iteration_def delete_cookie_def Let_def split: option.splits if_splits)

lemma two_growths_wf: "wf_dict two_growths"
proof -
  have "wf_dict (new_Dictionary UNORDERED 2)" using new_Dictionary_inv [of 2] by (simp add: dict_inv_def)
  moreover have "table iterating = table (new_Dictionary UNORDERED 2)" "num_entries iterating = num_entries (new_Dictionary UNORDERED 2)"
      "remaps iterating = remaps (new_Dictionary UNORDERED 2)" "remap_end iterating = remap_end (new_Dictionary UNORDERED 2)"
      "log2_buckets iterating = log2_buckets (new_Dictionary UNORDERED 2)" by code_simp+
  ultimately have "wf_dict iterating" by (rule wf_dict_core)
  moreover have "order iterating = None" "iterators_robust iterating" by code_simp+
  ultimately have i: "dict_inv iterating" by (simp add: dict_inv_def)
  have g: "run_guarded dict_ok dict_step iterating growth_ops" by code_simp
  from dict.run_refines [OF i g] obtain rs d where d: "run_ops dict_step iterating growth_ops = Inr (rs, d)" "wf_dict d"
    by (auto simp: dict_inv_def)
  then show ?thesis using StopIteration_wf [OF d(2)] by (auto simp: two_growths_def split: sum.splits)
qed

lemma two_growths_lookup:
  "let d = two_growths; d' = snd (Dictionary_Lookup d [10] 2)
   in table d \<noteq> [] \<and> remaps d = 2 \<and> remap_end d = 6 \<and> map_of (assoc (table d)) (2, [10]) = Some 10 \<and>
      5 < length (table d) \<and> \<not> Empty (table d ! 5) \<and> key_of (table d ! 5) = (3, [40]) \<and> de_value (table d ! 5) = 40 \<and>
      7 < length (table d') \<and> \<not> Empty (table d' ! 7) \<and> key_of (table d' ! 7) = (3, [40]) \<and> remap_end d' = 6 \<and>
      BucketByPosition d' 7 = 3 \<and> BucketByHash 3 (log2_buckets d') = 7"
  by code_simp

text \<open>
  C6. Which stored keys \<open>Lookup\<close> finds, in any table of the right structure, with or without the part of the invariant about \<open>remap_end\<close>: the
  key of the entry at a position is found exactly if the entry is at the bucket of the present table size or not behind \<open>remap_end\<close>;
  otherwise the answer is the null pointer although the key is stored. So an entry that an operation pushes past \<open>remap_end\<close> before it has been
  remapped is lost. With two unfinished growths \<open>Lookup\<close> itself does that: the witness is a dictionary made by insertions during an
  iteration, in which looking up one key makes another one unreachable.
\<close>

theorem Lookup_finds_exactly:
  assumes "shape d" "occ (table d) p" "key_of (table d ! p) = (ucast h, key)"
  shows "fst (Dictionary_Lookup d key h) =
    (if BucketByPosition d p = int (BucketByHash h (log2_buckets d)) \<or> int p \<le> remap_end d then de_value (table d ! p) else NULL)"
proof -
  have h: "int (BucketByHash h (log2_buckets d)) = home (log2_buckets d) (table d ! p)" using assms(3) by (simp add: home_def key_of_def)
  let ?in = "bk (table d) p = home (log2_buckets d) (table d ! p)"
  consider (lost) "\<not> ?in" "remap_end d < int p" | (found) "?in \<or> int p \<le> remap_end d \<and> num_iterators d \<noteq> 0" | (moved) "\<not> ?in" "int p \<le> remap_end d" "num_iterators d = 0"
    by linarith
  then show ?thesis
  proof cases
    case lost
    then show ?thesis using LookupIndex_lost [OF assms(1) lost assms(2,3)] by (auto simp: Dictionary_Lookup_def BucketByPosition_bk h)
  next
    case found
    then show ?thesis using LookupIndex_hit [OF assms(1) _ assms(2,3) refl] by (auto simp: Dictionary_Lookup_def BucketByPosition_bk h found_at_def)
  next
    case moved
    from RemapAt_shape [OF assms(1,2) moved(1)] obtain ip d' where "RemapAt d p = (Some ip, d')" "de_value (table d' ! ip) = de_value (table d ! p)"
      by (metis kv_payload(5))
    then show ?thesis using moved LookupIndex_hit [OF assms(1) _ assms(2,3) refl] by (auto simp: Dictionary_Lookup_def BucketByPosition_bk h found_at_def)
  qed
qed

theorem Lookup_finds_exactly_witness:
  "remaps two_growths = 2 \<and> fst (Dictionary_Lookup two_growths [40] 3) = 40 \<and>
   dict_map (snd (Dictionary_Lookup two_growths [10] 2)) = dict_map two_growths \<and>
   fst (Dictionary_Lookup (snd (Dictionary_Lookup two_growths [10] 2)) [40] 3) = NULL"
proof -
  let ?d = "snd (Dictionary_Lookup two_growths [10] 2)"
  note e = two_growths_lookup [unfolded Let_def]
  have s: "shape two_growths" "settled two_growths" using two_growths_wf e by (simp_all add: wf_dict_def)
  have "dict_map two_growths (ucast (2 :: uint64), [10]) = Some 10" using e by (simp add: dict_map_def)
  from LookupIndex_found [OF s this] obtain p a b d' where "LookupIndex two_growths [10] 2 = (Some p, a, b, d')" "shape d'" "dict_map d' = dict_map two_growths"
    by metis
  then have d: "shape ?d" "dict_map ?d = dict_map two_growths" by (simp_all add: Dictionary_Lookup_def)
  have o: "occ (table two_growths) 5" "key_of (table two_growths ! 5) = (ucast (3 :: uint64), [40])"
      "occ (table ?d) 7" "key_of (table ?d ! 7) = (ucast (3 :: uint64), [40])"
    using e by (simp_all add: occ_def)
  have "fst (Dictionary_Lookup two_growths [40] 3) = 40" using Lookup_finds_exactly [OF s(1) o(1,2)] e by simp
  moreover have "fst (Dictionary_Lookup ?d [40] 3) = NULL" using Lookup_finds_exactly [OF d(1) o(3,4)] e by simp
  ultimately show ?thesis using d(2) e by simp
qed

text \<open>
  An ordered dictionary records the wrong entries. \<open>InsertAndRelocate\<close> works on its argument by
  reference, so after a displacement \<open>Insert\<close> appends the entry that was moved last instead of the one
  inserted: with keys 1, 2, 3 in one table of two buckets, \<open>NthEntry(2)\<close> is not the third entry but the
  first again, replacing the value of the third key fails its assertion, and removing it erases the end
  iterator.
\<close>

theorem order_records_displaced_entry:
  "let d = insert_all [([1], 1, 11), ([2], 2, 22), ([3], 4, 33)] (new_Dictionary ORDERED 2)
   in Length d = 3 \<and> NthEntry d 2 = Inr (Some (11, [1])) \<and>
      (case Dictionary_Insert d [3] 4 34 of Inl e \<Rightarrow> e = AssertFailed | Inr _ \<Rightarrow> False) \<and>
      (case Dictionary_Remove d [3] 4 False of Inl e \<Rightarrow> e = UndefinedBehaviour | Inr _ \<Rightarrow> False)"
  by code_simp

text \<open>
  \<open>HeadOfClusterByBucket\<close> never finds a cluster: its loop runs only while the bucket at hand
  is smaller than the one sought and tests for equality inside.
\<close>

theorem HeadOfClusterByBucket_never_found: "HeadOfClusterByBucket d bucket = -1"
proof -
  have "head_loop d b i = -1" for b i
    by (induction d b i rule: head_loop.induct) (subst head_loop.simps, auto)
  then show ?thesis by (simp add: HeadOfClusterByBucket_def)
qed

text \<open>
  \<open>Clear\<close> empties the dictionary and hands each stored value exactly once to \<open>delete_func\<close>, when
  there is one; the dictionary it leaves is well-formed. It also drops the insertion order: an ordered
  dictionary is unordered afterwards.
\<close>

theorem Clear_empties:
  "wf_dict (snd (Clear d)) \<and> dict_map (snd (Clear d)) = Map.empty \<and> Length (snd (Clear d)) = 0 \<and>
   \<not> IsOrdered (snd (Clear d)) \<and>
   mset (fst (Clear d)) = (if delete_func d = NULL then {#} else image_mset snd (mset (assoc (table d))))"
  by (simp add: Clear_def wf_dict_def dict_map_def assoc_def Length_def IsOrdered_def rev_filter [symmetric]
      image_mset.compositionality comp_def kv_def)

end
