(* ===== verification/DictIter.thy ===== *)
theory DictIter
  imports DictProps
begin

text \<open>
  Iteration. A client calls \<open>NextEntry\<close> until the cookie is gone; over an unmodified dictionary
  that visits every entry once, in table order, and restores the iterator count. With a robust cookie
  the entries inserted on the way are handed out from the cookie's own list.
\<close>

section \<open>The client's loop\<close>

text \<open>
  The loop \<open>while ( (v = NextEntry(h, cookie, 1)) )\<close> with a bound on the number of calls; \<open>None\<close> when
  the bound is used up before the iteration has ended.
\<close>

fun iterate :: "nat \<Rightarrow> Dictionary \<Rightarrow> nat \<Rightarrow> (dict_error + next_result list \<times> Dictionary) option" where
  "iterate 0 d c = None"
| "iterate (Suc n) d c =
     (case NextEntry d c of
        Inl err \<Rightarrow> Some (Inl err)
      | Inr (EndOfIteration, d) \<Rightarrow> Some (Inr ([], d))
      | Inr (Entry v k h, d) \<Rightarrow>
          (case iterate n d c of
             Some (Inr (xs, d)) \<Rightarrow> Some (Inr (Entry v k h # xs, d))
           | r \<Rightarrow> r))"

lemma filter_drop_scan:
  "filter (\<lambda>e. \<not> Empty e) (drop p t) = filter (\<lambda>e. \<not> Empty e) (drop (scan (\<lambda>i. Empty (t ! i)) (length t) p) t)"
proof (induction "\<lambda>i. Empty (t ! i)" "length t" p rule: scan.induct)
  case (1 p)
  show ?case
  proof (cases "p < length t \<and> Empty (t ! p)")
    case True
    then have "drop p t = t ! p # drop (p + 1) t" by (simp add: Cons_nth_drop_Suc)
    then show ?thesis using 1 True by (simp add: scan.simps [of _ "length t" p])
  next
    case False
    then show ?thesis by (simp add: scan_stay)
  qed
qed

text \<open>A plain cookie that stands at position \<open>p\<close>.\<close>

definition at_position :: "Dictionary \<Rightarrow> nat \<Rightarrow> nat \<Rightarrow> bool" where
  "at_position d c p \<longleftrightarrow>
     cookie_store d c = Some \<lparr>robust = False, c_next = int p, inserted = [], visited = []\<rparr> \<and>
     p \<le> cap d \<and> (p < cap d \<longrightarrow> occ (table d) p)"

definition next_from :: "Dictionary \<Rightarrow> nat \<Rightarrow> nat" where
  "next_from d p = scan (\<lambda>i. Empty (table d ! i)) (cap d) p"

lemma Next_from: "Next d (int p) = int (next_from d (p + 1))" "Next d (-1) = int (next_from d 0)"
  by (simp_all add: Next_def next_from_def nat_add_distrib)

lemma next_from_ok:
  assumes "sized d" "p \<le> cap d"
  shows "next_from d p \<le> cap d" "next_from d p < cap d \<Longrightarrow> occ (table d) (next_from d p)"
    "filter (\<lambda>e. \<not> Empty e) (drop (next_from d p) (table d)) = filter (\<lambda>e. \<not> Empty e) (drop p (table d))"
  using assms scan_le [of p "cap d"] scan_stop [of _ "cap d" p] filter_drop_scan [of p "table d"]
  by (auto simp: next_from_def occ_def sized_def)

definition move_cookie :: "Dictionary \<Rightarrow> nat \<Rightarrow> nat \<Rightarrow> Dictionary" where
  "move_cookie d c p =
     d\<lparr>cookie_store := (cookie_store d)(c \<mapsto> \<lparr>robust = False, c_next = int p, inserted = [], visited = []\<rparr>)\<rparr>"

lemma cap_move [simp]: "cap (move_cookie d c p) = cap d" "table (move_cookie d c p) = table d"
    "sized (move_cookie d c p) = sized d" "num_iterators (move_cookie d c p) = num_iterators d"
    "cookie_store (move_cookie d c p) = (cookie_store d)(c \<mapsto> \<lparr>robust = False, c_next = int p, inserted = [], visited = []\<rparr>)"
  by (simp_all add: move_cookie_def Capacity_def sized_def)

lemma move_move [simp]: "move_cookie (move_cookie d c p) c q = move_cookie d c q"
  by (simp add: move_cookie_def)

lemma NextEntry_at:
  assumes "sized d" "at_position d c p" "p < cap d"
  shows "NextEntry d c = Inr (entry_result (table d ! p), move_cookie d c (next_from d (p + 1)))"
  using assms
  by (simp add: NextEntry_def at_position_def sized_def occ_def Let_def Next_from move_cookie_def)

definition finished :: "Dictionary \<Rightarrow> nat \<Rightarrow> Dictionary" where
  "finished d c = (if num_iterators d > 0 then d\<lparr>num_iterators := num_iterators d - 1\<rparr> else d)
     \<lparr>cookie_store := (cookie_store d)(c := None)\<rparr>"

lemma finished_move [simp]: "finished (move_cookie d c p) c = finished d c"
  by (simp add: finished_def move_cookie_def)

lemma NextEntry_end:
  assumes "sized d" "at_position d c (cap d)"
  shows "NextEntry d c = Inr (EndOfIteration, finished d c)"
  using assms
  by (auto simp: NextEntry_def at_position_def sized_def Let_def end_iteration_def delete_cookie_def finished_def
      fun_upd_idem split: if_splits)

text \<open>The first call of a new cookie finds the first entry.\<close>

lemma next_from_move [simp]: "next_from (move_cookie d c p) q = next_from d q"
  by (simp add: next_from_def)

lemma NextEntry_start:
  assumes s: "sized d" and c: "cookie_store d c = Some new_IterCookie" and p: "p = next_from d 0"
  shows "NextEntry d c = NextEntry (move_cookie d c p) c" "at_position (move_cookie d c p) c p"
proof -
  note q = next_from_ok [OF s, of 0, folded p]
  show a: "at_position (move_cookie d c p) c p" using q by (simp add: at_position_def)
  show "NextEntry d c = NextEntry (move_cookie d c p) c"
  proof (cases "p < cap d")
    case True
    then have "\<not> Empty (table d ! p)" using q by (simp add: occ_def)
    then have "NextEntry d c = Inr (entry_result (table d ! p), move_cookie d c (next_from d (p + 1)))"
      using s c True
      by (simp add: NextEntry_def new_IterCookie_def Let_def Next_from sized_def move_cookie_def flip: p)
    then show ?thesis using NextEntry_at [OF _ a] s True by simp
  next
    case False
    then have p: "p = cap d" "next_from d 0 = cap d" using q(1) p by auto
    then have "NextEntry d c = Inr (EndOfIteration, finished d c)"
      using s c
      by (auto simp: NextEntry_def new_IterCookie_def Let_def Next_from sized_def end_iteration_def
          delete_cookie_def finished_def split: if_splits)
    then show ?thesis using NextEntry_end [of "move_cookie d c p" c] a s p(1) by simp
  qed
qed

lemma iterate_from:
  assumes "sized d" "at_position d c p" "cap d - p < n"
  shows "iterate n d c = Some (Inr (map entry_result (filter (\<lambda>e. \<not> Empty e) (drop p (table d))), finished d c))"
  using assms
proof (induction n arbitrary: d p)
  case 0
  then show ?case by simp
next
  case (Suc n)
  have len: "length (table d) = cap d" using Suc.prems(1) by (simp add: sized_def)
  show ?case
  proof (cases "p < cap d")
    case False
    then have "p = cap d" using Suc.prems(2) by (simp add: at_position_def)
    then show ?thesis using NextEntry_end [OF Suc.prems(1)] Suc.prems(2) len by simp
  next
    case True
    let ?q = "next_from d (p + 1)" and ?d = "move_cookie d c (next_from d (p + 1))"
    note q = next_from_ok [OF Suc.prems(1), of "p + 1"]
    have "p + 1 \<le> ?q" by (simp add: next_from_def scan_ge del: One_nat_def)
    then have a: "at_position ?d c ?q" "cap ?d - ?q < n"
      using q True Suc.prems(3) by (auto simp: at_position_def)
    have "drop p (table d) = table d ! p # drop (p + 1) (table d)" using True len by (simp add: Cons_nth_drop_Suc)
    moreover have "\<not> Empty (table d ! p)" using Suc.prems(2) True by (simp add: at_position_def occ_def)
    ultimately show ?thesis
      using Suc.IH [of ?d ?q, OF _ a] NextEntry_at [OF Suc.prems(1,2) True] Suc.prems(1) q(3) True
      by (simp add: entry_result_def)
  qed
qed

lemma iterate_all:
  assumes "wf_dict d" "table d \<noteq> []" "num_iterators d \<noteq> 0xFFFF" "InitForIteration d = (c, d1)"
  shows "\<exists>d'. iterate (cap d + 2) d1 c = Some (Inr (map entry_result (filter (\<lambda>e. \<not> Empty e) (table d)), d')) \<and>
    table d' = table d \<and> remap_end d' = remap_end d \<and> num_iterators d' = num_iterators d \<and> cookie_store d' c = None"
proof -
  have s: "sized d" using assms(1,2) by (simp add: wf_dict_def shape_def)
  have d1: "d1 = d\<lparr>num_iterators := num_iterators d + 1, cookie_store := (cookie_store d)(c \<mapsto> new_IterCookie),
      fresh_cookie := fresh_cookie d + 1\<rparr>" and c: "c = fresh_cookie d"
    using assms(4) by (auto simp: InitForIteration_def)
  have s1: "sized d1" "cap d1 = cap d" "table d1 = table d" using s by (auto simp: d1 sized_def Capacity_def)
  have "cookie_store d1 c = Some new_IterCookie" by (simp add: d1)
  note st = NextEntry_start [OF s1(1) this refl]
  let ?p = "next_from d1 0"
  have n: "cap d + 2 = Suc (cap d + 1)" by simp
  have "iterate (cap d + 2) d1 c = iterate (cap d + 2) (move_cookie d1 c ?p) c" unfolding n iterate.simps st(1) ..
  also have "\<dots> = Some (Inr (map entry_result (filter (\<lambda>e. \<not> Empty e) (table d)), finished d1 c))"
    using iterate_from [of "move_cookie d1 c ?p" c ?p "cap d + 2"] st(2) s1 next_from_ok(3) [OF s1(1), of 0] by simp
  finally have i: "iterate (cap d + 2) d1 c = Some (Inr (map entry_result (filter (\<lambda>e. \<not> Empty e) (table d)), finished d1 c))" .
  have "num_iterators d + 1 \<noteq> 0"
  proof
    assume "num_iterators d + 1 = 0"
    then have "num_iterators d = -1" by (simp add: eq_neg_iff_add_eq_0)
    then show False using assms(3) by simp
  qed
  then show ?thesis using i by (auto simp: finished_def d1 word_neq_0_conv)
qed

section \<open>Properties\<close>

text \<open>
  C7. Iteration with a new cookie over an unmodified dictionary ends after at most one call per slot
  and one more, without an error; it yields exactly the stored entries, each once, in table order, and
  leaves the table, the remapping state and the iterator count as they were.
\<close>

theorem iterate_visits_all:
  assumes "wf_dict d" "table d \<noteq> []" "num_iterators d \<noteq> 0xFFFF" "InitForIteration d = (c, d1)"
  shows "\<exists>d'. iterate (cap d + 2) d1 c = Some (Inr (map entry_result (filter (\<lambda>e. \<not> Empty e) (table d)), d')) \<and>
    table d' = table d \<and> remap_end d' = remap_end d \<and> num_iterators d' = num_iterators d \<and> cookie_store d' c = None"
  by (rule iterate_all [OF assms])

theorem iterate_visits_all_witness:
  "\<exists>d'. iterate (cap demo_dict + 2) (snd (InitForIteration demo_dict)) 0 =
     Some (Inr ([Entry 20 [2] 2, Entry 30 [3] 4, Entry 10 [1] 1], d')) \<and> num_iterators d' = 0"
proof -
  have "fresh_cookie demo_dict = 0" by code_simp
  then have w: "wf_dict demo_dict" "num_iterators demo_dict \<noteq> 0xFFFF" "InitForIteration demo_dict = (0, snd (InitForIteration demo_dict))"
    using demo_dict_inv(1) demo_dict_fields by (simp_all add: dict_inv_def InitForIteration_def)
  have "map entry_result (filter (\<lambda>e. \<not> Empty e) (table demo_dict)) = [Entry 20 [2] 2, Entry 30 [3] 4, Entry 10 [1] 1]"
    by code_simp
  with iterate_visits_all [OF w(1) demo_dict_fields(4) w(2,3)] show ?thesis using demo_dict_fields(3) by auto
qed

text \<open>
  A robust iteration misses an entry inserted on the way and visits another one twice, although
  the interface promises to visit all entries added during the iteration: the list of inserted entries
  receives the displaced entry instead of the new one.
\<close>

theorem robust_iteration_misses_inserted:
  "let (c, d) = InitForIteration (insert_all [([1], 0, 11), ([2], 1, 22)] (new_Dictionary UNORDERED 4))
   in case MakeRobustCookie d c of Inl _ \<Rightarrow> False | Inr d \<Rightarrow>
     (case NextEntry d c of Inl _ \<Rightarrow> False | Inr (r1, d) \<Rightarrow>
     (case NextEntry d c of Inl _ \<Rightarrow> False | Inr (r2, d) \<Rightarrow>
     (case Dictionary_Insert d [3] 0 33 of Inl _ \<Rightarrow> False | Inr (_, d) \<Rightarrow>
     (case iterate 5 d c of None \<Rightarrow> False | Some (Inl _) \<Rightarrow> False | Some (Inr (rest, _)) \<Rightarrow>
        [r1, r2] = [Entry 11 [1] 0, Entry 22 [2] 1] \<and> rest = [Entry 22 [2] 1]))))"
  by code_simp

end
