(* ===== verification/HashKey.thy ===== *)
theory HashKey
  imports SipHash DictProps
begin

text \<open>
  The keys of dictionaries, \<open>dict/Hash.h\<close> and \<open>dict/Hash.cc\<close>: how a key is built, hashed, copied, handed over and
  destroyed, over an explicit heap; and the string interface of \<open>PDict\<close>, which composes keys, hash function and
  dictionary. Integers are stored as on a little-endian machine. MD5 (OpenSSL) is a parameter.
\<close>

section \<open>Hash functions\<close>

definition UHASH_KEY_SIZE :: nat where "UHASH_KEY_SIZE = 36"

text \<open>The keys of the process and the digest function of the library.\<close>

record hash_env =
  shared_siphash_key :: "byte list"
  shared_hmac_md5_key :: "byte list"
  md5 :: "byte list \<Rightarrow> byte list"

definition internal_md5 :: "hash_env \<Rightarrow> byte list \<Rightarrow> byte list" where
  "internal_md5 env data = md5 env data"

definition hmac_md5 :: "hash_env \<Rightarrow> byte list \<Rightarrow> byte list" where
  "hmac_md5 env bytes =
     (let digest = internal_md5 env bytes;
          digest = map (\<lambda>i. digest ! i XOR shared_hmac_md5_key env ! i) [0..<16]
      in internal_md5 env digest)"

definition HashBytes :: "hash_env \<Rightarrow> byte list \<Rightarrow> uint64" where
  "HashBytes env bytes =
     (if length bytes \<le> UHASH_KEY_SIZE then siphash bytes (shared_siphash_key env)
      else U8TO64_LE (take 8 (hmac_md5 env bytes)))"

section \<open>Memory\<close>

text \<open>The allocated blocks, and an address below which all blocks lie.\<close>

record heap =
  blocks :: "nat \<Rightarrow> byte list option"
  next_block :: nat

definition heap_ok :: "heap \<Rightarrow> bool" where
  "heap_ok h \<longleftrightarrow> (\<forall>a. next_block h \<le> a \<longrightarrow> blocks h a = None)"

definition new_block :: "heap \<Rightarrow> byte list \<Rightarrow> nat \<times> heap" where
  "new_block h bs = (next_block h, \<lparr>blocks = (blocks h)(next_block h \<mapsto> bs), next_block = next_block h + 1\<rparr>)"

definition delete_block :: "heap \<Rightarrow> nat \<Rightarrow> heap" where
  "delete_block h a = h\<lparr>blocks := (blocks h)(a := None)\<rparr>"

section \<open>The class\<close>

text \<open>The pointer \<open>key\<close> leads to the member \<open>key_u\<close> or to a block.\<close>

datatype key_ref = KeyU | Block nat

record HashKey =
  key_u :: "byte list"
  key :: key_ref
  is_our_dynamic :: bool
  hk_size :: nat
  hk_hash :: uint64

definition deref :: "heap \<Rightarrow> HashKey \<Rightarrow> byte list" where
  "deref h k = (case key k of KeyU \<Rightarrow> key_u k | Block a \<Rightarrow> the (blocks h a))"

text \<open>The bytes from \<open>Key()\<close> on, \<open>Size()\<close> of them.\<close>

definition key_bytes :: "heap \<Rightarrow> HashKey \<Rightarrow> byte list" where
  "key_bytes h k = take (hk_size k) (deref h k)"

definition CopyKey :: "heap \<Rightarrow> byte list \<Rightarrow> nat \<Rightarrow> nat \<times> heap" where
  "CopyKey h k s = new_block h (take s k)"

definition HashKey_int :: "hash_env \<Rightarrow> uint64 \<Rightarrow> HashKey" where
  "HashKey_int env i =
     \<lparr>key_u = U64TO8_LE i, key = KeyU, is_our_dynamic = False, hk_size = 8, hk_hash = HashBytes env (take 8 (U64TO8_LE i))\<rparr>"

definition HashKey_uint :: "hash_env \<Rightarrow> uint64 \<Rightarrow> HashKey" where
  "HashKey_uint env u =
     \<lparr>key_u = U64TO8_LE u, key = KeyU, is_our_dynamic = False, hk_size = 8, hk_hash = HashBytes env (take 8 (U64TO8_LE u))\<rparr>"

text \<open>The upper bytes of the union keep what was there (\<open>old\<close>).\<close>

definition HashKey_uint32 :: "hash_env \<Rightarrow> byte list \<Rightarrow> uint32 \<Rightarrow> HashKey" where
  "HashKey_uint32 env old u =
     \<lparr>key_u = U32TO8_LE u @ old, key = KeyU, is_our_dynamic = False, hk_size = 4,
      hk_hash = HashBytes env (take 4 (U32TO8_LE u @ old))\<rparr>"

definition HashKey_array :: "hash_env \<Rightarrow> heap \<Rightarrow> nat \<Rightarrow> nat \<Rightarrow> HashKey" where
  "HashKey_array env h u n =
     \<lparr>key_u = [], key = Block u, is_our_dynamic = False, hk_size = n * 4,
      hk_hash = HashBytes env (take (n * 4) (the (blocks h u)))\<rparr>"

text \<open>A \<open>double\<close> and a pointer by their eight bytes.\<close>

definition HashKey_double :: "hash_env \<Rightarrow> uint64 \<Rightarrow> HashKey" where
  "HashKey_double env d =
     \<lparr>key_u = U64TO8_LE d, key = KeyU, is_our_dynamic = False, hk_size = 8, hk_hash = HashBytes env (take 8 (U64TO8_LE d))\<rparr>"

definition HashKey_pointer :: "hash_env \<Rightarrow> uint64 \<Rightarrow> HashKey" where
  "HashKey_pointer env p =
     \<lparr>key_u = U64TO8_LE p, key = KeyU, is_our_dynamic = False, hk_size = 8, hk_hash = HashBytes env (take 8 (U64TO8_LE p))\<rparr>"

definition strlen :: "byte list \<Rightarrow> nat" where
  "strlen s = length (takeWhile (\<lambda>c. c \<noteq> 0) s)"

definition HashKey_str :: "hash_env \<Rightarrow> heap \<Rightarrow> nat \<Rightarrow> HashKey" where
  "HashKey_str env h s =
     (let size = strlen (the (blocks h s))
      in \<lparr>key_u = [], key = Block s, is_our_dynamic = False, hk_size = size,
          hk_hash = HashBytes env (take size (the (blocks h s)))\<rparr>)"

definition HashKey_take :: "hash_env \<Rightarrow> heap \<Rightarrow> bool \<Rightarrow> nat \<Rightarrow> nat \<Rightarrow> HashKey \<times> heap" where
  "HashKey_take env h copy_key arg_key arg_size =
     (let (k, h) = (if copy_key then new_block h (take arg_size (the (blocks h arg_key))) else (arg_key, h))
      in (\<lparr>key_u = [], key = Block k, is_our_dynamic = True, hk_size = arg_size,
           hk_hash = HashBytes env (take arg_size (the (blocks h k)))\<rparr>, h))"

definition HashKey_hashed :: "heap \<Rightarrow> nat \<Rightarrow> nat \<Rightarrow> uint64 \<Rightarrow> HashKey \<times> heap" where
  "HashKey_hashed h arg_key arg_size arg_hash =
     (let (k, h) = CopyKey h (the (blocks h arg_key)) arg_size
      in (\<lparr>key_u = [], key = Block k, is_our_dynamic = True, hk_size = arg_size, hk_hash = arg_hash\<rparr>, h))"

definition HashKey_view :: "nat \<Rightarrow> nat \<Rightarrow> uint64 \<Rightarrow> HashKey" where
  "HashKey_view arg_key arg_size arg_hash =
     \<lparr>key_u = [], key = Block arg_key, is_our_dynamic = False, hk_size = arg_size, hk_hash = arg_hash\<rparr>"

definition HashKey_bytes :: "hash_env \<Rightarrow> heap \<Rightarrow> nat \<Rightarrow> nat \<Rightarrow> HashKey \<times> heap" where
  "HashKey_bytes env h bytes arg_size =
     (let (k, h) = CopyKey h (the (blocks h bytes)) arg_size
      in (\<lparr>key_u = [], key = Block k, is_our_dynamic = True, hk_size = arg_size,
           hk_hash = HashBytes env (take arg_size (the (blocks h k)))\<rparr>, h))"

definition TakeKey :: "heap \<Rightarrow> HashKey \<Rightarrow> nat \<times> HashKey \<times> heap" where
  "TakeKey h k =
     (case (is_our_dynamic k, key k) of
        (True, Block a) \<Rightarrow> (a, k\<lparr>is_our_dynamic := False\<rparr>, h)
      | _ \<Rightarrow> (let (a, h) = CopyKey h (deref h k) (hk_size k) in (a, k, h)))"

definition destroy_HashKey :: "heap \<Rightarrow> HashKey \<Rightarrow> heap" where
  "destroy_HashKey h k =
     (case (is_our_dynamic k, key k) of (True, Block a) \<Rightarrow> delete_block h a | _ \<Rightarrow> h)"

section \<open>Dictionaries by key\<close>

definition Lookup_HashKey :: "heap \<Rightarrow> Dictionary \<Rightarrow> HashKey \<Rightarrow> ptr \<times> Dictionary" where
  "Lookup_HashKey h d k = Dictionary_Lookup d (key_bytes h k) (hk_hash k)"

definition Insert_HashKey :: "heap \<Rightarrow> Dictionary \<Rightarrow> HashKey \<Rightarrow> ptr \<Rightarrow> (dict_error + ptr \<times> Dictionary) \<times> HashKey \<times> heap" where
  "Insert_HashKey h d k val =
     (let (a, k, h) = TakeKey h k
      in (Dictionary_Insert d (take (hk_size k) (the (blocks h a))) (hk_hash k) val, k, h))"

definition Remove_HashKey :: "heap \<Rightarrow> Dictionary \<Rightarrow> HashKey \<Rightarrow> dict_error + ptr \<times> Dictionary" where
  "Remove_HashKey h d k = Dictionary_Remove d (key_bytes h k) (hk_hash k) False"

definition PDict_Lookup :: "hash_env \<Rightarrow> heap \<Rightarrow> Dictionary \<Rightarrow> nat \<Rightarrow> ptr \<times> Dictionary" where
  "PDict_Lookup env h d s = Lookup_HashKey h d (HashKey_str env h s)"

definition PDict_Insert :: "hash_env \<Rightarrow> heap \<Rightarrow> Dictionary \<Rightarrow> nat \<Rightarrow> ptr \<Rightarrow> (dict_error + ptr \<times> Dictionary) \<times> heap" where
  "PDict_Insert env h d s val =
     (let (r, k, h) = Insert_HashKey h d (HashKey_str env h s) val in (r, destroy_HashKey h k))"

definition PDict_RemoveEntry :: "heap \<Rightarrow> Dictionary \<Rightarrow> HashKey \<Rightarrow> dict_error + ptr \<times> Dictionary" where
  "PDict_RemoveEntry h d k = Remove_HashKey h d k"

section \<open>Keys are valid\<close>

text \<open>What \<open>Key()\<close> points to can be read for \<open>Size()\<close> bytes, and only a block is owned.\<close>

definition hk_ok :: "heap \<Rightarrow> HashKey \<Rightarrow> bool" where
  "hk_ok h k \<longleftrightarrow> heap_ok h \<and> hk_size k \<le> length (deref h k) \<and>
     (case key k of KeyU \<Rightarrow> \<not> is_our_dynamic k | Block a \<Rightarrow> blocks h a \<noteq> None)"

lemma new_block_fresh:
  assumes "heap_ok h" "new_block h bs = (a, h')"
  shows "heap_ok h'" "blocks h' a = Some bs" "blocks h a = None" "\<And>b. b \<noteq> a \<Longrightarrow> blocks h' b = blocks h b"
  using assms by (auto simp: new_block_def heap_ok_def)

lemma TakeKey_block:
  assumes "hk_ok h k" "TakeKey h k = (a, k', h')"
  shows "heap_ok h'" "\<exists>bs. blocks h' a = Some bs \<and> take (hk_size k) bs = key_bytes h k" "\<not> is_our_dynamic k'"
    "\<And>b. b \<noteq> a \<Longrightarrow> blocks h' b = blocks h b" "hk_size k' = hk_size k" "hk_hash k' = hk_hash k"
  using assms by (auto simp: TakeKey_def hk_ok_def CopyKey_def new_block_def heap_ok_def key_bytes_def deref_def
      split: if_splits key_ref.splits bool.splits)

lemma TakeKey_fresh:
  "hk_ok h k \<Longrightarrow> TakeKey h k = (a, k', h') \<Longrightarrow> blocks h a \<noteq> None \<longleftrightarrow> is_our_dynamic k"
  by (auto simp: TakeKey_def hk_ok_def CopyKey_def new_block_def heap_ok_def split: if_splits key_ref.splits bool.splits)

lemma key_bytes_str: "key_bytes h (HashKey_str env h s) = takeWhile (\<lambda>c. c \<noteq> 0) (the (blocks h s))"
  by (simp add: HashKey_str_def key_bytes_def deref_def strlen_def Let_def takeWhile_eq_take [symmetric])

lemma HashKey_str_ok: "heap_ok h \<Longrightarrow> blocks h s \<noteq> None \<Longrightarrow> hk_ok h (HashKey_str env h s)"
  by (simp add: hk_ok_def HashKey_str_def Let_def deref_def strlen_def length_takeWhile_le)

lemma hash_str: "hk_hash (HashKey_str env h s) = HashBytes env (key_bytes h (HashKey_str env h s))"
  by (simp add: HashKey_str_def key_bytes_def deref_def Let_def)

section \<open>Properties\<close>

text \<open>
  C29. \<open>TakeKey\<close> hands over the bytes of a key: the block it returns holds them, stays allocated when the key is
  destroyed, and no other block of memory changes on the way.
\<close>

theorem TakeKey_transfers_ownership:
  assumes "hk_ok h k" "TakeKey h k = (a, k', h')"
  shows "(\<exists>bs. blocks (destroy_HashKey h' k') a = Some bs \<and> take (hk_size k) bs = key_bytes h k) \<and>
    (\<forall>b. b \<noteq> a \<longrightarrow> blocks (destroy_HashKey h' k') b = blocks h b) \<and>
    (blocks h a \<noteq> None \<longleftrightarrow> is_our_dynamic k)"
proof -
  have "destroy_HashKey h' k' = h'" using TakeKey_block(3) [OF assms] by (simp add: destroy_HashKey_def)
  then show ?thesis using TakeKey_block(2,4) [OF assms] TakeKey_fresh [OF assms] by simp
qed

definition demo_heap :: heap where
  "demo_heap = \<lparr>blocks = [0 \<mapsto> [104, 105, 0], 1 \<mapsto> [120, 0]], next_block = 2\<rparr>"

definition demo_env :: hash_env where
  "demo_env = \<lparr>shared_siphash_key = replicate 16 1, shared_hmac_md5_key = replicate 16 2, md5 = (\<lambda>bs. replicate 16 (of_nat (length bs)))\<rparr>"

lemma demo_heap_ok: "heap_ok demo_heap"
  by (simp add: heap_ok_def demo_heap_def)

theorem TakeKey_transfers_ownership_witness:
  "\<exists>a k' h'. TakeKey demo_heap (HashKey_view 0 2 7) = (a, k', h') \<and>
     (\<exists>bs. blocks (destroy_HashKey h' k') a = Some bs \<and> take 2 bs = [104, 105]) \<and> blocks demo_heap a = None"
proof -
  let ?k = "HashKey_view 0 2 7"
  obtain a k' h' where t: "TakeKey demo_heap ?k = (a, k', h')" by (metis prod_cases3)
  have "hk_ok demo_heap ?k" using demo_heap_ok by (simp add: hk_ok_def HashKey_view_def deref_def demo_heap_def)
  from TakeKey_transfers_ownership [OF this t] t show ?thesis
    by (auto simp: HashKey_view_def key_bytes_def deref_def demo_heap_def)
qed

text \<open>
  Every constructor that computes the hash hashes exactly the bytes of the key it builds, and those bytes are the
  bytes given: keys over equal bytes have equal hashes, however they were built.
\<close>

theorem HashKey_hash_of_bytes:
  assumes "heap_ok h" "blocks h a = Some bs" "n \<le> length bs"
  shows "key_bytes h (HashKey_int env i) = U64TO8_LE i \<and> hk_hash (HashKey_int env i) = HashBytes env (U64TO8_LE i) \<and>
    key_bytes h (HashKey_uint32 env old u) = U32TO8_LE u \<and> hk_hash (HashKey_uint32 env old u) = HashBytes env (U32TO8_LE u) \<and>
    (case HashKey_bytes env h a n of (k, h') \<Rightarrow>
       hk_ok h' k \<and> key_bytes h' k = take n bs \<and> hk_hash k = HashBytes env (take n bs) \<and> blocks (destroy_HashKey h' k) = blocks h) \<and>
    (case HashKey_take env h c a n of (k, h') \<Rightarrow>
       hk_ok h' k \<and> key_bytes h' k = take n bs \<and> hk_hash k = HashBytes env (take n bs)) \<and>
    key_bytes h (HashKey_str env h a) = takeWhile (\<lambda>c. c \<noteq> 0) bs \<and>
    hk_hash (HashKey_str env h a) = HashBytes env (takeWhile (\<lambda>c. c \<noteq> 0) bs)"
proof -
  have "blocks h (next_block h) = None" using assms(1) by (simp add: heap_ok_def)
  then have "case HashKey_bytes env h a n of (k, h') \<Rightarrow>
      hk_ok h' k \<and> key_bytes h' k = take n bs \<and> hk_hash k = HashBytes env (take n bs) \<and> blocks (destroy_HashKey h' k) = blocks h"
    using assms by (auto simp: HashKey_bytes_def CopyKey_def new_block_def hk_ok_def heap_ok_def key_bytes_def deref_def
        destroy_HashKey_def delete_block_def fun_eq_iff)
  moreover have "case HashKey_take env h c a n of (k, h') \<Rightarrow>
      hk_ok h' k \<and> key_bytes h' k = take n bs \<and> hk_hash k = HashBytes env (take n bs)"
    using assms by (auto simp: HashKey_take_def new_block_def hk_ok_def heap_ok_def key_bytes_def deref_def)
  moreover have "key_bytes h (HashKey_int env i) = U64TO8_LE i" "hk_hash (HashKey_int env i) = HashBytes env (U64TO8_LE i)"
      "key_bytes h (HashKey_uint32 env old u) = U32TO8_LE u" "hk_hash (HashKey_uint32 env old u) = HashBytes env (U32TO8_LE u)"
    by (simp_all add: HashKey_int_def HashKey_uint32_def key_bytes_def deref_def U64TO8_LE_def U32TO8_LE_def)
  ultimately show ?thesis using key_bytes_str [of h env a] hash_str [of env h a] assms(2) by simp
qed

theorem HashKey_hash_of_bytes_witness:
  "(case HashKey_bytes demo_env demo_heap 0 2 of (k, h') \<Rightarrow> key_bytes h' k = [104, 105]) \<and>
    hk_hash (fst (HashKey_bytes demo_env demo_heap 0 2)) = hk_hash (HashKey_str demo_env demo_heap 0)"
proof -
  have "blocks demo_heap 0 = Some [104, 105, 0]" by (simp add: demo_heap_def)
  from HashKey_hash_of_bytes [OF demo_heap_ok this, of 2 demo_env 0 "[]" 0 True] show ?thesis by auto
qed

text \<open>
  C28. A value inserted under a C string is found under every string with the same characters, and the values under all
  other strings stay what they were: keys, hash function and dictionary together.
\<close>

theorem PDict_insert_then_lookup:
  assumes "heap_ok h" "blocks h s = Some bs" "blocks h t = Some cs" "dict_inv d" "remap_safe d" "num_entries d < 65535"
    "strlen bs < 65536"
  shows "\<exists>old d' h'. PDict_Insert env h d s val = (Inr (old, d'), h') \<and> wf_dict d' \<and>
    fst (PDict_Lookup env h' d' t) =
      (if takeWhile (\<lambda>c. c \<noteq> 0) cs = takeWhile (\<lambda>c. c \<noteq> 0) bs then val else fst (PDict_Lookup env h d t))"
proof -
  let ?k = "HashKey_str env h s" and ?b = "takeWhile (\<lambda>c. c \<noteq> 0) bs" and ?c = "takeWhile (\<lambda>c. c \<noteq> 0) cs"
  obtain a k' h' where t: "TakeKey h ?k = (a, k', h')" by (metis prod_cases3)
  have ok: "hk_ok h ?k" using HashKey_str_ok assms(1,2) by simp
  note tk = TakeKey_block [OF ok t]
  have kb: "key_bytes h ?k = ?b" "hk_hash ?k = HashBytes env ?b" "key_bytes h (HashKey_str env h t) = ?c"
      "hk_hash (HashKey_str env h t) = HashBytes env ?c"
    using key_bytes_str [of h env] hash_str [of env h] assms(2,3) by simp_all
  have w: "wf_dict d" "order d = None" "iterators_robust d" using assms(4) by (auto simp: dict_inv_def)
  have len: "length ?b < 65536" using assms(7) by (simp add: strlen_def)
  obtain d' where d': "Dictionary_Insert d ?b (HashBytes env ?b) val = Inr (value_or_null (dict_map d (ucast (HashBytes env ?b), ?b)), d')"
      "wf_dict d'" "dict_map d' = (dict_map d)((ucast (HashBytes env ?b), ?b) \<mapsto> val)"
    by (rule Insert_law [OF w(1) assms(5) w(2,3) assms(6) len, of "HashBytes env ?b" val]) (simp add: value_or_null_def)
  have lk: "fst (Dictionary_Lookup e x y) = value_or_null (dict_map e (ucast y, x))" if "wf_dict e" for e x y
    by (rule Lookup_law [OF that, of x y]) (simp add: value_or_null_def)
  have "\<not> is_our_dynamic ?k" by (simp add: HashKey_str_def Let_def)
  then have "t \<noteq> a" using TakeKey_fresh [OF ok t] assms(3) by auto
  then have "blocks h' t = Some cs" using tk(4) assms(3) by simp
  then have h': "key_bytes h' (HashKey_str env h' t) = ?c" "hk_hash (HashKey_str env h' t) = HashBytes env ?c"
    using key_bytes_str [of h' env t] hash_str [of env h' t] by simp_all
  have "destroy_HashKey h' k' = h'" using tk(3) by (simp add: destroy_HashKey_def)
  moreover have "take (hk_size k') (the (blocks h' a)) = ?b" using tk(2,5) kb(1) by auto
  ultimately have "PDict_Insert env h d s val =
      (Inr (value_or_null (dict_map d (ucast (HashBytes env ?b), ?b)), d'), h')"
    using t d'(1) kb(2) tk(6) by (simp add: PDict_Insert_def Insert_HashKey_def)
  moreover have "fst (PDict_Lookup env h' d' t) = (if ?c = ?b then val else fst (PDict_Lookup env h d t))"
    using h' kb lk [OF d'(2)] lk [OF w(1)] by (simp add: PDict_Lookup_def Lookup_HashKey_def d'(3) value_or_null_def)
  ultimately show ?thesis using d'(2) by blast
qed

theorem PDict_insert_then_lookup_witness:
  "\<exists>old d' h'. PDict_Insert demo_env demo_heap demo_dict 0 99 = (Inr (old, d'), h') \<and> wf_dict d' \<and>
    fst (PDict_Lookup demo_env h' d' 1) = fst (PDict_Lookup demo_env demo_heap demo_dict 1)"
proof -
  have b: "blocks demo_heap 0 = Some [104, 105, 0]" "blocks demo_heap 1 = Some [120, 0]" by (simp_all add: demo_heap_def)
  have r: "remap_safe demo_dict" "num_entries demo_dict < 65535" using demo_dict_fields by (auto simp: remap_safe_def)
  have "strlen [104, 105, 0] < 65536" by (simp add: strlen_def)
  from PDict_insert_then_lookup [OF demo_heap_ok b demo_dict_inv(1) r this, of demo_env 99] show ?thesis by simp
qed

end
