(* ===== verification/Simulation.thy ===== *)
theory Simulation
  imports Prelude
begin

text \<open>
  Functional refinement of a component by runs of operations. A step maps a state and an operation to
  \<open>None\<close> (the program aborts) or to a result and the next state; the specification is a step function on
  abstract states. An implementation that simulates the specification step by step returns the same
  results on every sequence of operations and aborts exactly where the specification does.
\<close>

fun run_steps :: "('s \<Rightarrow> 'o \<Rightarrow> ('r \<times> 's) option) \<Rightarrow> 's \<Rightarrow> 'o list \<Rightarrow> ('r list \<times> 's) option" where
  "run_steps step s [] = Some ([], s)"
| "run_steps step s (x # xs) =
     (case step s x of
        None \<Rightarrow> None
      | Some (r, s) \<Rightarrow> (case run_steps step s xs of None \<Rightarrow> None | Some (rs, s) \<Rightarrow> Some (r # rs, s)))"

text \<open>The step \<open>c\<close> of the implementation answers the step \<open>a\<close> of the specification.\<close>

definition answers :: "('s \<Rightarrow> bool) \<Rightarrow> ('s \<Rightarrow> 'a) \<Rightarrow> ('r \<times> 's) option \<Rightarrow> ('r \<times> 'a) option \<Rightarrow> bool" where
  "answers good view c a \<longleftrightarrow>
     (case a of None \<Rightarrow> c = None | Some (r, t) \<Rightarrow> (\<exists>s. c = Some (r, s) \<and> good s \<and> view s = t))"

lemma answers_None [simp]: "answers good view c None \<longleftrightarrow> c = None"
  by (simp add: answers_def)

lemma answers_Some [simp]: "answers good view (Some (r, s)) (Some (r', t)) \<longleftrightarrow> r = r' \<and> good s \<and> view s = t"
  by (auto simp: answers_def)

locale simulation =
  fixes good :: "'s \<Rightarrow> bool"
    and view :: "'s \<Rightarrow> 'a"
    and step :: "'s \<Rightarrow> 'o \<Rightarrow> ('r \<times> 's) option"
    and spec :: "'a \<Rightarrow> 'o \<Rightarrow> ('r \<times> 'a) option"
  assumes simulates: "good s \<Longrightarrow> answers good view (step s x) (spec (view s) x)"
begin

lemma run_answers: "good s \<Longrightarrow> answers good view (run_steps step s xs) (run_steps spec (view s) xs)"
proof (induction xs arbitrary: s)
  case Nil
  then show ?case by simp
next
  case (Cons x xs)
  show ?case
  proof (cases "spec (view s) x")
    case None
    then show ?thesis using simulates [OF Cons.prems, of x] by simp
  next
    case (Some p)
    obtain r t where p: "p = (r, t)" by (cases p)
    obtain s' where s': "step s x = Some (r, s')" "good s'" "view s' = t"
      using simulates [OF Cons.prems, of x] Some p by (auto simp: answers_def)
    then show ?thesis
      using Cons.IH [OF s'(2)] Some p
      by (cases "run_steps spec t xs") (auto simp: answers_def)
  qed
qed

lemma run_results:
  "good s \<Longrightarrow> map_option fst (run_steps step s xs) = map_option fst (run_steps spec (view s) xs)"
  using run_answers [of s xs] by (cases "run_steps spec (view s) xs") (auto simp: answers_def)

end

end
