(* ===== verification/ZList.thy ===== *)
theory ZList
  imports Simulation
begin

text \<open>
  The growing array \<open>List<T>\<close> of \<open>dict/List.h\<close>. The allocated block is a list of cells (\<open>None\<close>: not yet
  written), \<open>max_entries\<close> its length, \<open>num_entries\<close> the number of cells in use. Counts do not reach the end of
  the range of \<open>int\<close>, and memory does not run out (the code aborts then). A failed \<open>assert\<close> is \<open>None\<close>.
\<close>

section \<open>The class\<close>

record 'a List =
  entries :: "'a option list"
  max_entries :: nat
  num_entries :: nat

definition DEFAULT_LIST_SIZE :: nat where "DEFAULT_LIST_SIZE = 10"
definition LIST_GROWTH_FACTOR :: nat where "LIST_GROWTH_FACTOR = 2"

definition safe_malloc :: "nat \<Rightarrow> 'a option list" where
  "safe_malloc n = replicate n None"

definition safe_realloc :: "'a option list \<Rightarrow> nat \<Rightarrow> 'a option list" where
  "safe_realloc p n = take n p @ replicate (n - length p) None"

definition new_List :: "int \<Rightarrow> 'a List" where
  "new_List sz =
     (if sz \<le> 0 then \<lparr>entries = [], max_entries = 0, num_entries = 0\<rparr>
      else \<lparr>entries = safe_malloc (nat sz), max_entries = nat sz, num_entries = 0\<rparr>)"

fun copy_entries :: "'a option list \<Rightarrow> 'a option list \<Rightarrow> nat \<Rightarrow> nat \<Rightarrow> 'a option list" where
  "copy_entries src dst i 0 = dst"
| "copy_entries src dst i (Suc n) = copy_entries src (dst[i := src ! i]) (i + 1) n"

definition copy_List :: "'a List \<Rightarrow> 'a List" where
  "copy_List b =
     (let e = (if max_entries b \<noteq> 0 then safe_malloc (max_entries b) else [])
      in \<lparr>entries = copy_entries (entries b) e 0 (num_entries b), max_entries = max_entries b,
          num_entries = num_entries b\<rparr>)"

text \<open>The new list and what is left of the argument.\<close>

definition move_List :: "'a List \<Rightarrow> 'a List \<times> 'a List" where
  "move_List b =
     (\<lparr>entries = entries b, max_entries = max_entries b, num_entries = num_entries b\<rparr>,
      \<lparr>entries = [], max_entries = 0, num_entries = 0\<rparr>)"

definition array_List :: "'a list \<Rightarrow> 'a List" where
  "array_List arr = \<lparr>entries = map Some arr, max_entries = length arr, num_entries = length arr\<rparr>"

text \<open>Assignments; the first argument says whether both sides are the same object.\<close>

definition List_assign :: "bool \<Rightarrow> 'a List \<Rightarrow> 'a List \<Rightarrow> 'a List" where
  "List_assign same a b =
     (if same then a
      else
        let e = (if max_entries b \<noteq> 0 then safe_malloc (max_entries b) else [])
        in \<lparr>entries = copy_entries (entries b) e 0 (num_entries b), max_entries = max_entries b,
            num_entries = num_entries b\<rparr>)"

definition List_move_assign :: "bool \<Rightarrow> 'a List \<Rightarrow> 'a List \<Rightarrow> 'a List \<times> 'a List" where
  "List_move_assign same a b =
     (if same then (a, a)
      else
        (\<lparr>entries = entries b, max_entries = max_entries b, num_entries = num_entries b\<rparr>,
         \<lparr>entries = [], max_entries = 0, num_entries = 0\<rparr>))"

definition List_nth :: "'a List \<Rightarrow> nat \<Rightarrow> 'a" where
  "List_nth l i = the (entries l ! i)"

definition List_clear :: "'a List \<Rightarrow> 'a List" where
  "List_clear l = \<lparr>entries = [], max_entries = 0, num_entries = 0\<rparr>"

definition List_length :: "'a List \<Rightarrow> nat" where
  "List_length l = num_entries l"

definition List_max :: "'a List \<Rightarrow> nat" where
  "List_max l = max_entries l"

text \<open>\<open>realloc\<close> to size 0 may return the null pointer; the capacity is 0 either way.\<close>

definition List_resize :: "'a List \<Rightarrow> int \<Rightarrow> nat \<times> 'a List" where
  "List_resize l new_size =
     (let new_size = (if new_size < int (num_entries l) then int (num_entries l) else new_size);
          l = (if new_size \<noteq> int (max_entries l)
               then l\<lparr>entries := safe_realloc (entries l) (nat new_size), max_entries := nat new_size\<rparr>
               else l)
      in (max_entries l, l))"

text \<open>\<open>qsort\<close> is given by its effect on the cells in use.\<close>

definition List_sort :: "('a list \<Rightarrow> 'a list) \<Rightarrow> 'a List \<Rightarrow> 'a List" where
  "List_sort qsort l =
     l\<lparr>entries := map Some (qsort (map the (take (num_entries l) (entries l)))) @ drop (num_entries l) (entries l)\<rparr>"

text \<open>The statement that makes room in \<open>insert\<close>, \<open>sortedinsert\<close> and \<open>append\<close>.\<close>

definition make_room :: "'a List \<Rightarrow> 'a List" where
  "make_room l =
     (if num_entries l = max_entries l
      then snd (List_resize l (int (if max_entries l \<noteq> 0 then max_entries l * LIST_GROWTH_FACTOR else DEFAULT_LIST_SIZE)))
      else l)"

fun shift_up :: "'a option list \<Rightarrow> nat \<Rightarrow> 'a option list" where
  "shift_up es 0 = es"
| "shift_up es (Suc i) = shift_up (es[Suc i := es ! i]) i"

definition List_insert :: "'a List \<Rightarrow> 'a \<Rightarrow> 'a List" where
  "List_insert l a =
     (let l = make_room l;
          l = l\<lparr>entries := shift_up (entries l) (num_entries l)\<rparr>;
          l = l\<lparr>num_entries := num_entries l + 1\<rparr>
      in l\<lparr>entries := (entries l)[0 := Some a]\<rparr>)"

fun sortedinsert_loop :: "('a \<Rightarrow> 'a \<Rightarrow> int) \<Rightarrow> 'a option list \<Rightarrow> nat \<Rightarrow> 'a option list" where
  "sortedinsert_loop cmp es 0 = es"
| "sortedinsert_loop cmp es (Suc i) =
     (if cmp (the (es ! Suc i)) (the (es ! i)) \<le> 0 then es
      else
        let tmp = es ! Suc i;
            es = es[Suc i := es ! i];
            es = es[i := tmp]
        in sortedinsert_loop cmp es i)"

definition List_append :: "'a List \<Rightarrow> 'a \<Rightarrow> 'a List" where
  "List_append l a =
     (let l = make_room l
      in l\<lparr>entries := (entries l)[num_entries l := Some a], num_entries := num_entries l + 1\<rparr>)"

definition sortedinsert :: "'a List \<Rightarrow> 'a \<Rightarrow> ('a \<Rightarrow> 'a \<Rightarrow> int) \<Rightarrow> 'a List" where
  "sortedinsert l a cmp_func =
     (let l = make_room l;
          l = l\<lparr>entries := (entries l)[num_entries l := Some a], num_entries := num_entries l + 1\<rparr>
      in l\<lparr>entries := sortedinsert_loop cmp_func (entries l) (num_entries l - 1)\<rparr>)"

definition push_back :: "'a List \<Rightarrow> 'a \<Rightarrow> 'a List" where
  "push_back l a = List_append l a"

definition push_front :: "'a List \<Rightarrow> 'a \<Rightarrow> 'a List" where
  "push_front l a = List_insert l a"

function shift_down :: "'a option list \<Rightarrow> nat \<Rightarrow> nat \<Rightarrow> 'a option list" where
  "shift_down es n num = (if n < num then shift_down (es[n := es ! (n + 1)]) (n + 1) num else es)"
  by pat_completeness auto
termination
  by (relation "measure (\<lambda>(es, n, num). num - n)") auto

declare shift_down.simps [simp del]

definition remove_nth :: "'a List \<Rightarrow> int \<Rightarrow> ('a \<times> 'a List) option" where
  "remove_nth l n =
     (if \<not> (n \<ge> 0 \<and> n < int (num_entries l)) then None
      else
        let old_ent = the (entries l ! nat n);
            num = num_entries l - 1
        in Some (old_ent, l\<lparr>entries := shift_down (entries l) (nat n) num, num_entries := num\<rparr>))"

text \<open>\<open>pop_front\<close> of a list of pointers: the pointer handed to \<open>delete\<close> and the list.\<close>

definition pop_front :: "'a List \<Rightarrow> ('a \<times> 'a List) option" where
  "pop_front l = remove_nth l 0"

function remove_from :: "'a List \<Rightarrow> 'a \<Rightarrow> nat \<Rightarrow> bool \<times> 'a List" where
  "remove_from l a i =
     (if i < num_entries l
      then if a = the (entries l ! i) then (True, snd (the (remove_nth l (int i)))) else remove_from l a (i + 1)
      else (False, l))"
  by pat_completeness auto
termination
  by (relation "measure (\<lambda>(l, a, i). num_entries l - i)") auto

declare remove_from.simps [simp del]

definition List_remove :: "'a List \<Rightarrow> 'a \<Rightarrow> bool \<times> 'a List" where
  "List_remove l a = remove_from l a 0"

definition List_get :: "'a List \<Rightarrow> ('a \<times> 'a List) option" where
  "List_get l =
     (if num_entries l > 0
      then
        let l = l\<lparr>num_entries := num_entries l - 1\<rparr>
        in Some (the (entries l ! num_entries l), l)
      else None)"

definition List_last :: "'a List \<Rightarrow> 'a" where
  "List_last l = the (entries l ! (num_entries l - 1))"

definition member_pos :: "'a List \<Rightarrow> 'a \<Rightarrow> int" where
  "member_pos l e =
     (let i = scan (\<lambda>i. e \<noteq> the (entries l ! i)) (List_length l) 0
      in if i = List_length l then -1 else int i)"

definition is_member :: "'a List \<Rightarrow> 'a \<Rightarrow> bool" where
  "is_member l a \<longleftrightarrow> (let pos = member_pos l a in pos \<noteq> -1)"

text \<open>\<open>replace\<close> needs entries that are pointers.\<close>

fun null_entries :: "ptr option list \<Rightarrow> nat \<Rightarrow> nat \<Rightarrow> ptr option list" where
  "null_entries es i 0 = es"
| "null_entries es i (Suc n) = null_entries (es[i := Some NULL]) (i + 1) n"

definition List_replace :: "ptr List \<Rightarrow> int \<Rightarrow> ptr \<Rightarrow> ptr \<times> ptr List" where
  "List_replace l ent_index new_ent =
     (if ent_index < 0 then (NULL, l)
      else
        let (old_ent, l) =
          (if ent_index > int (num_entries l) - 1
           then
             let l = snd (List_resize l (ent_index + 1));
                 l = l\<lparr>entries := null_entries (entries l) (num_entries l) (max_entries l - num_entries l)\<rparr>
             in (NULL, l\<lparr>num_entries := max_entries l\<rparr>)
           else (the (entries l ! nat ent_index), l))
        in (old_ent, l\<lparr>entries := (entries l)[nat ent_index := Some new_ent]\<rparr>))"

section \<open>The invariant and the sequence a list stands for\<close>

definition List_ok :: "'a List \<Rightarrow> bool" where
  "List_ok l \<longleftrightarrow> length (entries l) = max_entries l \<and> num_entries l \<le> max_entries l \<and>
     (\<forall>i < num_entries l. entries l ! i \<noteq> None)"

definition elems :: "'a List \<Rightarrow> 'a list" where
  "elems l = map the (take (num_entries l) (entries l))"

text \<open>Cells \<open>es\<close> hold the sequence \<open>xs\<close> at the front.\<close>

definition holds :: "'a option list \<Rightarrow> 'a list \<Rightarrow> bool" where
  "holds es xs \<longleftrightarrow> length xs \<le> length es \<and> (\<forall>i < length xs. es ! i = Some (xs ! i))"

lemma List_ok_iff: "List_ok l \<longleftrightarrow> length (entries l) = max_entries l \<and> num_entries l \<le> max_entries l \<and> holds (entries l) (elems l)"
  unfolding List_ok_def elems_def holds_def by (metis (no_types, lifting) length_map length_take less_le_trans min.absorb2 nth_map
      nth_take option.collapse option.distinct(1))

lemma length_elems: "List_ok l \<Longrightarrow> length (elems l) = num_entries l"
  by (simp add: List_ok_def elems_def)

lemma elems_nth: "List_ok l \<Longrightarrow> i < num_entries l \<Longrightarrow> entries l ! i = Some (elems l ! i)"
  by (auto simp: List_ok_def elems_def)

lemma listI:
  assumes "length es = m" "length xs = n" "holds es xs"
  shows "List_ok \<lparr>entries = es, max_entries = m, num_entries = n\<rparr>"
    "elems \<lparr>entries = es, max_entries = m, num_entries = n\<rparr> = xs"
proof -
  show "elems \<lparr>entries = es, max_entries = m, num_entries = n\<rparr> = xs"
    using assms by (auto simp: elems_def holds_def intro!: nth_equalityI)
  then show "List_ok \<lparr>entries = es, max_entries = m, num_entries = n\<rparr>"
    using assms by (auto simp: List_ok_iff holds_def)
qed

lemma List_okE:
  assumes "List_ok l"
  obtains es where "l = \<lparr>entries = es, max_entries = length es, num_entries = length (elems l)\<rparr>" "holds es (elems l)"
  using assms by (cases l) (auto simp: List_ok_iff length_elems)

text \<open>Growing and shrinking the block, and the loops over it.\<close>

lemma holds_realloc: "holds es xs \<Longrightarrow> length xs \<le> n \<Longrightarrow> holds (safe_realloc es n) xs"
  by (auto simp: holds_def safe_realloc_def nth_append)

lemma length_realloc [simp]: "length (safe_realloc es n) = n"
  by (simp add: safe_realloc_def min_def)

lemma holds_snoc: "holds es xs \<Longrightarrow> length xs < length es \<Longrightarrow> holds (es[length xs := Some a]) (xs @ [a])"
  by (auto simp: holds_def nth_append less_Suc_eq)

lemma shift_up_nth:
  "n < length es \<Longrightarrow> length (shift_up es n) = length es \<and>
    (\<forall>j < length es. shift_up es n ! j = (if 0 < j \<and> j \<le> n then es ! (j - 1) else es ! j))"
  by (induction n arbitrary: es) (auto simp: nth_list_update less_Suc_eq_le le_Suc_eq)

lemma shift_down_nth:
  "num < length es \<Longrightarrow> length (shift_down es n num) = length es \<and>
    (\<forall>j < length es. shift_down es n num ! j = (if n \<le> j \<and> j < num then es ! (j + 1) else es ! j))"
proof (induction es n num rule: shift_down.induct)
  case (1 es n num)
  show ?case
  proof (cases "n < num")
    case True
    then show ?thesis
      using "1.IH" [OF True] "1.prems" by (auto simp: shift_down.simps [of es n num] nth_list_update not_less_eq_eq le_antisym)
  next
    case False
    then show ?thesis by (auto simp: shift_down.simps [of es n num])
  qed
qed

lemma copy_entries_nth:
  "i + n \<le> length dst \<Longrightarrow> length (copy_entries src dst i n) = length dst \<and>
    (\<forall>j < length dst. copy_entries src dst i n ! j = (if i \<le> j \<and> j < i + n then src ! j else dst ! j))"
  by (induction n arbitrary: dst i) (auto simp: nth_list_update Suc_le_eq le_less)

lemma null_entries_nth:
  "i + n \<le> length es \<Longrightarrow> length (null_entries es i n) = length es \<and>
    (\<forall>j < length es. null_entries es i n ! j = (if i \<le> j \<and> j < i + n then Some NULL else es ! j))"
  by (induction n arbitrary: es i) (auto simp: nth_list_update)

lemma holds_shift_up:
  assumes "holds es xs" "length xs < length es"
  shows "holds ((shift_up es (length xs))[0 := Some a]) (a # xs)"
proof -
  note su = shift_up_nth [OF assms(2)]
  have "0 < length es" using assms(2) by linarith
  then have "((shift_up es (length xs))[0 := Some a]) ! i = Some ((a # xs) ! i)" if "i < Suc (length xs)" for i
    using su assms that by (cases i) (auto simp: holds_def)
  then show ?thesis using su assms(2) by (simp add: holds_def)
qed

lemma holds_shift_down:
  assumes "holds es xs" "n < length xs"
  shows "holds (shift_down es n (length xs - 1)) (take n xs @ drop (Suc n) xs)"
  using assms shift_down_nth [of "length xs - 1" es n] by (auto simp: holds_def nth_append min_def)

text \<open>What the operations mean for a sequence.\<close>

definition seq_index :: "'a list \<Rightarrow> 'a \<Rightarrow> nat" where
  "seq_index xs a = length (takeWhile (\<lambda>x. x \<noteq> a) xs)"

definition seq_drop :: "'a list \<Rightarrow> nat \<Rightarrow> 'a list" where
  "seq_drop xs n = take n xs @ drop (Suc n) xs"

section \<open>The operations on sequences\<close>

lemma List_resize_ok:
  assumes "List_ok l"
  shows "List_ok (snd (List_resize l n))" "elems (snd (List_resize l n)) = elems l"
    "int (max_entries (snd (List_resize l n))) = max n (int (num_entries l))"
proof -
  obtain es where l: "l = \<lparr>entries = es, max_entries = length es, num_entries = length (elems l)\<rparr>" "holds es (elems l)"
    using assms by (rule List_okE)
  define m where "m = nat (max n (int (length (elems l))))"
  have m: "length (elems l) \<le> m" "length es = m \<Longrightarrow> int (length es) = max n (int (length (elems l)))"
    by (auto simp: m_def)
  have "snd (List_resize l n) = \<lparr>entries = (if length es = m then es else safe_realloc es m), max_entries = m,
      num_entries = length (elems l)\<rparr>"
    by (subst l(1)) (auto simp: List_resize_def Let_def m_def max_def)
  then show "List_ok (snd (List_resize l n))" "elems (snd (List_resize l n)) = elems l"
      "int (max_entries (snd (List_resize l n))) = max n (int (num_entries l))"
    using listI [of "if length es = m then es else safe_realloc es m" m "elems l"] l(2) m(1) holds_realloc [OF l(2) m(1)]
      length_elems [OF assms]
    by (auto simp: m_def)
qed

lemma make_room_ok:
  assumes "List_ok l"
  shows "List_ok (make_room l)" "elems (make_room l) = elems l" "num_entries (make_room l) < max_entries (make_room l)"
proof -
  show o: "List_ok (make_room l)" "elems (make_room l) = elems l"
    using List_resize_ok(1,2) [OF assms] assms by (auto simp: make_room_def)
  have "num_entries (make_room l) = num_entries l" using length_elems [OF o(1)] length_elems [OF assms] o(2) by simp
  moreover have "num_entries l \<le> max_entries l" using assms by (simp add: List_ok_def)
  ultimately show "num_entries (make_room l) < max_entries (make_room l)"
    using List_resize_ok(3) [OF assms, of "int (max_entries l * LIST_GROWTH_FACTOR)"] List_resize_ok(3) [OF assms, of "int DEFAULT_LIST_SIZE"]
    by (auto simp: make_room_def LIST_GROWTH_FACTOR_def DEFAULT_LIST_SIZE_def)
qed

lemma room_cells:
  assumes "List_ok l"
  obtains es where "make_room l = \<lparr>entries = es, max_entries = length es, num_entries = length (elems l)\<rparr>"
    "holds es (elems l)" "length (elems l) < length es"
proof -
  from make_room_ok(1) [OF assms] obtain es where
    es: "make_room l = \<lparr>entries = es, max_entries = length es, num_entries = length (elems (make_room l))\<rparr>" "holds es (elems (make_room l))"
    by (rule List_okE)
  then have "length (elems (make_room l)) < length es" using make_room_ok(3) [OF assms] by (metis List.select_convs(2,3))
  with es that make_room_ok(2) [OF assms] show ?thesis by simp
qed

lemma List_insert_ok: "List_ok l \<Longrightarrow> List_ok (List_insert l a) \<and> elems (List_insert l a) = a # elems l"
proof -
  assume "List_ok l"
  then obtain es where es: "make_room l = \<lparr>entries = es, max_entries = length es, num_entries = length (elems l)\<rparr>"
      "holds es (elems l)" "length (elems l) < length es"
    by (rule room_cells)
  let ?es = "(shift_up es (length (elems l)))[0 := Some a]"
  have "length ?es = length es" "holds ?es (a # elems l)" using shift_up_nth [OF es(3)] holds_shift_up [OF es(2,3)] by auto
  then show ?thesis using listI [of ?es "length es" "a # elems l" "Suc (length (elems l))"] by (simp add: List_insert_def es(1) Let_def)
qed

lemma List_append_ok: "List_ok l \<Longrightarrow> List_ok (List_append l a) \<and> elems (List_append l a) = elems l @ [a]"
proof -
  assume "List_ok l"
  then obtain es where es: "make_room l = \<lparr>entries = es, max_entries = length es, num_entries = length (elems l)\<rparr>"
      "holds es (elems l)" "length (elems l) < length es"
    by (rule room_cells)
  let ?es = "es[length (elems l) := Some a]"
  show ?thesis
    using listI [of ?es "length es" "elems l @ [a]" "Suc (length (elems l))"] holds_snoc [OF es(2,3)]
    by (simp add: List_append_def es(1) Let_def)
qed

lemma remove_nth_ok:
  assumes "List_ok l"
  shows "if 0 \<le> n \<and> n < int (length (elems l))
    then \<exists>l'. remove_nth l n = Some (elems l ! nat n, l') \<and> List_ok l' \<and> elems l' = seq_drop (elems l) (nat n)
    else remove_nth l n = None"
proof (cases "0 \<le> n \<and> n < int (length (elems l))")
  case True
  obtain es where l: "l = \<lparr>entries = es, max_entries = length es, num_entries = length (elems l)\<rparr>" "holds es (elems l)"
    using assms by (rule List_okE)
  have n: "nat n < length (elems l)" using True by linarith
  let ?num = "length (elems l) - 1"
  let ?es = "shift_down es (nat n) ?num"
  have e: "entries l ! nat n = Some (elems l ! nat n)" using elems_nth [OF assms] n length_elems [OF assms] by simp
  have "?num < length es" using l(2) n unfolding holds_def by linarith
  then have "length ?es = length es" using shift_down_nth by blast
  moreover have "holds ?es (seq_drop (elems l) (nat n))"
    unfolding seq_drop_def by (rule holds_shift_down [OF l(2) n])
  moreover have "length (seq_drop (elems l) (nat n)) = ?num" using n by (simp add: seq_drop_def)
  ultimately have "List_ok \<lparr>entries = ?es, max_entries = length es, num_entries = ?num\<rparr>"
    "elems \<lparr>entries = ?es, max_entries = length es, num_entries = ?num\<rparr> = seq_drop (elems l) (nat n)"
    using listI [of ?es "length es" "seq_drop (elems l) (nat n)" ?num] by auto
  moreover have "remove_nth l n = Some (elems l ! nat n, \<lparr>entries = ?es, max_entries = length es, num_entries = ?num\<rparr>)"
    using True e length_elems [OF assms] l(1) by (cases l) (simp add: remove_nth_def Let_def)
  ultimately show ?thesis using True by auto
next
  case False
  then show ?thesis using length_elems [OF assms] by (auto simp: remove_nth_def)
qed

lemma seq_index_in: "a \<in> set xs \<Longrightarrow> seq_index xs a < length xs \<and> xs ! seq_index xs a = a \<and> (\<forall>i < seq_index xs a. xs ! i \<noteq> a)"
  by (induction xs) (auto simp: seq_index_def nth_Cons split: nat.split)

lemma seq_drop_index: "a \<in> set xs \<Longrightarrow> seq_drop xs (seq_index xs a) = remove1 a xs"
  by (induction xs) (auto simp: seq_index_def seq_drop_def)

lemma scan_index:
  assumes "List_ok l"
  shows "scan (\<lambda>i. a \<noteq> the (entries l ! i)) (num_entries l) 0 =
    (if a \<in> set (elems l) then seq_index (elems l) a else length (elems l))"
proof -
  have n: "\<And>i. i < length (elems l) \<Longrightarrow> the (entries l ! i) = elems l ! i" "num_entries l = length (elems l)"
    using elems_nth [OF assms] length_elems [OF assms] by auto
  show ?thesis
  proof (cases "a \<in> set (elems l)")
    case True
    from seq_index_in [OF this] n have "scan (\<lambda>i. a \<noteq> the (entries l ! i)) (num_entries l) 0 = seq_index (elems l) a"
      by (intro scan_eqI) auto
    then show ?thesis using True by simp
  next
    case False
    then have "scan (\<lambda>i. a \<noteq> the (entries l ! i)) (num_entries l) 0 = length (elems l)"
      using n by (intro scan_eqI) (auto simp: in_set_conv_nth)
    then show ?thesis using False by simp
  qed
qed

lemma remove_from_scan:
  "remove_from l a i =
     (let j = scan (\<lambda>i. a \<noteq> the (entries l ! i)) (num_entries l) i
      in if j < num_entries l then (True, snd (the (remove_nth l (int j)))) else (False, l))"
proof (induction l a i rule: remove_from.induct)
  case (1 l a i)
  show ?case
    using "1.IH" by (subst remove_from.simps, subst scan.simps) (auto simp: Let_def)
qed

lemma List_remove_ok:
  assumes "List_ok l"
  shows "\<exists>l'. List_remove l a = (a \<in> set (elems l), l') \<and> List_ok l' \<and> elems l' = remove1 a (elems l)"
proof (cases "a \<in> set (elems l)")
  case True
  let ?j = "seq_index (elems l) a"
  have j: "?j < length (elems l)" using seq_index_in [OF True] by simp
  then obtain l' where "remove_nth l (int ?j) = Some (elems l ! ?j, l')" "List_ok l'" "elems l' = seq_drop (elems l) ?j"
    using remove_nth_ok [OF assms, of "int ?j"] by auto
  then show ?thesis
    using True j length_elems [OF assms]
    by (simp add: List_remove_def remove_from_scan scan_index [OF assms] Let_def seq_drop_index)
next
  case False
  then show ?thesis
    using assms length_elems [OF assms] by (simp add: List_remove_def remove_from_scan scan_index [OF assms] Let_def remove1_idem)
qed

lemma member_pos_ok:
  "List_ok l \<Longrightarrow> member_pos l a = (if a \<in> set (elems l) then int (seq_index (elems l) a) else -1)"
  using seq_index_in [of a "elems l"] length_elems [of l] by (auto simp: member_pos_def List_length_def scan_index Let_def)

lemma List_get_ok:
  assumes "List_ok l"
  shows "if elems l = [] then List_get l = None
    else \<exists>l'. List_get l = Some (last (elems l), l') \<and> List_ok l' \<and> elems l' = butlast (elems l)"
proof (cases "elems l = []")
  case True
  then show ?thesis using length_elems [OF assms] by (simp add: List_get_def)
next
  case False
  let ?n = "num_entries l - 1"
  have n: "0 < num_entries l" "?n < num_entries l" using length_elems [OF assms] False by (cases "elems l"; simp; linarith)+
  have "List_get l = Some (the (entries l ! ?n), l\<lparr>num_entries := ?n\<rparr>)" using n by (simp add: List_get_def Let_def)
  moreover have "the (entries l ! ?n) = last (elems l)"
    using elems_nth [OF assms n(2)] False length_elems [OF assms] by (simp add: last_conv_nth)
  moreover have "List_ok (l\<lparr>num_entries := ?n\<rparr>)" using assms by (auto simp: List_ok_def)
  moreover have "elems (l\<lparr>num_entries := ?n\<rparr>) = butlast (elems l)"
    using assms by (simp add: elems_def butlast_take List_ok_def flip: map_butlast)
  ultimately show ?thesis using False by simp
qed

lemma copy_List_ok:
  assumes "List_ok l"
  shows "List_ok (copy_List l)" "elems (copy_List l) = elems l" "max_entries (copy_List l) = max_entries l"
proof -
  let ?m = "max_entries l" and ?n = "num_entries l"
  define d :: "'a option list" where "d = (if ?m \<noteq> 0 then safe_malloc ?m else [])"
  define e where "e = copy_entries (entries l) d 0 ?n"
  have d: "length d = ?m" by (simp add: d_def safe_malloc_def)
  have nm: "?n \<le> ?m" using assms by (simp add: List_ok_def)
  have e: "length e = ?m" "\<And>j. j < ?n \<Longrightarrow> e ! j = entries l ! j"
    using copy_entries_nth [of 0 ?n d "entries l"] d nm by (auto simp: e_def)
  have "holds e (elems l)" using e nm elems_nth [OF assms] length_elems [OF assms] by (simp add: holds_def)
  from listI [OF e(1) length_elems [OF assms] this]
  show "List_ok (copy_List l)" "elems (copy_List l) = elems l" "max_entries (copy_List l) = max_entries l"
    by (simp_all add: copy_List_def Let_def e_def d_def)
qed

lemma List_replace_ok:
  assumes "List_ok l" "0 \<le> i"
  shows "\<exists>l'. List_replace l i a = ((if i < int (length (elems l)) then elems l ! nat i else NULL), l') \<and> List_ok l' \<and>
    elems l' = (if i < int (length (elems l)) then (elems l)[nat i := a]
      else elems l @ replicate (nat i - length (elems l)) NULL @ [a])"
proof (cases "i < int (length (elems l))")
  case True
  obtain es where l: "l = \<lparr>entries = es, max_entries = length es, num_entries = length (elems l)\<rparr>" "holds es (elems l)"
    using assms(1) by (rule List_okE)
  have i: "nat i < length (elems l)" using True assms(2) by linarith
  let ?es = "es[nat i := Some a]"
  have h: "holds ?es ((elems l)[nat i := a])" using l(2) i by (auto simp: holds_def nth_list_update)
  have "List_replace l i a = (elems l ! nat i, \<lparr>entries = ?es, max_entries = length es, num_entries = length (elems l)\<rparr>)"
    using True assms(2) l(2) i by (subst l(1)) (simp add: List_replace_def holds_def)
  then show ?thesis using listI [OF _ _ h, of "length es" "length (elems l)"] True by simp
next
  case False
  define r where "r = snd (List_resize l (i + 1))"
  have r: "List_ok r" "elems r = elems l" "int (max_entries r) = i + 1"
    using List_resize_ok [OF assms(1), of "i + 1"] False length_elems [OF assms(1)] by (auto simp: r_def)
  let ?n = "length (elems l)" and ?m = "max_entries r"
  have num: "num_entries r = ?n" using length_elems [OF r(1)] r(2) by simp
  have m: "nat i < ?m" "?m = Suc (nat i)" "?n \<le> nat i" "length (entries r) = ?m" using r(1,3) False assms(2) by (auto simp: List_ok_def)
  let ?z = "null_entries (entries r) ?n (?m - ?n)"
  have z: "length ?z = ?m" "\<And>j. j < ?m \<Longrightarrow> ?z ! j = (if ?n \<le> j then Some NULL else entries r ! j)"
    using null_entries_nth [of ?n "?m - ?n" "entries r"] m by auto
  let ?xs = "elems l @ replicate (nat i - ?n) NULL @ [a]" and ?es = "?z[nat i := Some a]"
  have "?es ! j = Some (?xs ! j)" if "j < ?m" for j
    using that z m elems_nth [OF r(1), of j] num r(2) by (auto simp: nth_append nth_list_update not_less le_less_Suc_eq)
  then have h: "holds ?es ?xs" using z m by (simp add: holds_def)
  have "List_replace l i a = (NULL, r\<lparr>entries := ?es, num_entries := ?m\<rparr>)"
    using False assms(2) length_elems [OF assms(1)] num by (simp add: List_replace_def r_def [symmetric] Let_def)
  moreover have "r\<lparr>entries := ?es, num_entries := ?m\<rparr> = \<lparr>entries = ?es, max_entries = ?m, num_entries = ?m\<rparr>" by (cases r) simp
  ultimately have "List_replace l i a = (NULL, \<lparr>entries = ?es, max_entries = ?m, num_entries = ?m\<rparr>)" by (simp only:)
  then show ?thesis using listI [OF _ _ h, of ?m ?m] z m False by simp
qed

section \<open>Sequences of operations\<close>

datatype list_op =
    InsertFront ptr
  | Append ptr
  | RemoveEntry ptr
  | RemoveNth int
  | PopFront
  | Get
  | MemberPos ptr
  | Replace int ptr
  | Resize int
  | Clear
  | CopyAssign

datatype list_result = Unit | Flag bool | Entry ptr | Position int

definition List_step :: "ptr List \<Rightarrow> list_op \<Rightarrow> (list_result \<times> ptr List) option" where
  "List_step l x =
     (case x of
        InsertFront a \<Rightarrow> Some (Unit, push_front l a)
      | Append a \<Rightarrow> Some (Unit, push_back l a)
      | RemoveEntry a \<Rightarrow> Some (map_prod Flag id (List_remove l a))
      | RemoveNth n \<Rightarrow> map_option (map_prod Entry id) (remove_nth l n)
      | PopFront \<Rightarrow> map_option (map_prod Entry id) (pop_front l)
      | Get \<Rightarrow> map_option (map_prod Entry id) (List_get l)
      | MemberPos a \<Rightarrow> Some (Position (member_pos l a), l)
      | Replace i a \<Rightarrow> Some (map_prod Entry id (List_replace l i a))
      | Resize n \<Rightarrow> Some (map_prod (\<lambda>m. Position (int m)) id (List_resize l n))
      | Clear \<Rightarrow> Some (Unit, List_clear l)
      | CopyAssign \<Rightarrow> Some (Unit, List_assign False (new_List 0) l))"

definition seq_step :: "ptr list \<Rightarrow> list_op \<Rightarrow> (list_result \<times> ptr list) option" where
  "seq_step xs x =
     (case x of
        InsertFront a \<Rightarrow> Some (Unit, a # xs)
      | Append a \<Rightarrow> Some (Unit, xs @ [a])
      | RemoveEntry a \<Rightarrow> Some (Flag (a \<in> set xs), remove1 a xs)
      | RemoveNth n \<Rightarrow> (if 0 \<le> n \<and> n < int (length xs) then Some (Entry (xs ! nat n), seq_drop xs (nat n)) else None)
      | PopFront \<Rightarrow> (case xs of [] \<Rightarrow> None | y # ys \<Rightarrow> Some (Entry y, ys))
      | Get \<Rightarrow> (if xs = [] then None else Some (Entry (last xs), butlast xs))
      | MemberPos a \<Rightarrow> Some (Position (if a \<in> set xs then int (seq_index xs a) else -1), xs)
      | Replace i a \<Rightarrow>
          (if i < 0 then Some (Entry NULL, xs)
           else if i < int (length xs) then Some (Entry (xs ! nat i), xs[nat i := a])
           else Some (Entry NULL, xs @ replicate (nat i - length xs) NULL @ [a]))
      | Resize n \<Rightarrow> Some (Position (max n (int (length xs))), xs)
      | Clear \<Rightarrow> Some (Unit, [])
      | CopyAssign \<Rightarrow> Some (Unit, xs))"

interpretation ll: simulation List_ok elems List_step seq_step
proof
  fix l :: "ptr List" and x
  assume l: "List_ok l"
  show "answers List_ok elems (List_step l x) (seq_step (elems l) x)"
  proof (cases x)
    case (InsertFront a)
    then show ?thesis using List_insert_ok [OF l] by (simp add: List_step_def seq_step_def push_front_def)
  next
    case (Append a)
    then show ?thesis using List_append_ok [OF l] by (simp add: List_step_def seq_step_def push_back_def)
  next
    case (RemoveEntry a)
    then show ?thesis using List_remove_ok [OF l, of a] by (auto simp: List_step_def seq_step_def)
  next
    case (RemoveNth n)
    then show ?thesis using remove_nth_ok [OF l, of n] by (auto simp: List_step_def seq_step_def split: if_splits)
  next
    case PopFront
    then show ?thesis using remove_nth_ok [OF l, of 0]
      by (auto simp: List_step_def seq_step_def pop_front_def seq_drop_def split: list.split if_splits)
  next
    case Get
    then show ?thesis using List_get_ok [OF l] by (auto simp: List_step_def seq_step_def)
  next
    case (MemberPos a)
    then show ?thesis using l by (simp add: List_step_def seq_step_def member_pos_ok)
  next
    case (Replace i a)
    then show ?thesis using List_replace_ok [OF l, of i a] l
      by (cases "i < 0") (auto simp: List_step_def seq_step_def List_replace_def split: if_splits)
  next
    case (Resize n)
    have "fst (List_resize l n) = max_entries (snd (List_resize l n))" by (simp add: List_resize_def Let_def)
    with Resize show ?thesis using List_resize_ok [OF l, of n] length_elems [OF l] by (simp add: List_step_def seq_step_def map_prod_def split_beta)
  next
    case Clear
    then show ?thesis by (simp add: List_step_def seq_step_def List_clear_def List_ok_def elems_def)
  next
    case CopyAssign
    have "List_assign False (new_List 0) l = copy_List l" by (simp add: List_assign_def copy_List_def)
    with CopyAssign show ?thesis using copy_List_ok [OF l] by (simp add: List_step_def seq_step_def)
  qed
qed

section \<open>Sorted insertion\<close>

text \<open>The elements behind the place at which the new element stops.\<close>

definition passed :: "('a \<Rightarrow> 'a \<Rightarrow> int) \<Rightarrow> 'a \<Rightarrow> 'a list \<Rightarrow> 'a list" where
  "passed cmp a xs = rev (takeWhile (\<lambda>x. 0 < cmp a x) (rev xs))"

definition kept :: "('a \<Rightarrow> 'a \<Rightarrow> int) \<Rightarrow> 'a \<Rightarrow> 'a list \<Rightarrow> 'a list" where
  "kept cmp a xs = rev (dropWhile (\<lambda>x. 0 < cmp a x) (rev xs))"

lemma kept_passed: "kept cmp a xs @ passed cmp a xs = xs"
  by (simp add: kept_def passed_def flip: rev_append)

lemma sortedinsert_loop_holds:
  "holds es (xs @ a # ys) \<Longrightarrow> length (sortedinsert_loop cmp es (length xs)) = length es \<and>
   holds (sortedinsert_loop cmp es (length xs)) (kept cmp a xs @ a # passed cmp a xs @ ys)"
proof (induction xs arbitrary: es ys rule: rev_induct)
  case Nil
  then show ?case by (simp add: kept_def passed_def)
next
  case (snoc x xs)
  have e: "es ! length xs = Some x" "es ! Suc (length xs) = Some a" "Suc (length xs) < length es"
    using snoc.prems by (auto simp: holds_def nth_append)
  show ?case
  proof (cases "cmp a x \<le> 0")
    case True
    then show ?thesis using snoc.prems e by (simp add: kept_def passed_def)
  next
    case False
    let ?es = "es[Suc (length xs) := Some x, length xs := Some a]"
    have "holds ?es (xs @ a # x # ys)" using snoc.prems by (auto simp: holds_def nth_append nth_list_update nth_Cons split: nat.split)
    from snoc.IH [OF this] show ?thesis using False e by (simp add: kept_def passed_def Let_def)
  qed
qed

lemma sortedinsert_elems:
  assumes "List_ok l"
  shows "List_ok (sortedinsert l a cmp)" "elems (sortedinsert l a cmp) = kept cmp a (elems l) @ a # passed cmp a (elems l)"
proof -
  obtain es where es: "make_room l = \<lparr>entries = es, max_entries = length es, num_entries = length (elems l)\<rparr>"
      "holds es (elems l)" "length (elems l) < length es"
    using assms by (rule room_cells)
  let ?es = "es[length (elems l) := Some a]"
  note loop = sortedinsert_loop_holds [OF holds_snoc [OF es(2,3)], of cmp]
  have "sortedinsert l a cmp = \<lparr>entries = sortedinsert_loop cmp ?es (length (elems l)), max_entries = length es,
      num_entries = Suc (length (elems l))\<rparr>"
    by (simp add: sortedinsert_def es(1) Let_def)
  moreover have "length (kept cmp a (elems l) @ a # passed cmp a (elems l)) = Suc (length (elems l))"
    using arg_cong [OF kept_passed, of length] by simp
  ultimately show "List_ok (sortedinsert l a cmp)" "elems (sortedinsert l a cmp) = kept cmp a (elems l) @ a # passed cmp a (elems l)"
    using listI [OF _ _ conjunct2 [OF loop], where m = "length es" and n = "Suc (length (elems l))"] loop by simp_all
qed

lemma kept_stop: "kept cmp a xs \<noteq> [] \<Longrightarrow> cmp a (last (kept cmp a xs)) \<le> 0"
  using hd_dropWhile [of "\<lambda>x. 0 < cmp a x" "rev xs"] by (simp add: kept_def last_rev not_less)

lemma passed_all: "x \<in> set (passed cmp a xs) \<Longrightarrow> 0 < cmp a x"
  by (auto simp: passed_def dest: set_takeWhileD)

lemma array_List_ok: "List_ok (array_List xs)" "elems (array_List xs) = xs"
  using listI [of "map Some xs" "length xs" xs "length xs"] by (simp_all add: array_List_def holds_def)

lemma last_least: "sorted_wrt (\<lambda>x y. key y \<le> key x) xs \<Longrightarrow> x \<in> set xs \<Longrightarrow> key (last xs) \<le> (key x :: 'k::linorder)"
  by (induction xs) (auto split: if_splits)

section \<open>Properties\<close>

text \<open>
  C25. Every sequence of operations on a list returns what it returns on a plain sequence, aborts on a failed
  assertion exactly where the operation has no meaning there, and the final list is well-formed and stands
  for the final sequence.
\<close>

theorem List_run_refines_sequence:
  "answers List_ok elems (run_steps List_step (new_List n) xs) (run_steps seq_step [] xs)"
proof -
  have "List_ok (new_List n :: ptr List)" "elems (new_List n :: ptr List) = []"
    by (auto simp: new_List_def List_ok_def elems_def safe_malloc_def)
  then show ?thesis using ll.run_answers [of "new_List n" xs] by simp
qed

text \<open>
  \<open>sortedinsert\<close> into a list in descending order puts the new entry behind all entries that are not below
  it and keeps the list in descending order.
\<close>

theorem sortedinsert_descending:
  fixes key :: "'a \<Rightarrow> 'k::linorder"
  assumes "List_ok l" "\<And>x y. cmp x y \<le> 0 \<longleftrightarrow> key x \<le> key y" "sorted_wrt (\<lambda>x y. key y \<le> key x) (elems l)"
  shows "List_ok (sortedinsert l a cmp) \<and> mset (elems (sortedinsert l a cmp)) = add_mset a (mset (elems l)) \<and>
    sorted_wrt (\<lambda>x y. key y \<le> key x) (elems (sortedinsert l a cmp))"
proof -
  let ?k = "kept cmp a (elems l)" and ?p = "passed cmp a (elems l)"
  have e: "?k @ ?p = elems l" by (rule kept_passed)
  note s = sortedinsert_elems [OF assms(1), of a cmp]
  have "mset (elems (sortedinsert l a cmp)) = add_mset a (mset (elems l))"
    using arg_cong [OF e, of mset] by (simp add: s(2))
  moreover
  have p: "key x \<le> key a" if "x \<in> set ?p" for x
    using passed_all [OF that] assms(2) [of a x] by (auto simp: not_le)
  have w: "sorted_wrt (\<lambda>x y. key y \<le> key x) (?k @ ?p)" unfolding e by (rule assms(3))
  have k: "key a \<le> key x" if "x \<in> set ?k" for x
  proof -
    from that have "?k \<noteq> []" by auto
    then have "key a \<le> key (last ?k)" unfolding assms(2) [symmetric] by (rule kept_stop)
    also have "\<dots> \<le> key x" using w that by (intro last_least) (simp_all add: sorted_wrt_append)
    finally show ?thesis .
  qed
  have "sorted_wrt (\<lambda>x y. key y \<le> key x) ?k" "sorted_wrt (\<lambda>x y. key y \<le> key x) ?p"
      "\<forall>x \<in> set ?k. \<forall>y \<in> set ?p. key y \<le> key x"
    using w by (simp_all add: sorted_wrt_append)
  then have "sorted_wrt (\<lambda>x y. key y \<le> key x) (elems (sortedinsert l a cmp))"
    using p k by (simp add: s(2) sorted_wrt_append)
  ultimately show ?thesis using s(1) by blast
qed

theorem sortedinsert_descending_witness:
  "List_ok (sortedinsert (array_List [5 :: int, 3, 1]) 3 (\<lambda>x y. x - y)) \<and>
    mset (elems (sortedinsert (array_List [5 :: int, 3, 1]) 3 (\<lambda>x y. x - y))) = add_mset 3 (mset [5, 3, 1]) \<and>
    sorted_wrt (\<lambda>x y. id y \<le> id x) (elems (sortedinsert (array_List [5 :: int, 3, 1]) 3 (\<lambda>x y. x - y)))"
  using sortedinsert_descending [OF array_List_ok(1), of "\<lambda>x y. x - y" id "[5 :: int, 3, 1]" 3]
  by (simp add: array_List_ok(2))

text \<open>
  A list that \<open>sort\<close> has put into ascending order by a comparison is not kept in order by \<open>sortedinsert\<close> with
  the same comparison: an entry above all others goes to the front.
\<close>

theorem sortedinsert_breaks_ascending:
  "\<exists>l. List_ok l \<and> sorted (elems l) \<and> elems (sortedinsert l (2 :: int) (\<lambda>x y. x - y)) = 2 # elems l \<and> elems l = [1]"
proof -
  let ?l = "array_List [1 :: int]"
  have "elems (sortedinsert ?l 2 (\<lambda>x y. x - y)) = [2, 1]"
    using sortedinsert_elems(2) [of ?l 2 "\<lambda>x y. x - y", OF array_List_ok(1)] by (simp add: kept_def passed_def array_List_ok(2))
  then show ?thesis by (intro exI [of _ ?l]) (simp add: array_List_ok)
qed

end
