(* ===== verification/FifoMap.thy ===== *)
theory FifoMap
  imports Simulation
begin

text \<open>
  The map of \<open>dict/fifo_map.hpp\<close> that lists its entries in the order of insertion: a \<open>std::map\<close> whose comparison
  looks up the timestamps of the keys in a table. The comparison object holds a pointer to that table, and
  \<open>std::map\<close> keeps a copy of the object; so the tables live in a store under addresses, and every object names
  the address it points to. An iterator is a position in the order of the map. Timestamps do not reach the end
  of the range of \<open>size_t\<close>.
\<close>

section \<open>The comparison object\<close>

type_synonym 'k key_tables = "nat \<Rightarrow> 'k \<Rightarrow> nat option"

record fifo_map_compare =
  m_timestamp :: nat
  cmp_keys :: nat

definition cmp_less :: "'k key_tables \<Rightarrow> fifo_map_compare \<Rightarrow> 'k \<Rightarrow> 'k \<Rightarrow> bool" where
  "cmp_less s c lhs rhs =
     (let timestamp_lhs = s (cmp_keys c) lhs;
          timestamp_rhs = s (cmp_keys c) rhs
      in if timestamp_lhs = None then False
         else if timestamp_rhs = None then True
         else the timestamp_lhs < the timestamp_rhs)"

definition add_key :: "'k key_tables \<Rightarrow> fifo_map_compare \<Rightarrow> 'k \<Rightarrow> 'k key_tables \<times> fifo_map_compare" where
  "add_key s c key =
     ((if s (cmp_keys c) key = None then s(cmp_keys c := (s (cmp_keys c))(key \<mapsto> m_timestamp c)) else s),
      c\<lparr>m_timestamp := m_timestamp c + 1\<rparr>)"

definition remove_key :: "'k key_tables \<Rightarrow> fifo_map_compare \<Rightarrow> 'k \<Rightarrow> 'k key_tables" where
  "remove_key s c key = s(cmp_keys c := (s (cmp_keys c))(key := None))"

section \<open>Ordered maps of the standard library\<close>

text \<open>The nodes of a \<open>std::map\<close> in their order, and its operations for a comparison \<open>lt\<close>.\<close>

definition smap_lower_bound :: "('k \<Rightarrow> 'k \<Rightarrow> bool) \<Rightarrow> ('k \<times> 'v) list \<Rightarrow> 'k \<Rightarrow> nat" where
  "smap_lower_bound lt xs k = length (takeWhile (\<lambda>e. lt (fst e) k) xs)"

definition smap_upper_bound :: "('k \<Rightarrow> 'k \<Rightarrow> bool) \<Rightarrow> ('k \<times> 'v) list \<Rightarrow> 'k \<Rightarrow> nat" where
  "smap_upper_bound lt xs k = length (takeWhile (\<lambda>e. \<not> lt k (fst e)) xs)"

definition smap_find :: "('k \<Rightarrow> 'k \<Rightarrow> bool) \<Rightarrow> ('k \<times> 'v) list \<Rightarrow> 'k \<Rightarrow> nat" where
  "smap_find lt xs k =
     (let i = smap_lower_bound lt xs k in if i < length xs \<and> \<not> lt k (fst (xs ! i)) then i else length xs)"

definition smap_insert :: "('k \<Rightarrow> 'k \<Rightarrow> bool) \<Rightarrow> ('k \<times> 'v) list \<Rightarrow> 'k \<times> 'v \<Rightarrow> (nat \<times> bool) \<times> ('k \<times> 'v) list" where
  "smap_insert lt xs x =
     (let i = smap_lower_bound lt xs (fst x)
      in if i < length xs \<and> \<not> lt (fst x) (fst (xs ! i)) then ((i, False), xs)
         else ((i, True), take i xs @ x # drop i xs))"

definition smap_erase :: "('k \<Rightarrow> 'k \<Rightarrow> bool) \<Rightarrow> ('k \<times> 'v) list \<Rightarrow> 'k \<Rightarrow> nat \<times> ('k \<times> 'v) list" where
  "smap_erase lt xs k =
     (let i = smap_lower_bound lt xs k; j = smap_upper_bound lt xs k in (j - i, take i xs @ drop j xs))"

record ('k, 'v) std_map =
  comp :: fifo_map_compare
  nodes :: "('k \<times> 'v) list"

section \<open>The class\<close>

text \<open>\<open>m_keys\<close> is the address of the table that is a member of the object.\<close>

record ('k, 'v) fifo_map =
  m_keys :: nat
  m_compare :: fifo_map_compare
  m_map :: "('k, 'v) std_map"

type_synonym ('k, 'v) fifo = "'k key_tables \<times> ('k, 'v) fifo_map"

definition fifo_new :: "'k key_tables \<Rightarrow> nat \<Rightarrow> ('k, 'v) fifo" where
  "fifo_new s addr =
     (let c = \<lparr>m_timestamp = 1, cmp_keys = addr\<rparr>
      in (s(addr := Map.empty), \<lparr>m_keys = addr, m_compare = c, m_map = \<lparr>comp = c, nodes = []\<rparr>\<rparr>))"

text \<open>The comparison that the map uses in the store \<open>s\<close>.\<close>

abbreviation map_lt :: "'k key_tables \<Rightarrow> ('k, 'v) fifo_map \<Rightarrow> 'k \<Rightarrow> 'k \<Rightarrow> bool" where
  "map_lt s f \<equiv> cmp_less s (comp (m_map f))"

fun smap_insert_all :: "('k \<Rightarrow> 'k \<Rightarrow> bool) \<Rightarrow> ('k \<times> 'v) list \<Rightarrow> ('k \<times> 'v) list \<Rightarrow> ('k \<times> 'v) list" where
  "smap_insert_all lt xs [] = xs"
| "smap_insert_all lt xs (y # ys) = smap_insert_all lt (snd (smap_insert lt xs y)) ys"

definition fifo_copy :: "'k key_tables \<Rightarrow> nat \<Rightarrow> ('k, 'v) fifo_map \<Rightarrow> ('k, 'v) fifo" where
  "fifo_copy s addr f =
     (let s = s(addr := s (m_keys f));
          c = \<lparr>m_timestamp = m_timestamp (m_compare f), cmp_keys = addr\<rparr>
      in (s, \<lparr>m_keys = addr, m_compare = c,
              m_map = \<lparr>comp = c, nodes = smap_insert_all (cmp_less s c) [] (nodes (m_map f))\<rparr>\<rparr>))"

definition fifo_add_key :: "('k, 'v) fifo \<Rightarrow> 'k \<Rightarrow> ('k, 'v) fifo" where
  "fifo_add_key p key = (case p of (s, f) \<Rightarrow>
     let (s, c) = add_key s (m_compare f) key in (s, f\<lparr>m_compare := c\<rparr>))"

definition fifo_insert :: "('k, 'v) fifo \<Rightarrow> 'k \<times> 'v \<Rightarrow> (nat \<times> bool) \<times> ('k, 'v) fifo" where
  "fifo_insert p val =
     (let (s, f) = fifo_add_key p (fst val);
          (r, xs) = smap_insert (map_lt s f) (nodes (m_map f)) val
      in (r, (s, f\<lparr>m_map := (m_map f)\<lparr>nodes := xs\<rparr>\<rparr>)))"

definition fifo_emplace :: "('k, 'v) fifo \<Rightarrow> 'k \<Rightarrow> 'v \<Rightarrow> (nat \<times> bool) \<times> ('k, 'v) fifo" where
  "fifo_emplace p key arg =
     (let val = (key, arg);
          (s, f) = fifo_add_key p (fst val);
          (r, xs) = smap_insert (map_lt s f) (nodes (m_map f)) val
      in (r, (s, f\<lparr>m_map := (m_map f)\<lparr>nodes := xs\<rparr>\<rparr>)))"

text \<open>The constructors for a range and for a list of elements.\<close>

fun fifo_insert_each :: "('k, 'v) fifo \<Rightarrow> ('k \<times> 'v) list \<Rightarrow> ('k, 'v) fifo" where
  "fifo_insert_each p [] = p"
| "fifo_insert_each p (x # xs) = fifo_insert_each (snd (fifo_insert p x)) xs"

definition fifo_range :: "'k key_tables \<Rightarrow> nat \<Rightarrow> ('k \<times> 'v) list \<Rightarrow> ('k, 'v) fifo" where
  "fifo_range s addr xs = fifo_insert_each (fifo_new s addr) xs"

text \<open>The member \<open>insert\<close> for a range: first all timestamps, then all elements.\<close>

fun fifo_add_keys :: "('k, 'v) fifo \<Rightarrow> ('k \<times> 'v) list \<Rightarrow> ('k, 'v) fifo" where
  "fifo_add_keys p [] = p"
| "fifo_add_keys p (x # xs) = fifo_add_keys (fifo_add_key p (fst x)) xs"

definition fifo_insert_range :: "('k, 'v) fifo \<Rightarrow> ('k \<times> 'v) list \<Rightarrow> ('k, 'v) fifo" where
  "fifo_insert_range p xs =
     (let (s, f) = fifo_add_keys p xs
      in (s, f\<lparr>m_map := (m_map f)\<lparr>nodes := smap_insert_all (map_lt s f) (nodes (m_map f)) xs\<rparr>\<rparr>))"

text \<open>\<open>at\<close> throws \<open>std::out_of_range\<close> (\<open>None\<close>) for a key it does not find.\<close>

definition fifo_at :: "('k, 'v) fifo \<Rightarrow> 'k \<Rightarrow> 'v option" where
  "fifo_at p key = (case p of (s, f) \<Rightarrow>
     let xs = nodes (m_map f); i = smap_find (map_lt s f) xs key
     in if i < length xs then Some (snd (xs ! i)) else None)"

text \<open>\<open>operator[]\<close>: the position of the entry it refers to; a new entry gets the value \<open>dflt\<close> of \<open>T()\<close>.\<close>

definition fifo_subscript :: "'v \<Rightarrow> ('k, 'v) fifo \<Rightarrow> 'k \<Rightarrow> nat \<times> ('k, 'v) fifo" where
  "fifo_subscript dflt p key =
     (let (s, f) = fifo_add_key p key;
          (r, xs) = smap_insert (map_lt s f) (nodes (m_map f)) (key, dflt)
      in (fst r, (s, f\<lparr>m_map := (m_map f)\<lparr>nodes := xs\<rparr>\<rparr>)))"

text \<open>The statement \<open>m[key] = v\<close> of the clients.\<close>

definition fifo_assign :: "'v \<Rightarrow> ('k, 'v) fifo \<Rightarrow> 'k \<Rightarrow> 'v \<Rightarrow> ('k, 'v) fifo" where
  "fifo_assign dflt p key v =
     (let (i, s, f) = fifo_subscript dflt p key; xs = nodes (m_map f)
      in (s, f\<lparr>m_map := (m_map f)\<lparr>nodes := xs[i := (fst (xs ! i), v)]\<rparr>\<rparr>))"

definition fifo_begin :: "('k, 'v) fifo \<Rightarrow> nat" where
  "fifo_begin p = 0"

definition fifo_end :: "('k, 'v) fifo \<Rightarrow> nat" where
  "fifo_end p = length (nodes (m_map (snd p)))"

definition fifo_empty :: "('k, 'v) fifo \<Rightarrow> bool" where
  "fifo_empty p \<longleftrightarrow> nodes (m_map (snd p)) = []"

definition fifo_size :: "('k, 'v) fifo \<Rightarrow> nat" where
  "fifo_size p = length (nodes (m_map (snd p)))"

definition fifo_clear :: "('k, 'v) fifo \<Rightarrow> ('k, 'v) fifo" where
  "fifo_clear p = (case p of (s, f) \<Rightarrow>
     (s(m_keys f := Map.empty), f\<lparr>m_map := (m_map f)\<lparr>nodes := []\<rparr>\<rparr>))"

definition fifo_erase_pos :: "('k, 'v) fifo \<Rightarrow> nat \<Rightarrow> nat \<times> ('k, 'v) fifo" where
  "fifo_erase_pos p pos = (case p of (s, f) \<Rightarrow>
     let xs = nodes (m_map f);
         s = remove_key s (m_compare f) (fst (xs ! pos))
     in (pos, (s, f\<lparr>m_map := (m_map f)\<lparr>nodes := take pos xs @ drop (Suc pos) xs\<rparr>\<rparr>)))"

fun remove_keys :: "'k key_tables \<Rightarrow> fifo_map_compare \<Rightarrow> 'k list \<Rightarrow> 'k key_tables" where
  "remove_keys s c [] = s"
| "remove_keys s c (k # ks) = remove_keys (remove_key s c k) c ks"

definition fifo_erase_range :: "('k, 'v) fifo \<Rightarrow> nat \<Rightarrow> nat \<Rightarrow> nat \<times> ('k, 'v) fifo" where
  "fifo_erase_range p first lst = (case p of (s, f) \<Rightarrow>
     let xs = nodes (m_map f);
         s = remove_keys s (m_compare f) (map fst (take (lst - first) (drop first xs)))
     in (first, (s, f\<lparr>m_map := (m_map f)\<lparr>nodes := take first xs @ drop lst xs\<rparr>\<rparr>)))"

definition fifo_erase :: "('k, 'v) fifo \<Rightarrow> 'k \<Rightarrow> nat \<times> ('k, 'v) fifo" where
  "fifo_erase p key = (case p of (s, f) \<Rightarrow>
     let (res, xs) = smap_erase (map_lt s f) (nodes (m_map f)) key;
         f = f\<lparr>m_map := (m_map f)\<lparr>nodes := xs\<rparr>\<rparr>
     in (res, (if res > 0 then remove_key s (m_compare f) key else s, f)))"

text \<open>
  \<open>swap\<close> exchanges the maps together with their copies of the comparison objects, then the comparison objects,
  then the contents of the two tables.
\<close>

definition fifo_swap :: "'k key_tables \<Rightarrow> ('k, 'v) fifo_map \<Rightarrow> ('k, 'v) fifo_map \<Rightarrow>
    'k key_tables \<times> ('k, 'v) fifo_map \<times> ('k, 'v) fifo_map" where
  "fifo_swap s this other =
     (let (this, other) = (this\<lparr>m_map := m_map other\<rparr>, other\<lparr>m_map := m_map this\<rparr>);
          (this, other) = (this\<lparr>m_compare := m_compare other\<rparr>, other\<lparr>m_compare := m_compare this\<rparr>);
          s = s(m_keys this := s (m_keys other), m_keys other := s (m_keys this))
      in (s, this, other))"

definition fifo_find :: "('k, 'v) fifo \<Rightarrow> 'k \<Rightarrow> nat" where
  "fifo_find p key = (case p of (s, f) \<Rightarrow> smap_find (map_lt s f) (nodes (m_map f)) key)"

definition fifo_count :: "('k, 'v) fifo \<Rightarrow> 'k \<Rightarrow> nat" where
  "fifo_count p key = (if fifo_find p key = fifo_end p then 0 else 1)"

definition fifo_lower_bound :: "('k, 'v) fifo \<Rightarrow> 'k \<Rightarrow> nat" where
  "fifo_lower_bound p key = (case p of (s, f) \<Rightarrow> smap_lower_bound (map_lt s f) (nodes (m_map f)) key)"

definition fifo_upper_bound :: "('k, 'v) fifo \<Rightarrow> 'k \<Rightarrow> nat" where
  "fifo_upper_bound p key = (case p of (s, f) \<Rightarrow> smap_upper_bound (map_lt s f) (nodes (m_map f)) key)"

definition fifo_equal_range :: "('k, 'v) fifo \<Rightarrow> 'k \<Rightarrow> nat \<times> nat" where
  "fifo_equal_range p key = (fifo_lower_bound p key, fifo_upper_bound p key)"

definition fifo_eq :: "('k, 'v) fifo_map \<Rightarrow> ('k, 'v) fifo_map \<Rightarrow> bool" where
  "fifo_eq lhs rhs \<longleftrightarrow> nodes (m_map lhs) = nodes (m_map rhs)"

section \<open>The invariant\<close>

definition stamp :: "'k key_tables \<Rightarrow> nat \<Rightarrow> 'k \<times> 'v \<Rightarrow> nat" where
  "stamp s a e = the (s a (fst e))"

definition fifo_ok :: "('k, 'v) fifo \<Rightarrow> bool" where
  "fifo_ok p \<longleftrightarrow> (case p of (s, f) \<Rightarrow>
     cmp_keys (m_compare f) = m_keys f \<and> cmp_keys (comp (m_map f)) = m_keys f \<and>
     dom (s (m_keys f)) = fst ` set (nodes (m_map f)) \<and>
     sorted_wrt (\<lambda>x y. stamp s (m_keys f) x < stamp s (m_keys f) y) (nodes (m_map f)) \<and>
     (\<forall>x \<in> set (nodes (m_map f)). stamp s (m_keys f) x < m_timestamp (m_compare f)))"

definition fifo_entries :: "('k, 'v) fifo \<Rightarrow> ('k \<times> 'v) list" where
  "fifo_entries p = nodes (m_map (snd p))"

text \<open>The position of a key in an association list.\<close>

definition key_index :: "('k \<times> 'v) list \<Rightarrow> 'k \<Rightarrow> nat" where
  "key_index xs k = length (takeWhile (\<lambda>e. fst e \<noteq> k) xs)"

lemma key_index_in: "k \<in> fst ` set xs \<Longrightarrow> key_index xs k < length xs \<and> fst (xs ! key_index xs k) = k"
  by (induction xs) (auto simp: key_index_def)

lemma key_index_notin: "k \<notin> fst ` set xs \<Longrightarrow> key_index xs k = length xs"
  by (induction xs) (auto simp: key_index_def)

section \<open>Searching by timestamps\<close>

definition table_less :: "('k \<Rightarrow> nat option) \<Rightarrow> 'k \<Rightarrow> 'k \<Rightarrow> bool" where
  "table_less t k l \<longleftrightarrow> t k \<noteq> None \<and> (t l = None \<or> the (t k) < the (t l))"

lemma cmp_less_table: "cmp_less s c = table_less (s (cmp_keys c))"
  by (auto simp: cmp_less_def table_less_def fun_eq_iff Let_def)

text \<open>The nodes are stamped in ascending order.\<close>

definition stamped :: "('k \<Rightarrow> nat option) \<Rightarrow> ('k \<times> 'v) list \<Rightarrow> bool" where
  "stamped t xs \<longleftrightarrow> fst ` set xs \<subseteq> dom t \<and> sorted_wrt (\<lambda>x y. the (t (fst x)) < the (t (fst y))) xs"

lemma stamped_Nil [simp]: "stamped t []"
  by (simp add: stamped_def)

lemma stamped_Cons: "stamped t (x # xs) \<longleftrightarrow>
    fst x \<in> dom t \<and> (\<forall>y \<in> set xs. the (t (fst x)) < the (t (fst y))) \<and> stamped t xs"
  by (auto simp: stamped_def)

lemma stamped_append: "stamped t (xs @ ys) \<longleftrightarrow>
    stamped t xs \<and> stamped t ys \<and> (\<forall>x \<in> set xs. \<forall>y \<in> set ys. the (t (fst x)) < the (t (fst y)))"
  by (auto simp: stamped_def sorted_wrt_append)

lemma stamped_distinct: "stamped t xs \<Longrightarrow> distinct (map fst xs)"
  by (induction xs) (auto simp: stamped_Cons)

lemma stamped_cong: "stamped t xs \<Longrightarrow> (\<And>x. x \<in> set xs \<Longrightarrow> t (fst x) = t' (fst x)) \<Longrightarrow> stamped t' xs"
proof (induction xs)
  case Nil
  then show ?case by simp
next
  case (Cons x xs)
  then have "t (fst y) = t' (fst y)" if "y \<in> set (x # xs)" for y using that by blast
  with Cons show ?case by (auto simp: stamped_Cons dom_def)
qed

lemma table_less_irrefl [simp]: "\<not> table_less t k k"
  by (auto simp: table_less_def)

lemma table_lessI: "k \<in> dom t \<Longrightarrow> the (t k) < the (t l) \<Longrightarrow> table_less t k l"
  by (auto simp: table_less_def)

lemma stamped_head:
  assumes "stamped t (x # xs)" "k \<in> fst ` set xs"
  shows "fst x \<noteq> k" "table_less t (fst x) k" "\<not> table_less t k (fst x)"
  using assms by (auto simp: stamped_Cons table_less_def)

lemma lower_bound_in: "stamped t xs \<Longrightarrow> k \<in> fst ` set xs \<Longrightarrow> smap_lower_bound (table_less t) xs k = key_index xs k"
proof (induction xs)
  case Nil
  then show ?case by simp
next
  case (Cons x xs)
  then show ?case
    using stamped_head [OF Cons.prems(1)] by (cases "fst x = k") (auto simp: stamped_Cons smap_lower_bound_def key_index_def)
qed

lemma lower_bound_end:
  "(\<And>x. x \<in> set xs \<Longrightarrow> table_less t (fst x) k) \<Longrightarrow> smap_lower_bound (table_less t) xs k = length xs"
  by (simp add: smap_lower_bound_def takeWhile_eq_all_conv [THEN iffD2])

lemma upper_bound_in: "stamped t xs \<Longrightarrow> k \<in> fst ` set xs \<Longrightarrow> smap_upper_bound (table_less t) xs k = Suc (key_index xs k)"
proof (induction xs)
  case Nil
  then show ?case by simp
next
  case (Cons x xs)
  show ?case
  proof (cases "fst x = k")
    case True
    then have "takeWhile (\<lambda>e. \<not> table_less t k (fst e)) xs = []"
      using Cons.prems(1) by (cases xs) (auto simp: stamped_Cons table_less_def)
    then show ?thesis using True by (simp add: smap_upper_bound_def key_index_def)
  next
    case False
    then have "\<not> table_less t k (fst x)" using stamped_head(3) [OF Cons.prems(1)] Cons.prems(2) by auto
    then show ?thesis using False Cons by (auto simp: stamped_Cons smap_upper_bound_def key_index_def)
  qed
qed

lemma upper_bound_notin: "t k = None \<Longrightarrow> smap_upper_bound (table_less t) xs k = length xs"
  by (simp add: smap_upper_bound_def table_less_def takeWhile_eq_all_conv [THEN iffD2])

lemma find_stamped:
  assumes "stamped t xs" "k \<in> dom t \<Longrightarrow> k \<in> fst ` set xs"
  shows "smap_find (table_less t) xs k = key_index xs k"
proof (cases "k \<in> fst ` set xs")
  case True
  then show ?thesis
    using lower_bound_in [OF assms(1) True] key_index_in [OF True] by (auto simp: smap_find_def Let_def table_less_def)
next
  case False
  then have "t k = None" using assms(2) by auto
  then have "smap_lower_bound (table_less t) xs k = length xs"
    using assms(1) by (intro lower_bound_end) (auto simp: table_less_def stamped_def)
  then show ?thesis using False by (simp add: smap_find_def key_index_notin)
qed

lemma insert_old:
  assumes "stamped t xs" "k \<in> fst ` set xs"
  shows "smap_insert (table_less t) xs (k, v) = ((key_index xs k, False), xs)"
  using lower_bound_in [OF assms] key_index_in [OF assms(2)] by (auto simp: smap_insert_def Let_def table_less_def)

lemma insert_new:
  assumes "stamped t (xs @ [(k, v)])"
  shows "smap_insert (table_less t) xs (k, v) = ((length xs, True), xs @ [(k, v)])"
proof -
  have "smap_lower_bound (table_less t) xs k = length xs"
    using assms by (intro lower_bound_end table_lessI) (auto simp: stamped_append stamped_def [of t xs])
  then show ?thesis by (simp add: smap_insert_def)
qed

lemma insert_all_stamped: "stamped t (xs @ ys) \<Longrightarrow> smap_insert_all (table_less t) xs ys = xs @ ys"
proof (induction ys arbitrary: xs)
  case Nil
  then show ?case by simp
next
  case (Cons y ys)
  then have "stamped t (xs @ [y])" by (auto simp: stamped_append stamped_Cons)
  then show ?case using insert_new [of t xs "fst y" "snd y"] Cons.IH [of "xs @ [y]"] Cons.prems by simp
qed

lemma erase_stamped:
  assumes "stamped t xs" "k \<in> dom t \<Longrightarrow> k \<in> fst ` set xs"
  shows "smap_erase (table_less t) xs k =
    (if k \<in> fst ` set xs then 1 else 0, take (key_index xs k) xs @ drop (Suc (key_index xs k)) xs)"
proof (cases "k \<in> fst ` set xs")
  case True
  then show ?thesis using lower_bound_in [OF assms(1) True] upper_bound_in [OF assms(1) True] by (simp add: smap_erase_def Let_def)
next
  case False
  then have "t k = None" using assms(2) by auto
  then have "smap_lower_bound (table_less t) xs k = length xs" "smap_upper_bound (table_less t) xs k = length xs"
    using assms(1) by (auto intro!: lower_bound_end upper_bound_notin simp: table_less_def stamped_def)
  then show ?thesis using False by (simp add: smap_erase_def key_index_notin)
qed

section \<open>The operations keep the invariant\<close>

lemma fifo_ok_iff:
  "fifo_ok (s, f) \<longleftrightarrow> cmp_keys (m_compare f) = m_keys f \<and> cmp_keys (comp (m_map f)) = m_keys f \<and>
     dom (s (m_keys f)) = fst ` set (nodes (m_map f)) \<and> stamped (s (m_keys f)) (nodes (m_map f)) \<and>
     (\<forall>x \<in> set (nodes (m_map f)). the (s (m_keys f) (fst x)) < m_timestamp (m_compare f))"
  by (auto simp: fifo_ok_def stamped_def stamp_def)

lemma fifo_map_lt: "fifo_ok (s, f) \<Longrightarrow> map_lt s f = table_less (s (m_keys f))"
  by (simp add: fifo_ok_iff cmp_less_table)

lemma fifo_new_ok: "fifo_ok (fifo_new s a) \<and> fifo_entries (fifo_new s a) = []"
  by (simp add: fifo_new_def Let_def fifo_ok_iff fifo_entries_def)

text \<open>What adding a key and its entry does.\<close>

definition al_insert :: "('k \<times> 'v) list \<Rightarrow> 'k \<Rightarrow> 'v \<Rightarrow> ('k \<times> 'v) list" where
  "al_insert xs k v = (if k \<in> fst ` set xs then xs else xs @ [(k, v)])"

lemma fifo_insert_ok:
  assumes "fifo_ok p"
  shows "\<exists>p'. fifo_insert p (k, v) = ((key_index (fifo_entries p) k, k \<notin> fst ` set (fifo_entries p)), p') \<and>
    fifo_ok p' \<and> fifo_entries p' = al_insert (fifo_entries p) k v"
proof -
  obtain s f where p: "p = (s, f)" by (cases p)
  let ?a = "m_keys f" and ?xs = "nodes (m_map f)" and ?c = "m_compare f"
  note ok = assms [unfolded p fifo_ok_iff]
  show ?thesis
  proof (cases "k \<in> fst ` set ?xs")
    case True
    then have "s ?a k \<noteq> None" using ok by blast
    then have "fifo_add_key p k = (s, f\<lparr>m_compare := ?c\<lparr>m_timestamp := m_timestamp ?c + 1\<rparr>\<rparr>)"
      using ok by (auto simp: fifo_add_key_def add_key_def p)
    then show ?thesis
      using True ok insert_old [of "s ?a" ?xs k v]
      by (auto simp: fifo_insert_def fifo_entries_def p cmp_less_table al_insert_def fifo_ok_iff less_SucI)
  next
    case False
    let ?t = "(s ?a)(k \<mapsto> m_timestamp ?c)"
    have n: "s ?a k = None" using False ok by (auto simp: domIff [symmetric])
    then have a: "fifo_add_key p k = (s(?a := ?t), f\<lparr>m_compare := ?c\<lparr>m_timestamp := m_timestamp ?c + 1\<rparr>\<rparr>)"
      using ok by (simp add: fifo_add_key_def add_key_def p)
    have "stamped ?t ?xs" using stamped_cong [of "s ?a" ?xs ?t] ok False by force
    moreover have e: "\<And>x. x \<in> set ?xs \<Longrightarrow> ?t (fst x) = s ?a (fst x)" using False by force
    ultimately have st: "stamped ?t (?xs @ [(k, v)])" using ok by (simp add: stamped_append stamped_Cons)
    show ?thesis
      using False ok a insert_new [OF st] st e
      by (auto simp: fifo_insert_def fifo_entries_def p cmp_less_table al_insert_def fifo_ok_iff key_index_notin less_SucI)
  qed
qed

lemma fifo_emplace_insert: "fifo_emplace p k v = fifo_insert p (k, v)"
  by (simp add: fifo_emplace_def fifo_insert_def Let_def)

lemma fifo_subscript_insert: "fifo_subscript d p k = (fst (fst (fifo_insert p (k, d))), snd (fifo_insert p (k, d)))"
  by (simp add: fifo_subscript_def fifo_insert_def Let_def case_prod_beta)

text \<open>Changing values in place and taking a segment out.\<close>

lemma fifo_ok_values:
  assumes "fifo_ok (s, f)" "map fst ys = map fst (nodes (m_map f))"
  shows "fifo_ok (s, f\<lparr>m_map := (m_map f)\<lparr>nodes := ys\<rparr>\<rparr>)"
proof -
  have i: "fst ` set ys = fst ` set (nodes (m_map f))" using arg_cong [OF assms(2), of set] by simp
  have "stamped t ys \<longleftrightarrow> stamped t (nodes (m_map f))" for t
    using i assms(2) by (simp add: stamped_def flip: sorted_wrt_map [where f = fst and R = "\<lambda>x y. the (t x) < the (t y)"])
  moreover have "the (s (m_keys f) (fst x)) < m_timestamp (m_compare f)" if "x \<in> set ys" for x
  proof -
    have "fst x \<in> fst ` set (nodes (m_map f))" using that i by (metis imageI)
    then show ?thesis using assms(1) by (auto simp: fifo_ok_iff)
  qed
  ultimately show ?thesis using assms(1) i by (simp add: fifo_ok_iff)
qed

lemma fifo_ok_segment:
  assumes "fifo_ok (s, f)" "nodes (m_map f) = xs @ ys @ zs" "dom t = fst ` set (xs @ zs)"
    "\<And>x. x \<in> set (xs @ zs) \<Longrightarrow> t (fst x) = s (m_keys f) (fst x)"
  shows "fifo_ok (s(m_keys f := t), f\<lparr>m_map := (m_map f)\<lparr>nodes := xs @ zs\<rparr>\<rparr>)"
proof -
  have "stamped (s (m_keys f)) (xs @ zs)" using assms(1,2) by (simp add: fifo_ok_iff stamped_append)
  then have "stamped t (xs @ zs)" by (rule stamped_cong) (simp add: assms(4))
  then show ?thesis using assms by (auto simp: fifo_ok_iff)
qed

lemma remove_keys_table:
  "remove_keys s c ks = s(cmp_keys c := s (cmp_keys c) |` (- set ks))"
  by (induction ks arbitrary: s) (auto simp: remove_key_def fun_eq_iff restrict_map_def)

lemma fifo_erase_range_ok:
  assumes "fifo_ok p" "i \<le> j" "j \<le> length (fifo_entries p)"
  shows "fifo_ok (snd (fifo_erase_range p i j))"
    "fifo_entries (snd (fifo_erase_range p i j)) = take i (fifo_entries p) @ drop j (fifo_entries p)"
proof -
  obtain s f where p: "p = (s, f)" by (cases p)
  let ?xs = "nodes (m_map f)"
  define x where "x = take i ?xs"
  define y where "y = take (j - i) (drop i ?xs)"
  define z where "z = drop j ?xs"
  have "drop i ?xs = y @ z"
    using append_take_drop_id [of "j - i" "drop i ?xs"] assms(2) by (simp add: y_def z_def)
  then have e: "?xs = x @ y @ z" using append_take_drop_id [of i ?xs] by (simp add: x_def)
  have "stamped (s (m_keys f)) (x @ y @ z)" using assms(1) e by (simp add: p fifo_ok_iff)
  then have d: "distinct (map fst (x @ y @ z))" by (rule stamped_distinct)
  let ?t = "s (m_keys f) |` (- set (map fst y))"
  have dom: "dom (s (m_keys f)) = fst ` set (x @ y @ z)" using assms(1) e by (simp add: p fifo_ok_iff)
  have keep: "?t (fst e) = s (m_keys f) (fst e)" if "e \<in> set (x @ z)" for e
  proof -
    have "fst e \<in> fst ` set x \<union> fst ` set z" using that by auto
    moreover have "fst ` set x \<inter> fst ` set y = {}" "fst ` set y \<inter> fst ` set z = {}" using d by auto
    ultimately have "fst e \<notin> fst ` set y" by blast
    then show ?thesis by simp
  qed
  have "dom ?t = dom (s (m_keys f)) - fst ` set y" by auto
  then have t: "dom ?t = fst ` set (x @ z)"
    using d unfolding dom by auto
  have "fifo_ok (s(m_keys f := ?t), f\<lparr>m_map := (m_map f)\<lparr>nodes := x @ z\<rparr>\<rparr>)"
    by (rule fifo_ok_segment [of s f x y z ?t, OF _ e t keep]) (use assms(1) p in simp)
  moreover have "snd (fifo_erase_range p i j) = (s(m_keys f := ?t), f\<lparr>m_map := (m_map f)\<lparr>nodes := x @ z\<rparr>\<rparr>)"
    using assms(1) by (auto simp: fifo_erase_range_def p Let_def remove_keys_table fifo_ok_iff x_def y_def z_def)
  ultimately show "fifo_ok (snd (fifo_erase_range p i j))"
    "fifo_entries (snd (fifo_erase_range p i j)) = take i (fifo_entries p) @ drop j (fifo_entries p)"
    by (simp_all add: fifo_entries_def p x_def z_def)
qed

lemma fifo_erase_pos_range:
  "i < length (fifo_entries p) \<Longrightarrow> fifo_erase_pos p i = fifo_erase_range p i (Suc i)"
  by (cases p) (simp add: fifo_erase_pos_def fifo_erase_range_def fifo_entries_def Let_def take_Suc_conv_app_nth
      hd_drop_conv_nth take_Suc drop_Suc Cons_nth_drop_Suc [symmetric])

lemma fifo_erase_ok:
  assumes "fifo_ok p"
  shows "\<exists>p'. fifo_erase p k = (if k \<in> fst ` set (fifo_entries p) then 1 else 0, p') \<and> fifo_ok p' \<and>
    fifo_entries p' = take (key_index (fifo_entries p) k) (fifo_entries p) @ drop (Suc (key_index (fifo_entries p) k)) (fifo_entries p)"
proof -
  obtain s f where p: "p = (s, f)" by (cases p)
  let ?xs = "nodes (m_map f)"
  note ok = assms [unfolded p fifo_ok_iff]
  have e: "smap_erase (map_lt s f) ?xs k =
      (if k \<in> fst ` set ?xs then 1 else 0, take (key_index ?xs k) ?xs @ drop (Suc (key_index ?xs k)) ?xs)"
    using erase_stamped [of "s (m_keys f)" ?xs k] ok by (simp add: cmp_less_table)
  show ?thesis
  proof (cases "k \<in> fst ` set ?xs")
    case True
    let ?i = "key_index ?xs k"
    have i: "?i < length ?xs" "fst (?xs ! ?i) = k" using key_index_in [OF True] by auto
    then have "fifo_erase p k = (1, snd (fifo_erase_range p ?i (Suc ?i)))"
      using e True fifo_erase_pos_range [of ?i p]
      by (simp add: fifo_erase_def p Let_def fifo_erase_pos_def fifo_entries_def flip: fifo_erase_pos_range)
    then show ?thesis using fifo_erase_range_ok [OF assms, of ?i "Suc ?i"] i True by (simp add: fifo_entries_def p Suc_le_eq)
  next
    case False
    then show ?thesis using e assms by (simp add: fifo_erase_def p Let_def fifo_entries_def key_index_notin)
  qed
qed

lemma fifo_find_ok: "fifo_ok p \<Longrightarrow> fifo_find p k = key_index (fifo_entries p) k"
  by (cases p) (auto simp: fifo_find_def fifo_entries_def fifo_map_lt fifo_ok_iff intro!: find_stamped)

lemma map_of_key_index: "map_of xs k = (if key_index xs k < length xs then Some (snd (xs ! key_index xs k)) else None)"
  by (induction xs) (auto simp: key_index_def)

lemma fifo_at_ok: "fifo_ok p \<Longrightarrow> fifo_at p k = map_of (fifo_entries p) k"
  using fifo_find_ok [of p k] by (cases p) (simp add: fifo_at_def fifo_find_def fifo_entries_def map_of_key_index Let_def)

lemma fifo_clear_ok: "fifo_ok p \<Longrightarrow> fifo_ok (fifo_clear p) \<and> fifo_entries (fifo_clear p) = []"
  by (cases p) (simp add: fifo_clear_def fifo_ok_iff fifo_entries_def)

definition al_assign :: "('k \<times> 'v) list \<Rightarrow> 'k \<Rightarrow> 'v \<Rightarrow> ('k \<times> 'v) list" where
  "al_assign xs k v = (if k \<in> fst ` set xs then xs[key_index xs k := (k, v)] else xs @ [(k, v)])"

lemma fifo_assign_ok:
  assumes "fifo_ok p"
  shows "fifo_ok (fifo_assign d p k v) \<and> fifo_entries (fifo_assign d p k v) = al_assign (fifo_entries p) k v"
proof -
  let ?xs = "fifo_entries p" and ?i = "key_index (fifo_entries p) k"
  obtain s f where i: "fifo_insert p (k, d) = ((?i, k \<notin> fst ` set ?xs), s, f)" "fifo_ok (s, f)"
      "nodes (m_map f) = al_insert ?xs k d"
    using fifo_insert_ok [OF assms, of k d] by (auto simp: fifo_entries_def)
  let ?ys = "al_insert ?xs k d"
  have k: "?i < length ?ys" "fst (?ys ! ?i) = k"
    using key_index_in [of k ?xs] key_index_notin [of k ?xs] by (auto simp: al_insert_def nth_append)
  have a: "fifo_assign d p k v = (s, f\<lparr>m_map := (m_map f)\<lparr>nodes := ?ys[?i := (k, v)]\<rparr>\<rparr>)"
    using i k by (simp add: fifo_assign_def fifo_subscript_insert Let_def)
  have "map fst (?ys[?i := (k, v)]) = map fst (nodes (m_map f))"
    using k i(3) by (simp add: map_update list_update_same_conv)
  from fifo_ok_values [OF i(2) this] show ?thesis
    using a key_index_notin [of k ?xs] by (auto simp: fifo_entries_def al_assign_def al_insert_def list_update_append)
qed

section \<open>Sequences of operations\<close>

datatype ('k, 'v) fifo_op =
    FInsert 'k 'v
  | FEmplace 'k 'v
  | FAssign 'k 'v
  | FErase 'k
  | FErasePos nat
  | FEraseRange nat nat
  | FFind 'k
  | FAt 'k
  | FSize
  | FClear

datatype 'v fifo_result = Done | At nat | Inserted nat bool | Num nat | Value "'v option"

text \<open>Erasing at a position or a range outside of the map is undefined (\<open>None\<close>).\<close>

definition fifo_step :: "'v \<Rightarrow> ('k, 'v) fifo \<Rightarrow> ('k, 'v) fifo_op \<Rightarrow> ('v fifo_result \<times> ('k, 'v) fifo) option" where
  "fifo_step d p x =
     (case x of
        FInsert k v \<Rightarrow> Some (map_prod (\<lambda>(i, b). Inserted i b) id (fifo_insert p (k, v)))
      | FEmplace k v \<Rightarrow> Some (map_prod (\<lambda>(i, b). Inserted i b) id (fifo_emplace p k v))
      | FAssign k v \<Rightarrow> Some (Done, fifo_assign d p k v)
      | FErase k \<Rightarrow> Some (map_prod Num id (fifo_erase p k))
      | FErasePos i \<Rightarrow> (if i < fifo_end p then Some (map_prod At id (fifo_erase_pos p i)) else None)
      | FEraseRange i j \<Rightarrow> (if i \<le> j \<and> j \<le> fifo_end p then Some (map_prod At id (fifo_erase_range p i j)) else None)
      | FFind k \<Rightarrow> Some (At (fifo_find p k), p)
      | FAt k \<Rightarrow> Some (Value (fifo_at p k), p)
      | FSize \<Rightarrow> Some (Num (fifo_size p), p)
      | FClear \<Rightarrow> Some (Done, fifo_clear p))"

definition al_cut :: "('k \<times> 'v) list \<Rightarrow> nat \<Rightarrow> nat \<Rightarrow> ('k \<times> 'v) list" where
  "al_cut xs i j = take i xs @ drop j xs"

definition al_step :: "('k \<times> 'v) list \<Rightarrow> ('k, 'v) fifo_op \<Rightarrow> ('v fifo_result \<times> ('k \<times> 'v) list) option" where
  "al_step xs x =
     (case x of
        FInsert k v \<Rightarrow> Some (Inserted (key_index xs k) (k \<notin> fst ` set xs), al_insert xs k v)
      | FEmplace k v \<Rightarrow> Some (Inserted (key_index xs k) (k \<notin> fst ` set xs), al_insert xs k v)
      | FAssign k v \<Rightarrow> Some (Done, al_assign xs k v)
      | FErase k \<Rightarrow> Some (Num (if k \<in> fst ` set xs then 1 else 0), al_cut xs (key_index xs k) (Suc (key_index xs k)))
      | FErasePos i \<Rightarrow> (if i < length xs then Some (At i, al_cut xs i (Suc i)) else None)
      | FEraseRange i j \<Rightarrow> (if i \<le> j \<and> j \<le> length xs then Some (At i, al_cut xs i j) else None)
      | FFind k \<Rightarrow> Some (At (key_index xs k), xs)
      | FAt k \<Rightarrow> Some (Value (map_of xs k), xs)
      | FSize \<Rightarrow> Some (Num (length xs), xs)
      | FClear \<Rightarrow> Some (Done, []))"

lemma fifo_end_entries: "fifo_end p = length (fifo_entries p)" "fifo_size p = length (fifo_entries p)"
  by (simp_all add: fifo_end_def fifo_size_def fifo_entries_def)

lemma fifo_erase_range_fst: "fst (fifo_erase_range p i j) = i"
  by (cases p) (simp add: fifo_erase_range_def Let_def)

lemma erase_range_answers:
  assumes "fifo_ok p" "i \<le> j" "j \<le> length (fifo_entries p)"
  shows "answers fifo_ok fifo_entries (Some (map_prod At id (fifo_erase_range p i j))) (Some (At i, al_cut (fifo_entries p) i j))"
  using fifo_erase_range_ok [OF assms] fifo_erase_range_fst [of p i j]
  by (cases "fifo_erase_range p i j") (simp add: al_cut_def)

interpretation ff: simulation fifo_ok fifo_entries "fifo_step d" al_step for d
proof
  fix p :: "('k, 'v) fifo" and d :: 'v and x
  assume p: "fifo_ok p"
  show "answers fifo_ok fifo_entries (fifo_step d p x) (al_step (fifo_entries p) x)"
  proof (cases x)
    case (FInsert k v)
    then show ?thesis using fifo_insert_ok [OF p, of k v] by (auto simp: fifo_step_def al_step_def)
  next
    case (FEmplace k v)
    then show ?thesis using fifo_insert_ok [OF p, of k v] by (auto simp: fifo_step_def al_step_def fifo_emplace_insert)
  next
    case (FAssign k v)
    then show ?thesis using fifo_assign_ok [OF p, of d k v] by (simp add: fifo_step_def al_step_def)
  next
    case (FErase k)
    obtain p' where "fifo_erase p k = (if k \<in> fst ` set (fifo_entries p) then 1 else 0, p')" "fifo_ok p'"
        "fifo_entries p' = al_cut (fifo_entries p) (key_index (fifo_entries p) k) (Suc (key_index (fifo_entries p) k))"
      unfolding al_cut_def using fifo_erase_ok [OF p, of k] by blast
    with FErase show ?thesis by (simp add: fifo_step_def al_step_def)
  next
    case (FErasePos i)
    then show ?thesis using erase_range_answers [OF p, of i "Suc i"]
      by (auto simp: fifo_step_def al_step_def fifo_end_entries fifo_erase_pos_range Suc_le_eq)
  next
    case (FEraseRange i j)
    then show ?thesis using erase_range_answers [OF p, of i j]
      by (auto simp: fifo_step_def al_step_def fifo_end_entries)
  next
    case (FFind k)
    then show ?thesis using p by (simp add: fifo_step_def al_step_def fifo_find_ok)
  next
    case (FAt k)
    then show ?thesis using p by (simp add: fifo_step_def al_step_def fifo_at_ok)
  next
    case FSize
    then show ?thesis using p by (simp add: fifo_step_def al_step_def fifo_end_entries)
  next
    case FClear
    then show ?thesis using fifo_clear_ok [OF p] by (simp add: fifo_step_def al_step_def)
  qed
qed

lemma insert_each_ok:
  "fifo_ok p \<Longrightarrow> fifo_ok (fifo_insert_each p xs) \<and>
   fifo_entries (fifo_insert_each p xs) = foldl (\<lambda>ys x. al_insert ys (fst x) (snd x)) (fifo_entries p) xs"
proof (induction xs arbitrary: p)
  case Nil
  then show ?case by simp
next
  case (Cons x xs)
  then show ?case using fifo_insert_ok [OF Cons.prems, of "fst x" "snd x"] Cons.IH [of "snd (fifo_insert p x)"] by auto
qed

section \<open>Properties\<close>

text \<open>
  C26. Every sequence of insertions, assignments through \<open>operator[]\<close>, removals, searches and clearings on a new map
  returns what it returns on an association list that appends new keys at its end; the entries stay in the order
  of insertion.
\<close>

theorem fifo_map_refines_insertion_order:
  "answers fifo_ok fifo_entries (run_steps (fifo_step d) (fifo_new s a) xs) (run_steps al_step [] xs)"
proof -
  have "fifo_ok (fifo_new s a :: ('a, 'b) fifo)" "fifo_entries (fifo_new s a :: ('a, 'b) fifo) = []"
    using fifo_new_ok by auto
  then show ?thesis using ff.run_answers [of "fifo_new s a" d xs] by simp
qed

text \<open>
  A copy of a well-formed map is a well-formed map of its own with the same entries in the same order, and it
  leaves the table of the original as it was.
\<close>

theorem fifo_copy_same:
  assumes "fifo_ok (s, f)" "addr \<noteq> m_keys f"
  shows "fifo_ok (fifo_copy s addr f) \<and> fifo_entries (fifo_copy s addr f) = nodes (m_map f) \<and>
    fifo_eq (snd (fifo_copy s addr f)) f \<and> fifo_ok (fst (fifo_copy s addr f), f)"
proof -
  have "stamped (s (m_keys f)) ([] @ nodes (m_map f))" using assms(1) by (simp add: fifo_ok_iff)
  from insert_all_stamped [OF this] have "smap_insert_all (table_less (s (m_keys f))) [] (nodes (m_map f)) = nodes (m_map f)"
    by simp
  then show ?thesis
    using assms by (auto simp: fifo_copy_def Let_def fifo_ok_iff fifo_entries_def fifo_eq_def cmp_less_table)
qed

definition demo_tables :: "nat key_tables" where
  "demo_tables = fst (fifo_range (\<lambda>_. Map.empty) 0 [(7 :: nat, ''a''), (3, ''b'')])"

definition demo_fifo :: "(nat, string) fifo_map" where
  "demo_fifo = snd (fifo_range (\<lambda>_. Map.empty) 0 [(7, ''a''), (3, ''b'')])"

lemma demo_fifo_ok: "fifo_ok (demo_tables, demo_fifo)" "nodes (m_map demo_fifo) = [(7, ''a''), (3, ''b'')]"
proof -
  let ?p = "fifo_range (\<lambda>_. Map.empty) 0 [(7 :: nat, ''a''), (3, ''b'')]"
  have "fifo_ok ?p \<and> fifo_entries ?p = [(7, ''a''), (3, ''b'')]"
    unfolding fifo_range_def
    using insert_each_ok [of "fifo_new (\<lambda>_. Map.empty) 0" "[(7 :: nat, ''a''), (3, ''b'')]", OF conjunct1 [OF fifo_new_ok]]
    by (simp add: al_insert_def fifo_new_ok del: fifo_insert_each.simps)
  moreover have "fst ?p = demo_tables" "snd ?p = demo_fifo" by (simp_all only: demo_tables_def demo_fifo_def)
  ultimately show "fifo_ok (demo_tables, demo_fifo)" "nodes (m_map demo_fifo) = [(7, ''a''), (3, ''b'')]"
    by (metis prod.collapse, simp add: fifo_entries_def)
qed

lemma demo_fifo_addr: "m_keys demo_fifo = 0"
  by (simp add: demo_fifo_def fifo_range_def fifo_new_def fifo_insert_def fifo_add_key_def add_key_def Let_def case_prod_beta)

theorem fifo_copy_same_witness:
  "fifo_ok (fifo_copy demo_tables 1 demo_fifo) \<and> fifo_entries (fifo_copy demo_tables 1 demo_fifo) = nodes (m_map demo_fifo) \<and>
    fifo_eq (snd (fifo_copy demo_tables 1 demo_fifo)) demo_fifo \<and> fifo_ok (fst (fifo_copy demo_tables 1 demo_fifo), demo_fifo)"
  by (rule fifo_copy_same [OF demo_fifo_ok(1)]) (simp add: demo_fifo_addr)

text \<open>A second map beside the first.\<close>

definition demo_fifo2 :: "(nat, string) fifo" where
  "demo_fifo2 = fifo_range demo_tables 1 [(5, ''c''), (9, ''d'')]"

text \<open>A search with the timestamps of keys none of which is stored: a stamped key is never found, any other at the first entry.\<close>

lemma find_foreign_table:
  assumes "fst ` set xs \<inter> dom t = {}"
  shows "smap_find (table_less t) xs k = (if k \<in> dom t then length xs else 0)"
proof (cases xs)
  case Nil
  then show ?thesis by (simp add: smap_find_def smap_lower_bound_def)
next
  case (Cons x ys)
  then have "t (fst x) = None" using assms by auto
  then show ?thesis using Cons by (auto simp: smap_find_def smap_lower_bound_def table_less_def Let_def)
qed

text \<open>
  C27. \<open>swap\<close> breaks both maps. For two maps without a common key, each has the entries of the other one afterwards but compares keys by
  its own former timestamps: a search for one of its own former keys gives \<open>end()\<close>, and a search for any other key, stored or not, gives
  \<open>begin()\<close>, the first entry. So of the entries that a map has now only the first can be found, and every absent key seems to be present.
\<close>

theorem fifo_swap_breaks_find:
  assumes "fifo_ok (s, f)" "fifo_ok (s, g)" "m_keys f \<noteq> m_keys g" "fst ` set (nodes (m_map f)) \<inter> fst ` set (nodes (m_map g)) = {}"
  shows "(case fifo_swap s f g of (s', f', g') \<Rightarrow>
    fifo_entries (s', f') = nodes (m_map g) \<and> fifo_entries (s', g') = nodes (m_map f) \<and>
    (\<forall>k. fifo_find (s', f') k = (if k \<in> fst ` set (nodes (m_map f)) then fifo_end (s', f') else fifo_begin (s', f'))) \<and>
    (\<forall>k. fifo_find (s', g') k = (if k \<in> fst ` set (nodes (m_map g)) then fifo_end (s', g') else fifo_begin (s', g'))))"
proof -
  have "dom (s (m_keys f)) = fst ` set (nodes (m_map f))" "dom (s (m_keys g)) = fst ` set (nodes (m_map g))"
    using assms(1,2) by (simp_all add: fifo_ok_iff)
  then have "smap_find (table_less (s (m_keys f))) (nodes (m_map g)) k = (if k \<in> fst ` set (nodes (m_map f)) then length (nodes (m_map g)) else 0)"
      "smap_find (table_less (s (m_keys g))) (nodes (m_map f)) k = (if k \<in> fst ` set (nodes (m_map g)) then length (nodes (m_map f)) else 0)" for k
    using find_foreign_table [of "nodes (m_map g)" "s (m_keys f)" k] find_foreign_table [of "nodes (m_map f)" "s (m_keys g)" k] assms(4)
    by (simp_all add: Int_commute)
  then show ?thesis
    using assms(1-3)
    by (simp add: fifo_swap_def Let_def fifo_entries_def fifo_find_def cmp_less_table fifo_ok_iff fifo_end_def fifo_begin_def)
qed

lemma demo_fifo2_ok:
  "fifo_ok demo_fifo2" "fifo_entries demo_fifo2 = [(5, ''c''), (9, ''d'')]" "m_keys (snd demo_fifo2) = 1"
  "fifo_ok (fst demo_fifo2, demo_fifo)"
proof -
  have "fifo_ok demo_fifo2 \<and> fifo_entries demo_fifo2 = [(5, ''c''), (9, ''d'')]"
    unfolding demo_fifo2_def fifo_range_def
    using insert_each_ok [of "fifo_new demo_tables 1" "[(5 :: nat, ''c''), (9, ''d'')]", OF conjunct1 [OF fifo_new_ok]]
    by (simp add: al_insert_def fifo_new_ok del: fifo_insert_each.simps)
  then show "fifo_ok demo_fifo2" "fifo_entries demo_fifo2 = [(5, ''c''), (9, ''d'')]" by auto
  show "m_keys (snd demo_fifo2) = 1"
    by (simp add: demo_fifo2_def fifo_range_def fifo_new_def fifo_insert_def fifo_add_key_def add_key_def Let_def case_prod_beta)
  have "fst demo_fifo2 0 = demo_tables 0"
    by (simp add: demo_fifo2_def fifo_range_def fifo_new_def fifo_insert_def fifo_add_key_def add_key_def Let_def case_prod_beta)
  then show "fifo_ok (fst demo_fifo2, demo_fifo)" using demo_fifo_ok(1) demo_fifo_addr by (simp add: fifo_ok_iff)
qed

theorem fifo_swap_breaks_find_witness:
  "(case fifo_swap (fst demo_fifo2) demo_fifo (snd demo_fifo2) of (s', f', g') \<Rightarrow>
     fifo_entries (s', f') = [(5, ''c''), (9, ''d'')] \<and> fifo_find (s', f') 9 = 0 \<and> fifo_find (s', f') 1000 = 0 \<and>
     fifo_entries (s', g') = [(7, ''a''), (3, ''b'')] \<and> fifo_find (s', g') 3 = 0 \<and> fifo_find (s', g') 9 = 2)"
  using fifo_swap_breaks_find [of "fst demo_fifo2" demo_fifo "snd demo_fifo2"] demo_fifo2_ok demo_fifo_ok(2)
  by (auto simp: demo_fifo_addr fifo_entries_def fifo_begin_def fifo_end_def)

end
