(* ===== verification/Vxlan.thy ===== *)
theory Vxlan
  imports SipHash
begin

text \<open>
  The tool \<open>pcap2vxlan\<close>: it reads a configuration, wraps every packet of a capture into Ethernet, IPv4, UDP and
  VXLAN headers and writes a new capture. Structures are their bytes in the memory of a little-endian 64-bit machine.
  The library functions \<open>ether_aton\<close> and \<open>inet_pton\<close> are parameters, files are lists, and a failed
  \<open>assert\<close> is \<open>None\<close>.
\<close>

section \<open>Configuration\<close>

definition isspace :: "char \<Rightarrow> bool" where
  "isspace c \<longleftrightarrow> c = CHR '' '' \<or> c = CHR 0x09 \<or> c = CHR 0x0A \<or> c = CHR 0x0B \<or> c = CHR 0x0C \<or> c = CHR 0x0D"

text \<open>\<open>%s\<close> of \<open>sscanf\<close>: the next word and what follows it; \<open>None\<close> at the end of the input.\<close>

definition scan_word :: "string \<Rightarrow> (string \<times> string) option" where
  "scan_word s =
     (let s = dropWhile isspace s
      in if s = [] then None else Some (takeWhile (Not \<circ> isspace) s, dropWhile (Not \<circ> isspace) s))"

text \<open>\<open>sscanf(buf, "%s = %s", key, value)\<close>: the words that are converted.\<close>

definition scan_pair :: "string \<Rightarrow> string option \<times> string option" where
  "scan_pair buf =
     (case scan_word buf of
        None \<Rightarrow> (None, None)
      | Some (key, s) \<Rightarrow>
          (case dropWhile isspace s of
             [] \<Rightarrow> (Some key, None)
           | c # s \<Rightarrow> (Some key, if c = CHR ''='' then map_option fst (scan_word s) else None)))"

fun digits :: "string \<Rightarrow> int \<Rightarrow> int" where
  "digits [] n = n"
| "digits (c # s) n =
     (if 48 \<le> (of_char c :: int) \<and> (of_char c :: int) \<le> 57 then digits s (10 * n + (of_char c - 48)) else n)"

definition atoi :: "string \<Rightarrow> int" where
  "atoi s =
     (let s = dropWhile isspace s
      in case s of
           [] \<Rightarrow> 0
         | c # t \<Rightarrow> if c = CHR ''-'' then - digits t 0 else if c = CHR ''+'' then digits t 0 else digits s 0)"

datatype conf_type = CONF_INT | CONF_STR
datatype conf_value = IntValue uint32 | StrValue string

definition CONF_SIZE :: nat where "CONF_SIZE = 1024"

text \<open>
  The value of the row when its key is \<open>findKey\<close>. The words are shorter than the buffers for key and value.
\<close>

definition parse_element :: "string \<Rightarrow> conf_type \<Rightarrow> string \<Rightarrow> conf_value option" where
  "parse_element buf type findKey =
     (case scan_pair buf of
        (None, _) \<Rightarrow> None
      | (Some key, v) \<Rightarrow>
          (let val = (case v of None \<Rightarrow> [] | Some val \<Rightarrow> val)
           in if findKey = key
              then Some (case type of CONF_INT \<Rightarrow> IntValue (word_of_int (atoi val))
                                    | CONF_STR \<Rightarrow> StrValue (take (CONF_SIZE - 1) val))
              else None))"

text \<open>The calls of \<open>parse_element\<close> for a string and for a number.\<close>

definition str_element :: "string \<Rightarrow> string \<Rightarrow> string option" where
  "str_element buf findKey = (case parse_element buf CONF_STR findKey of Some (StrValue s) \<Rightarrow> Some s | _ \<Rightarrow> None)"

definition int_element :: "string \<Rightarrow> string \<Rightarrow> uint32 option" where
  "int_element buf findKey = (case parse_element buf CONF_INT findKey of Some (IntValue n) \<Rightarrow> Some n | _ \<Rightarrow> None)"

text \<open>\<open>src_mac\<close> and \<open>dst_mac\<close> are pointers.\<close>

record sys_conf =
  src_mac :: uint64
  dst_mac :: uint64
  src_ip :: "byte list"
  dst_ip :: "byte list"
  vxlan_port :: uint32
  vxlan_vni :: uint32

definition zero_conf :: sys_conf where
  "zero_conf = \<lparr>src_mac = 0, dst_mac = 0, src_ip = [0, 0, 0, 0], dst_ip = [0, 0, 0, 0], vxlan_port = 0, vxlan_vni = 0\<rparr>"

definition strip_newline :: "string \<Rightarrow> string" where
  "strip_newline row = (if row \<noteq> [] \<and> last row = CHR 0x0A then butlast row else row)"

text \<open>One turn of the loop over the rows of the file.\<close>

definition parse_row :: "(string \<Rightarrow> uint64) \<Rightarrow> (string \<Rightarrow> byte list option) \<Rightarrow> sys_conf \<Rightarrow> string \<Rightarrow> sys_conf option" where
  "parse_row ether_aton inet_pton conf row =
     (let row = strip_newline row
      in if row = [] \<or> hd row = CHR ''#'' then Some conf
         else
           case str_element row ''OUTER_SRC_MAC'' of
             Some bufs \<Rightarrow> if ether_aton bufs = 0 then None else Some (conf\<lparr>src_mac := ether_aton bufs\<rparr>)
           | None \<Rightarrow>
           case str_element row ''OUTER_DST_MAC'' of
             Some bufs \<Rightarrow> if ether_aton bufs = 0 then None else Some (conf\<lparr>dst_mac := ether_aton bufs\<rparr>)
           | None \<Rightarrow>
           case str_element row ''OUTER_SRC_IP'' of
             Some bufs \<Rightarrow> map_option (\<lambda>ip. conf\<lparr>src_ip := ip\<rparr>) (inet_pton bufs)
           | None \<Rightarrow>
           case str_element row ''OUTER_DST_IP'' of
             Some bufs \<Rightarrow> map_option (\<lambda>ip. conf\<lparr>dst_ip := ip\<rparr>) (inet_pton bufs)
           | None \<Rightarrow>
           case int_element row ''VXLAN_PORT'' of
             Some n \<Rightarrow> Some (conf\<lparr>vxlan_port := n\<rparr>)
           | None \<Rightarrow>
           case int_element row ''VXLAN_VNI'' of
             Some n \<Rightarrow> Some (conf\<lparr>vxlan_vni := n\<rparr>)
           | None \<Rightarrow> Some conf)"

fun parse_rows :: "(string \<Rightarrow> uint64) \<Rightarrow> (string \<Rightarrow> byte list option) \<Rightarrow> sys_conf \<Rightarrow> string list \<Rightarrow> sys_conf option" where
  "parse_rows aton pton conf [] = Some conf"
| "parse_rows aton pton conf (row # rows) =
     (case parse_row aton pton conf row of None \<Rightarrow> None | Some conf \<Rightarrow> parse_rows aton pton conf rows)"

text \<open>The rows of the file, or \<open>None\<close> when it cannot be opened; \<open>None\<close> as the result is a failed assertion, in \<open>main\<close> for that case.\<close>

definition parse_conf :: "(string \<Rightarrow> uint64) \<Rightarrow> (string \<Rightarrow> byte list option) \<Rightarrow> string list option \<Rightarrow> sys_conf option" where
  "parse_conf aton pton fp = (case fp of None \<Rightarrow> None | Some rows \<Rightarrow> parse_rows aton pton zero_conf rows)"

section \<open>Checksums\<close>

definition load16 :: "byte list \<Rightarrow> uint16" where
  "load16 p = ucast (p ! 0) OR push_bit 8 (ucast (p ! 1))"

definition htonl :: "uint32 \<Rightarrow> uint32" where
  "htonl v =
     push_bit 24 v OR push_bit 8 (v AND 0xFF00) OR (drop_bit 8 v AND 0xFF00) OR drop_bit 24 v"

fun checksum_loop :: "byte list \<Rightarrow> nat \<Rightarrow> uint32 \<Rightarrow> byte list \<times> nat \<times> uint32" where
  "checksum_loop d (Suc (Suc len)) L_sum = checksum_loop (drop 2 d) len (L_sum + ucast (htons (load16 d)))"
| "checksum_loop d len L_sum = (d, len, L_sum)"

definition pkt_checksum :: "byte list \<Rightarrow> nat \<Rightarrow> uint16 \<Rightarrow> uint16" where
  "pkt_checksum d len add =
     (let (d, len, L_sum) = checksum_loop d len (ucast add);
          L_sum = (if len = 1 then L_sum + ucast (htons (load16 [d ! 0, 0])) else L_sum);
          L_sum = (L_sum AND 0xffff) + drop_bit 16 L_sum;
          L_sum = (L_sum AND 0xffff) + drop_bit 16 L_sum
      in NOT (ucast L_sum))"

section \<open>Headers\<close>

definition le16 :: "uint16 \<Rightarrow> byte list" where
  "le16 v = [ucast v, ucast (drop_bit 8 v)]"

record ether_h =
  ether_dhost :: "byte list"
  ether_shost :: "byte list"
  ntag :: uint16

definition ether_bytes :: "ether_h \<Rightarrow> byte list" where
  "ether_bytes e = ether_dhost e @ ether_shost e @ le16 (ntag e)"

record ip_h =
  ip_hl :: byte
  ip_v :: byte
  ip_tos :: byte
  ip_len :: uint16
  ip_id :: uint16
  ip_off :: uint16
  ip_ttl :: byte
  ip_p :: byte
  ip_sum :: uint16
  ip_src :: "byte list"
  ip_dst :: "byte list"

definition ip_bytes :: "ip_h \<Rightarrow> byte list" where
  "ip_bytes h =
     [ip_hl h OR push_bit 4 (ip_v h), ip_tos h] @ le16 (ip_len h) @ le16 (ip_id h) @ le16 (ip_off h) @
     [ip_ttl h, ip_p h] @ le16 (ip_sum h) @ ip_src h @ ip_dst h"

record udp_h =
  uh_sport :: uint16
  uh_dport :: uint16
  uh_ulen :: uint16
  uh_sum :: uint16

definition udp_bytes :: "udp_h \<Rightarrow> byte list" where
  "udp_bytes u = le16 (uh_sport u) @ le16 (uh_dport u) @ le16 (uh_ulen u) @ le16 (uh_sum u)"

text \<open>The bit fields of \<open>struct vxlan\<close> from the lowest bit on.\<close>

record vxlan_h =
  r6_8 :: byte
  i_bit :: byte
  r1_4 :: byte
  pad1 :: uint32
  vni :: uint32
  pad2 :: uint32

definition vxlan_bytes :: "vxlan_h \<Rightarrow> byte list" where
  "vxlan_bytes v =
     U32TO8_LE (ucast (r6_8 v OR push_bit 3 (i_bit v) OR push_bit 4 (r1_4 v)) OR push_bit 8 (pad1 v)) @
     U32TO8_LE ((vni v AND 0xFFFFFF) OR push_bit 24 (pad2 v))"

section \<open>The program\<close>

text \<open>
  \<open>memcpy(&ether_out.ether_shost, &conf.src_mac, ...)\<close> copies from the address of the pointer: the first six of
  its eight bytes.
\<close>

definition ether_header :: "uint64 \<Rightarrow> uint64 \<Rightarrow> ether_h" where
  "ether_header dst src =
     \<lparr>ether_dhost = take 6 (U64TO8_LE dst), ether_shost = take 6 (U64TO8_LE src), ntag = 0x0008\<rparr>"

definition ip_header :: "byte list \<Rightarrow> byte list \<Rightarrow> ip_h" where
  "ip_header src dst =
     \<lparr>ip_hl = 5, ip_v = 4, ip_tos = 0, ip_len = 0, ip_id = 0, ip_off = 0x0040, ip_ttl = 0x40, ip_p = 0x11, ip_sum = 0,
      ip_src = src, ip_dst = dst\<rparr>"

definition udp_header :: "sys_conf \<Rightarrow> udp_h" where
  "udp_header conf = \<lparr>uh_sport = 0, uh_dport = htons (ucast (vxlan_port conf)), uh_ulen = 0, uh_sum = 0\<rparr>"

definition vxlan_header :: "sys_conf \<Rightarrow> vxlan_h" where
  "vxlan_header conf =
     \<lparr>r6_8 = 0, i_bit = 1, r1_4 = 0, pad1 = 0, vni = drop_bit 8 (htonl (vxlan_vni conf)) AND 0xFFFFFF, pad2 = 0\<rparr>"

definition pfhdr_bytes :: "byte list" where
  "pfhdr_bytes = U32TO8_LE 0xa1b2c3d4 @ le16 2 @ le16 4 @ U32TO8_LE 0 @ U32TO8_LE 0 @ U32TO8_LE 0xffff @ U32TO8_LE 1"

record packet =
  tv_sec :: uint32
  tv_usec :: uint32
  caplen :: uint32
  pkt_len :: uint32
  pkt_data :: "byte list"

definition pd_pkthdr_bytes :: "packet \<Rightarrow> byte list" where
  "pd_pkthdr_bytes p =
     U32TO8_LE (tv_sec p) @ U32TO8_LE (tv_usec p) @ U32TO8_LE (caplen p + 50) @ U32TO8_LE (pkt_len p + 50)"

text \<open>The length and checksum of the outer IP header.\<close>

definition finish_ip :: "ip_h \<Rightarrow> uint16 \<Rightarrow> ip_h" where
  "finish_ip iph ip_size =
     (let iph = iph\<lparr>ip_len := htons ip_size\<rparr>;
          iph = iph\<lparr>ip_sum := 0\<rparr>;
          csum = pkt_checksum (ip_bytes iph) 20 0
      in iph\<lparr>ip_sum := htons csum\<rparr>)"

text \<open>
  The record written for one packet; \<open>stack\<close> are the 14 bytes from the address of the variable \<open>eth_hdr\<close> on, which the
  code takes for the Ethernet header, and \<open>out\<close> tells the direction.
\<close>

definition encapsulate :: "sys_conf \<Rightarrow> byte list \<Rightarrow> bool \<Rightarrow> packet \<Rightarrow> byte list" where
  "encapsulate conf stack out p =
     (let ip_size = 36 + ucast (caplen p);
          udp_size = 16 + ucast (caplen p);
          eth = (if out then ether_header (dst_mac conf) (src_mac conf) else ether_header (src_mac conf) (dst_mac conf));
          iph = (if out then ip_header (src_ip conf) (dst_ip conf) else ip_header (dst_ip conf) (src_ip conf));
          udph = (udp_header conf)\<lparr>uh_sport := pkt_checksum stack 14 0, uh_ulen := htons udp_size\<rparr>
      in pd_pkthdr_bytes p @ ether_bytes eth @ ip_bytes (finish_ip iph ip_size) @ udp_bytes udph @
         vxlan_bytes (vxlan_header conf) @ pkt_data p)"

definition frame_shost :: "packet \<Rightarrow> byte list" where
  "frame_shost p = take 6 (drop 6 (pkt_data p))"

text \<open>The loop over the packets: the first sender is the one whose packets go out.\<close>

fun packet_loop :: "sys_conf \<Rightarrow> nat \<Rightarrow> byte list \<Rightarrow> (packet \<times> byte list) list \<Rightarrow> byte list" where
  "packet_loop conf i smac [] = []"
| "packet_loop conf i smac ((p, stack) # ps) =
     (let smac = (if i = 0 then frame_shost p else smac)
      in encapsulate conf stack (smac = frame_shost p) p @ packet_loop conf (i + 1) smac ps)"

text \<open>The whole run; printing an address that was not configured dereferences the null pointer.\<close>

definition pcap2vxlan :: "(string \<Rightarrow> uint64) \<Rightarrow> (string \<Rightarrow> byte list option) \<Rightarrow> string list option \<Rightarrow> (packet \<times> byte list) list \<Rightarrow> byte list option" where
  "pcap2vxlan aton pton fp ps =
     (case parse_conf aton pton fp of
        None \<Rightarrow> None
      | Some conf \<Rightarrow>
          (if src_mac conf = 0 \<or> dst_mac conf = 0 then None
           else Some (pfhdr_bytes @ packet_loop conf 0 [0, 0, 0, 0, 0, 0] ps)))"

end
