(* ===== verification/VxlanProps.thy ===== *)
theory VxlanProps
  imports Vxlan
begin

text \<open>
  The checksum of \<open>pkt_checksum\<close> as a sum of numbers with end-around carry, the bytes of the outer headers, a receiver
  that takes a packet apart again, and the properties of \<open>pcap2vxlan\<close>.
\<close>

section \<open>Checksums as numbers\<close>

definition be16 :: "byte \<Rightarrow> byte \<Rightarrow> nat" where
  "be16 a b = 256 * unat a + unat b"

lemma htons_load16: "htons (load16 (a # b # d)) = push_bit 8 (ucast a) OR ucast b"
  by (rule bit_word_eqI) (auto simp: htons_def load16_def bit_simps bit_byte_beyond not_less)

lemma byte_lt: "unat (b :: byte) < 256"
  using unsigned_less [of b] by simp

lemma unat_ucast_up: "unat (w :: 'a::len word) < 2 ^ LENGTH('b) \<Longrightarrow> unat (ucast w :: 'b::len word) = unat w"
  by (simp add: unsigned_ucast_eq take_bit_nat_eq_self)

lemma unat_of_nat_small: "n < 2 ^ LENGTH('b) \<Longrightarrow> unat (of_nat n :: 'b::len word) = n"
  by (simp add: unsigned_of_nat take_bit_nat_eq_self)

lemma unat_eq_of_nat: "unat w = n \<Longrightarrow> w = of_nat n"
  by (metis of_nat_unat ucast_id)

lemma unat_byte_pair: "unat (push_bit 8 (ucast a) OR ucast b :: uint16) = be16 a b"
proof -
  have "push_bit 8 (ucast a) OR ucast b = (push_bit 8 (ucast a) + ucast b :: uint16)"
    by (rule disjunctive_add [symmetric]) (auto simp: bit_simps bit_byte_beyond)
  moreover have b: "unat (ucast b :: uint16) = unat b" for b :: byte
    using byte_lt [of b] by (intro unat_ucast_up) simp
  moreover have "unat (push_bit 8 (ucast a) :: uint16) = 256 * unat a"
    using byte_lt [of a] b [of a] by (simp add: push_bit_eq_mult unat_word_ariths)
  moreover have "256 * unat a + unat b < 65536" using byte_lt [of a] byte_lt [of b] by simp
  ultimately show ?thesis by (simp add: be16_def unat_word_ariths)
qed

fun be16_sum :: "byte list \<Rightarrow> nat" where
  "be16_sum (a # b # d) = be16 a b + be16_sum d"
| "be16_sum _ = 0"

lemma unat_ntohs: "unat (ucast (htons (load16 (a # b # d))) :: uint32) = be16 a b"
  using byte_lt [of a] byte_lt [of b]
  by (subst unat_ucast_up) (simp_all add: htons_load16 unat_byte_pair be16_def)

lemma checksum_loop_sum:
  assumes "length d = 2 * n"
  shows "checksum_loop d (2 * n) w = (drop (2 * n) d, 0, w + of_nat (be16_sum d))"
  using assms
proof (induction n arbitrary: d w)
  case 0
  then show ?case by simp
next
  case (Suc n)
  then obtain a b e where d: "d = a # b # e" "length e = 2 * n" by (cases d; cases "tl d") auto
  have "ucast (htons (load16 (a # b # e))) = (of_nat (be16 a b) :: uint32)"
    by (rule unat_eq_of_nat [OF unat_ntohs])
  then show ?case using Suc.IH [OF d(2)] by (simp add: d(1) add.assoc)
qed

text \<open>Adding the carries back, as a number.\<close>

definition fold16 :: "nat \<Rightarrow> nat" where
  "fold16 x = x mod 65536 + x div 65536"

definition ones_sum :: "nat \<Rightarrow> nat" where
  "ones_sum x = (if x = 0 then 0 else if x mod 65535 = 0 then 65535 else x mod 65535)"

lemma fold16_mod: "fold16 x mod 65535 = x mod 65535"
proof -
  have "x = fold16 x + 65535 * (x div 65536)" by (simp add: fold16_def)
  then show ?thesis by (metis mod_mult_self2)
qed

lemma fold16_pos: "fold16 x = 0 \<longleftrightarrow> x = 0"
  by (auto simp: fold16_def)

lemma fold16_twice: "x < 2 ^ 32 \<Longrightarrow> fold16 (fold16 x) = ones_sum x"
proof -
  assume x: "x < 2 ^ 32"
  let ?y = "fold16 (fold16 x)"
  have "x div 65536 < 65536" using x by (simp add: less_mult_imp_div_less)
  then have "fold16 x \<le> 131070" using mod_less_divisor [of 65536 x] unfolding fold16_def by linarith
  then have b: "?y \<le> 65535" by (cases "fold16 x < 65536") (auto simp: fold16_def [of "fold16 x"] mod_if div_if)
  have m: "?y mod 65535 = x mod 65535" by (simp add: fold16_mod)
  show ?thesis
  proof (cases "x = 0")
    case True
    then show ?thesis by (simp add: fold16_def ones_sum_def)
  next
    case False
    then have "?y \<noteq> 0" by (simp add: fold16_pos)
    then show ?thesis using b m False by (cases "?y = 65535") (auto simp: ones_sum_def)
  qed
qed

lemma fold16_word:
  fixes w :: uint32
  assumes "w = of_nat x" "x < 2 ^ 32"
  shows "(w AND 0xffff) + drop_bit 16 w = of_nat (fold16 x)" "fold16 x < 2 ^ 32"
proof -
  have "w AND 0xffff = take_bit 16 w" by (simp add: take_bit_eq_mask mask_eq_exp_minus_1)
  moreover have u: "unat w = x" using assms by (simp add: unat_of_nat_small)
  have "take_bit 16 w = of_nat (x mod 65536)"
    by (rule unat_eq_of_nat, subst unsigned_take_bit_eq) (simp_all add: u take_bit_eq_mod [of 16 x])
  moreover have "drop_bit 16 w = of_nat (x div 65536)"
    using assms(2) by (intro unat_eq_of_nat, subst unsigned_drop_bit_eq) (simp add: u take_bit_nat_eq_self drop_bit_eq_div [of 16 x])
  ultimately show "(w AND 0xffff) + drop_bit 16 w = of_nat (fold16 x)" by (simp add: fold16_def)
  show "fold16 x < 2 ^ 32" using assms(2) by (simp add: fold16_def) 
qed

lemma pkt_checksum_even:
  assumes "length d = 2 * n" "be16_sum d < 2 ^ 32"
  shows "pkt_checksum d (2 * n) 0 = NOT (of_nat (ones_sum (be16_sum d)))"
proof -
  let ?x = "be16_sum d"
  note f1 = fold16_word [OF refl assms(2)]
  note f2 = fold16_word [OF refl f1(2)]
  have u: "ucast (of_nat (ones_sum ?x) :: uint32) = (of_nat (ones_sum ?x) :: uint16)"
    by (rule unsigned_word_eqI) (simp add: unsigned_ucast_eq unsigned_of_nat)
  have "pkt_checksum d (2 * n) 0 = NOT (ucast (of_nat (fold16 (fold16 ?x)) :: uint32))"
    by (simp add: pkt_checksum_def checksum_loop_sum [OF assms(1)] Let_def f1(1) f2(1))
  then show ?thesis using fold16_twice [OF assms(2)] u by simp
qed

lemma ones_sum_le: "ones_sum x \<le> 65535"
  by (auto simp: ones_sum_def intro: less_imp_le)

lemma unat_not: "n \<le> 65535 \<Longrightarrow> unat (NOT (of_nat n :: uint16)) = 65535 - n"
proof -
  assume n: "n \<le> 65535"
  have "NOT (of_nat n :: uint16) = - 1 - of_nat n" by (simp add: not_eq_complement)
  moreover have "unat (- 1 - of_nat n :: uint16) = unat (- 1 :: uint16) - unat (of_nat n :: uint16)"
    by (rule unat_sub) simp
  moreover have "unat (- 1 :: uint16) = 65535" by (simp add: unsigned_minus_1_eq_mask mask_eq_exp_minus_1)
  ultimately show ?thesis using n by (simp add: unat_of_nat_small)
qed

text \<open>A sum completed by its complement folds to all ones.\<close>

lemma ones_sum_complement: "0 < x \<Longrightarrow> ones_sum (x + (65535 - ones_sum x)) = 65535"
proof -
  assume x: "0 < x"
  have "(x + (65535 - ones_sum x)) mod 65535 = 0"
  proof (cases "x mod 65535 = 0")
    case True
    then show ?thesis using x by (simp add: ones_sum_def)
  next
    case False
    have "x + (65535 - r) = 65535 * (q + 1)" if "x = 65535 * q + r" "r < 65535" for q r using that by simp
    from this [of "x div 65535" "x mod 65535"] have "x + (65535 - x mod 65535) = 65535 * (x div 65535 + 1)" by simp
    then show ?thesis using False x by (simp only: ones_sum_def) simp
  qed
  then show ?thesis using x by (simp add: ones_sum_def [of "x + _"])
qed

section \<open>The outer headers\<close>

lemma length_ip_bytes: "length (ip_src h) = 4 \<Longrightarrow> length (ip_dst h) = 4 \<Longrightarrow> length (ip_bytes h) = 20"
  by (simp add: ip_bytes_def le16_def)

lemma be16_sum_append: "even (length xs) \<Longrightarrow> be16_sum (xs @ ys) = be16_sum xs + be16_sum ys"
  by (induction xs rule: be16_sum.induct) auto

lemma be16_sum_le: "be16_sum d \<le> 65535 * length d"
proof (induction d rule: be16_sum.induct)
  case (1 a b d)
  have "be16 a b \<le> 65535" using byte_lt [of a] byte_lt [of b] by (simp add: be16_def)
  then show ?case using 1 by simp
qed simp_all

lemma be16_htons: "be16 (ucast (htons w)) (ucast (drop_bit 8 (htons w))) = unat w"
proof -
  have "ucast (drop_bit 8 (htons w)) = (ucast w :: byte)" "(ucast (htons w) :: byte) = ucast (drop_bit 8 w)"
    by (rule bit_word_eqI; auto simp: htons_def bit_simps)+
  moreover have "be16 (ucast (drop_bit 8 w)) (ucast w) = unat w"
    by (subst unat_byte_pair [symmetric], rule arg_cong [where f = unat], rule bit_word_eqI) (auto simp: bit_simps)
  ultimately show ?thesis by simp
qed

text \<open>The sum over the header with a checksum field \<open>c\<close> (in network order).\<close>

lemma ip_sum_field:
  "be16_sum (ip_bytes (h\<lparr>ip_sum := htons c\<rparr>)) = be16_sum (ip_bytes (h\<lparr>ip_sum := 0\<rparr>)) + unat c"
  by (simp add: ip_bytes_def le16_def be16_htons be16_def [of 0 0])

lemma ip_sum_pos: "ip_v h = 4 \<Longrightarrow> ip_hl h = 5 \<Longrightarrow> 0 < be16_sum (ip_bytes h)"
  by (simp add: ip_bytes_def be16_def push_bit_eq_mult)

lemma finish_ip_verifies:
  assumes "length (ip_src h) = 4" "length (ip_dst h) = 4" "ip_v h = 4" "ip_hl h = 5"
  shows "pkt_checksum (ip_bytes (finish_ip h ip_size)) 20 0 = 0"
proof -
  define g where "g = h\<lparr>ip_len := htons ip_size, ip_sum := 0\<rparr>"
  define c where "c = pkt_checksum (ip_bytes g) 20 0"
  let ?x = "be16_sum (ip_bytes g)" and ?f = "g\<lparr>ip_sum := htons c\<rparr>"
  have fin: "finish_ip h ip_size = ?f" by (simp add: finish_ip_def Let_def c_def g_def)
  have l: "length (ip_bytes g) = 2 * 10" "length (ip_bytes ?f) = 2 * 10"
    using length_ip_bytes [of g] length_ip_bytes [of ?f] assms by (simp_all add: g_def)
  have b: "?x < 2 ^ 32" "be16_sum (ip_bytes ?f) < 2 ^ 32"
    using be16_sum_le [of "ip_bytes g"] be16_sum_le [of "ip_bytes ?f"] l by simp_all
  have "c = NOT (of_nat (ones_sum ?x))" using pkt_checksum_even [OF l(1) b(1)] by (simp add: c_def)
  then have "unat c = 65535 - ones_sum ?x" using unat_not [OF ones_sum_le] by simp
  moreover have "g\<lparr>ip_sum := 0\<rparr> = g" by (simp add: g_def)
  ultimately have s: "be16_sum (ip_bytes ?f) = ?x + (65535 - ones_sum ?x)" using ip_sum_field [where h = g and c = c] by simp
  have "0 < ?x" using assms(3,4) by (intro ip_sum_pos) (simp_all add: g_def)
  then have "ones_sum (be16_sum (ip_bytes ?f)) = 65535" unfolding s by (rule ones_sum_complement)
  then show ?thesis using pkt_checksum_even [OF l(2) b(2)] by (simp add: fin)
qed

lemma list4: "length xs = 4 \<Longrightarrow> xs = [xs ! 0, xs ! 1, xs ! 2, xs ! 3]"
  by (auto simp: numeral_eq_Suc length_Suc_conv)

lemma vni_bytes:
  fixes v :: uint32
  assumes "w = (drop_bit 8 (htonl v) AND 0xFFFFFF) AND 0xFFFFFF"
  shows "(ucast w :: byte) = ucast (drop_bit 16 v)" "(ucast (drop_bit 8 w) :: byte) = ucast (drop_bit 8 v)"
    "(ucast (drop_bit 16 w) :: byte) = ucast v"
proof -
  have m: "(0xFFFFFF :: uint32) = mask 24" "(0xFF00 :: uint32) = push_bit 8 (mask 8)"
    by (simp_all add: mask_eq_exp_minus_1 push_bit_eq_mult)
  show "(ucast w :: byte) = ucast (drop_bit 16 v)" "(ucast (drop_bit 8 w) :: byte) = ucast (drop_bit 8 v)"
    "(ucast (drop_bit 16 w) :: byte) = ucast v"
    unfolding assms htonl_def m by (rule bit_word_eqI; auto simp: bit_simps)+
qed

text \<open>The parts of the record for one packet.\<close>

lemma unat_size:
  assumes "unat (c :: uint32) \<le> 65499" "n \<le> 36"
  shows "unat (of_nat n + ucast c :: uint16) = n + unat c"
proof -
  have "unat (ucast c :: uint16) = unat c" using assms(1) by (intro unat_ucast_up) simp
  then show ?thesis using assms by (simp add: unat_word_ariths unat_of_nat_small)
qed

lemma encapsulate_parts:
  assumes "length (src_ip conf) = 4" "length (dst_ip conf) = 4"
  shows "\<exists>e i u. drop 16 (encapsulate conf stack out p) = e @ [8, 0] @ i @ u @ vxlan_bytes (vxlan_header conf) @ pkt_data p \<and>
    length e = 12 \<and> length i = 20 \<and> length u = 8 \<and> pkt_checksum i 20 0 = 0 \<and>
    be16 (i ! 2) (i ! 3) = unat (36 + ucast (caplen p) :: uint16) \<and> i ! 9 = 0x11 \<and>
    take 4 (drop 12 i) = (if out then src_ip conf else dst_ip conf) \<and> drop 16 i = (if out then dst_ip conf else src_ip conf) \<and>
    be16 (u ! 2) (u ! 3) = unat (ucast (vxlan_port conf) :: uint16) \<and>
    be16 (u ! 4) (u ! 5) = unat (16 + ucast (caplen p) :: uint16)"
proof -
  let ?h = "if out then ip_header (src_ip conf) (dst_ip conf) else ip_header (dst_ip conf) (src_ip conf)"
  let ?i = "ip_bytes (finish_ip ?h (36 + ucast (caplen p)))"
  let ?e = "if out then ether_header (dst_mac conf) (src_mac conf) else ether_header (src_mac conf) (dst_mac conf)"
  let ?u = "udp_bytes ((udp_header conf)\<lparr>uh_sport := pkt_checksum stack 14 0, uh_ulen := htons (16 + ucast (caplen p))\<rparr>)"
  have h: "length (ip_src ?h) = 4" "length (ip_dst ?h) = 4" "ip_v ?h = 4" "ip_hl ?h = 5"
    "ip_src ?h = (if out then src_ip conf else dst_ip conf)" "ip_dst ?h = (if out then dst_ip conf else src_ip conf)"
    "ip_p ?h = 0x11"
    using assms by (simp_all add: ip_header_def)
  have "pkt_checksum ?i 20 0 = 0" by (rule finish_ip_verifies [OF h(1-4)])
  moreover have "length ?i = 20" "be16 (?i ! 2) (?i ! 3) = unat (36 + ucast (caplen p) :: uint16)" "?i ! 9 = 0x11"
      "take 4 (drop 12 ?i) = ip_src ?h" "drop 16 ?i = ip_dst ?h"
    using h by (simp_all add: finish_ip_def Let_def ip_bytes_def le16_def be16_htons)
  moreover have "length ?u = 8" "be16 (?u ! 2) (?u ! 3) = unat (ucast (vxlan_port conf) :: uint16)"
      "be16 (?u ! 4) (?u ! 5) = unat (16 + ucast (caplen p) :: uint16)"
    by (simp_all add: udp_bytes_def udp_header_def le16_def be16_htons)
  moreover have "ether_bytes ?e = ether_dhost ?e @ ether_shost ?e @ [8, 0]" "length (ether_dhost ?e @ ether_shost ?e) = 12"
    by (simp_all add: ether_bytes_def ether_header_def le16_def)
  moreover have "drop 16 (encapsulate conf stack out p) = ether_bytes ?e @ ?i @ ?u @ vxlan_bytes (vxlan_header conf) @ pkt_data p"
    by (simp add: encapsulate_def Let_def pd_pkthdr_bytes_def U32TO8_LE_def)
  ultimately show ?thesis using h(5,6)
    by (intro exI [of _ "ether_dhost ?e @ ether_shost ?e"] exI [of _ ?i] exI [of _ ?u]) (simp only: append_assoc simp_thms)
qed

text \<open>What a receiver of VXLAN checks and reads: UDP port, network identifier and inner frame.\<close>

definition decapsulate :: "byte list \<Rightarrow> (nat \<times> byte list \<times> byte list) option" where
  "decapsulate f =
     (if 50 \<le> length f \<and> be16 (f ! 12) (f ! 13) = 0x0800 \<and> pkt_checksum (take 20 (drop 14 f)) 20 0 = 0 \<and>
         be16 (f ! 16) (f ! 17) = length f - 14 \<and> f ! 23 = 0x11 \<and> be16 (f ! 38) (f ! 39) = length f - 34 \<and> f ! 42 = 8
      then Some (be16 (f ! 36) (f ! 37), [f ! 46, f ! 47, f ! 48], drop 50 f) else None)"

lemma vxlan_header_bytes:
  "vxlan_bytes (vxlan_header conf) = [8, 0, 0, 0, ucast (drop_bit 16 (vxlan_vni conf)), ucast (drop_bit 8 (vxlan_vni conf)),
     ucast (vxlan_vni conf), 0]"
proof -
  let ?w = "(drop_bit 8 (htonl (vxlan_vni conf)) AND 0xFFFFFF) AND 0xFFFFFF"
  have m: "(0xFFFFFF :: uint32) = mask 24" by (simp add: mask_eq_exp_minus_1)
  have "(ucast (drop_bit 24 ?w) :: byte) = 0" unfolding m by (rule bit_word_eqI) (auto simp: bit_simps)
  then show ?thesis using vni_bytes [OF refl, of "vxlan_vni conf"]
    by (simp add: vxlan_bytes_def vxlan_header_def U32TO8_LE_def push_bit_eq_mult)
qed

lemma decapsulate_parts:
  assumes "length e = 12" "length i = 20" "length u = 8" "length v = 8"
  shows "decapsulate (e @ [8, 0] @ i @ u @ v @ d) =
    (if pkt_checksum i 20 0 = 0 \<and> be16 (i ! 2) (i ! 3) = 36 + length d \<and> i ! 9 = 0x11 \<and> be16 (u ! 4) (u ! 5) = 16 + length d \<and> v ! 0 = 8
     then Some (be16 (u ! 2) (u ! 3), [v ! 4, v ! 5, v ! 6], d) else None)"
  using assms by (simp add: decapsulate_def nth_append be16_def [of 8 0])

section \<open>Properties\<close>

text \<open>
  C30. A receiver that checks the outer headers accepts every packet of at most 65499 captured bytes and reads back the
  configured port, the configured network identifier and the original frame; of a longer packet the length fields
  wrap around and the receiver rejects it.
\<close>

theorem encapsulate_roundtrip:
  assumes "length (src_ip conf) = 4" "length (dst_ip conf) = 4" "length (pkt_data p) = unat (caplen p)"
  shows "decapsulate (drop 16 (encapsulate conf stack out p)) =
    (if unat (caplen p) \<le> 65499
     then Some (unat (ucast (vxlan_port conf) :: uint16),
       [ucast (drop_bit 16 (vxlan_vni conf)), ucast (drop_bit 8 (vxlan_vni conf)), ucast (vxlan_vni conf)], pkt_data p)
     else None)"
proof -
  let ?v = "vxlan_bytes (vxlan_header conf)" and ?c = "unat (caplen p)"
  obtain e i u where
    f: "drop 16 (encapsulate conf stack out p) = e @ [8, 0] @ i @ u @ ?v @ pkt_data p" "length e = 12" "length i = 20" "length u = 8"
      "pkt_checksum i 20 0 = 0" "be16 (i ! 2) (i ! 3) = unat (36 + ucast (caplen p) :: uint16)" "i ! 9 = 0x11"
      "be16 (u ! 2) (u ! 3) = unat (ucast (vxlan_port conf) :: uint16)" "be16 (u ! 4) (u ! 5) = unat (16 + ucast (caplen p) :: uint16)"
    using encapsulate_parts [OF assms(1,2), of stack out p] by blast
  have "unat (36 + ucast (caplen p) :: uint16) < 2 ^ 16" using unsigned_less [of "36 + ucast (caplen p) :: uint16", where ?'a = nat] by simp
  then have "unat (36 + ucast (caplen p) :: uint16) = 36 + ?c \<longleftrightarrow> ?c \<le> 65499"
    using unat_size [of "caplen p" 36] by auto
  moreover have "?c \<le> 65499 \<Longrightarrow> unat (16 + ucast (caplen p) :: uint16) = 16 + ?c" using unat_size [of "caplen p" 16] by simp
  moreover have v: "length ?v = 8" "?v ! 0 = 8"
      "[?v ! 4, ?v ! 5, ?v ! 6] = [ucast (drop_bit 16 (vxlan_vni conf)), ucast (drop_bit 8 (vxlan_vni conf)), ucast (vxlan_vni conf)]"
    by (simp_all add: vxlan_header_bytes)
  ultimately show ?thesis
    unfolding f(1) decapsulate_parts [OF f(2-4) v(1)] v(3) using f(5-9) v(2) assms(3) by auto
qed

definition demo_conf :: sys_conf where
  "demo_conf = \<lparr>src_mac = 0x7f0000001000, dst_mac = 0x7f0000001000, src_ip = [10, 0, 0, 1], dst_ip = [10, 0, 0, 2],
     vxlan_port = 4789, vxlan_vni = 42\<rparr>"

definition demo_packet :: packet where
  "demo_packet = \<lparr>tv_sec = 1, tv_usec = 2, caplen = 14, pkt_len = 14, pkt_data = [1, 2, 3, 4, 5, 6, 7, 8, 9, 10, 11, 12, 8, 0]\<rparr>"

theorem encapsulate_roundtrip_witness:
  "decapsulate (drop 16 (encapsulate demo_conf (replicate 14 0) True demo_packet)) =
     Some (4789, [0, 0, 42], pkt_data demo_packet)"
  using encapsulate_roundtrip [of demo_conf demo_packet "replicate 14 0" True]
  by (simp add: demo_conf_def demo_packet_def)

lemma parse_row_macs:
  assumes "\<And>s. aton s \<in> S" "parse_row aton pton conf row = Some conf'" "src_mac conf \<in> S" "dst_mac conf \<in> S"
  shows "src_mac conf' \<in> S \<and> dst_mac conf' \<in> S"
  using assms by (auto simp: parse_row_def Let_def split: if_splits option.splits)

lemma parse_rows_macs:
  assumes "\<And>s. aton s \<in> S"
  shows "parse_rows aton pton conf rows = Some conf' \<Longrightarrow> src_mac conf \<in> S \<Longrightarrow> dst_mac conf \<in> S \<Longrightarrow>
    src_mac conf' \<in> S \<and> dst_mac conf' \<in> S"
proof (induction rows arbitrary: conf)
  case Nil
  then show ?case by simp
next
  case (Cons row rows)
  then obtain c where c: "parse_row aton pton conf row = Some c" "parse_rows aton pton c rows = Some conf'"
    by (auto split: option.splits)
  then show ?case using parse_row_macs [OF assms c(1) Cons.prems(2,3)] Cons.IH by blast
qed

text \<open>
  \<open>ether_aton\<close> returns the address of a static buffer. Whatever addresses are configured, the outer Ethernet header
  of the first packet has the same six bytes for sender and receiver: bytes of that pointer.
\<close>

theorem outer_macs_are_pointer_bytes:
  assumes "\<And>s. ether_aton s = 0 \<or> ether_aton s = buf"
    and "pcap2vxlan ether_aton inet_pton fp ((p, stack) # ps) = Some out"
  shows "take 14 (drop 40 out) = take 6 (U64TO8_LE buf) @ take 6 (U64TO8_LE buf) @ [8, 0]"
proof -
  obtain rows conf where c: "parse_rows ether_aton inet_pton zero_conf rows = Some conf" "src_mac conf \<noteq> 0" "dst_mac conf \<noteq> 0"
      "out = pfhdr_bytes @ packet_loop conf 0 [0, 0, 0, 0, 0, 0] ((p, stack) # ps)"
    using assms(2) by (auto simp: pcap2vxlan_def parse_conf_def split: option.splits if_splits)
  have "\<And>s. ether_aton s \<in> {0, buf}" using assms(1) by blast
  from parse_rows_macs [OF this c(1)] have m: "src_mac conf = buf" "dst_mac conf = buf"
    using c(2,3) by (auto simp: zero_conf_def)
  show ?thesis
    by (simp add: c(4) pfhdr_bytes_def Let_def encapsulate_def m pd_pkthdr_bytes_def ether_bytes_def ether_header_def le16_def U32TO8_LE_def)
qed

definition demo_aton :: "string \<Rightarrow> uint64" where
  "demo_aton s = (if length s = 17 then 0x7f0000001000 else 0)"

definition demo_rows :: "string list" where
  "demo_rows = [''# outer header'', ''OUTER_SRC_MAC = 02:00:00:00:00:01'', ''OUTER_DST_MAC = 02:00:00:00:00:02'', ''VXLAN_VNI = 42'']"

lemma demo_rows_conf: "parse_conf demo_aton (\<lambda>s. None) (Some demo_rows) =
    Some (zero_conf\<lparr>src_mac := 0x7f0000001000, dst_mac := 0x7f0000001000, vxlan_vni := 42\<rparr>)"
  by code_simp

theorem outer_macs_are_pointer_bytes_witness:
  "\<exists>out. pcap2vxlan demo_aton (\<lambda>s. None) (Some demo_rows) [(demo_packet, replicate 14 0)] = Some out \<and>
     take 14 (drop 40 out) = [0, 16, 0, 0, 0, 0x7f, 0, 16, 0, 0, 0, 0x7f, 8, 0]"
proof -
  have a: "demo_aton s = 0 \<or> demo_aton s = 0x7f0000001000" for s by (simp add: demo_aton_def)
  obtain out where o: "pcap2vxlan demo_aton (\<lambda>s. None) (Some demo_rows) [(demo_packet, replicate 14 0)] = Some out"
    by (simp add: pcap2vxlan_def demo_rows_conf)
  have "take 14 (drop 40 out) = [0, 16, 0, 0, 0, 0x7f, 0, 16, 0, 0, 0, 0x7f, 8, 0]"
    using outer_macs_are_pointer_bytes [OF a o] by (simp add: U64TO8_LE_def U32TO8_LE_def)
  with o show ?thesis by blast
qed

end
