(* ===== verification/Glob.thy ===== *)
theory Glob
  imports Prelude
begin

text \<open>
  The pathname search of \<open>ConsoleApplication1/Glob.cpp\<close>. The directory search of the system is a parameter: the entries
  that it reports for a pattern, in its order; no entry means that the search handle is invalid. So is the home
  directory that a leading tilde stands for. Memory does not run out, and names fit into the buffers of the system.
  A pointer into a string is an index; computing a length from the null pointer, which the code does for patterns without a separator,
  is a fault of its own. The buffer of results is the list of strings in it with the two counters
  \<open>cbCurr\<close> and \<open>cbAlloc\<close> that the code keeps for it.
\<close>

section \<open>Result codes and flags\<close>

definition GLOB_SUCCESS :: int where "GLOB_SUCCESS = 0"
definition GLOB_NOSPACE :: int where "GLOB_NOSPACE = 1"
definition GLOB_NOMATCH :: int where "GLOB_NOMATCH = 3"

definition GLOB_MARK :: uint32 where "GLOB_MARK = 0x00000002"
definition GLOB_NOSORT :: uint32 where "GLOB_NOSORT = 0x00000004"
definition GLOB_DOOFFS :: uint32 where "GLOB_DOOFFS = 0x00000008"
definition GLOB_NOCHECK :: uint32 where "GLOB_NOCHECK = 0x00000010"
definition GLOB_PERIOD :: uint32 where "GLOB_PERIOD = 0x00000080"
definition GLOB_MAGCHAR :: uint32 where "GLOB_MAGCHAR = 0x00000100"
definition GLOB_NOMAGIC :: uint32 where "GLOB_NOMAGIC = 0x00000800"
definition GLOB_TILDE :: uint32 where "GLOB_TILDE = 0x00001000"
definition GLOB_ONLYDIR :: uint32 where "GLOB_ONLYDIR = 0x00002000"
definition GLOB_TILDE_CHECK :: uint32 where "GLOB_TILDE_CHECK = 0x00004000"
definition GLOB_ONLYREG :: uint32 where "GLOB_ONLYREG = 0x00008000"
definition GLOB_NODOTSDIRS :: uint32 where "GLOB_NODOTSDIRS = 0x00010000"
definition GLOB_LIMIT :: uint32 where "GLOB_LIMIT = 0x00020000"

definition has_flag :: "uint32 \<Rightarrow> uint32 \<Rightarrow> bool" where
  "has_flag flags f \<longleftrightarrow> flags AND f \<noteq> 0"

definition MAX_PATH :: nat where "MAX_PATH = 260"

record glob_t =
  gl_pathc :: int
  gl_matchc :: int
  gl_offs :: nat
  gl_flags :: uint32
  gl_pathv :: "string option list option"

record find_data =
  cFileName :: string
  is_directory :: bool

section \<open>Strings\<close>

text \<open>The last position of a character, and the first position of one out of a set.\<close>

fun strrchr_from :: "string \<Rightarrow> char \<Rightarrow> nat \<Rightarrow> nat option" where
  "strrchr_from s c 0 = None"
| "strrchr_from s c (Suc n) = (if s ! n = c then Some n else strrchr_from s c n)"

definition strrchr :: "string \<Rightarrow> char \<Rightarrow> nat option" where
  "strrchr s c = strrchr_from s c (length s)"

definition strpbrk :: "string \<Rightarrow> string \<Rightarrow> nat option" where
  "strpbrk s cs =
     (let i = length (takeWhile (\<lambda>c. c \<notin> set cs) s) in if i < length s then Some i else None)"

fun strrpbrk_loop :: "string \<Rightarrow> string \<Rightarrow> nat option \<Rightarrow> nat option" where
  "strrpbrk_loop s [] part = part"
| "strrpbrk_loop s (pch # cs) part =
     strrpbrk_loop s cs
       (case strrchr s pch of
          None \<Rightarrow> part
        | Some p \<Rightarrow> (case part of None \<Rightarrow> Some p | Some q \<Rightarrow> if q < p then Some p else part))"

definition strrpbrk :: "string \<Rightarrow> string \<Rightarrow> nat option" where
  "strrpbrk s strCharSet = strrpbrk_loop s strCharSet None"

definition isdots :: "string \<Rightarrow> bool" where
  "isdots s \<longleftrightarrow> s = ''.'' \<or> s = ''..''"

section \<open>The search\<close>

text \<open>The pattern after the expansion of a leading tilde, and whether it was expanded.\<close>

definition effective_pattern :: "string option \<Rightarrow> uint32 \<Rightarrow> string \<Rightarrow> string \<times> bool" where
  "effective_pattern home flags pattern =
     (if has_flag flags GLOB_TILDE \<and> pattern \<noteq> [] \<and> hd pattern = CHR ''~'' \<and>
         (tl pattern = [] \<or> hd (tl pattern) = CHR ''/'' \<or> hd (tl pattern) = CHR 0x5C)
      then case home of
             None \<Rightarrow> (pattern, False)
           | Some dir \<Rightarrow> (dir @ take (MAX_PATH - (length dir + 1)) (tl pattern), True)
      else (pattern, False))"

text \<open>What the body of the loop makes of an entry: \<open>None\<close> when it goes on to the next one.\<close>

definition entry_name :: "uint32 \<Rightarrow> bool \<Rightarrow> bool \<Rightarrow> string \<Rightarrow> find_data \<Rightarrow> string option" where
  "entry_name flags bMagic0 bLeafIsDots leaf e =
     (if bMagic0 \<and> \<not> has_flag flags GLOB_PERIOD \<and> cFileName e \<noteq> [] \<and> hd (cFileName e) = CHR ''.'' then None
      else if is_directory e \<and> bMagic0 \<and> flags AND GLOB_NODOTSDIRS = GLOB_NODOTSDIRS \<and> isdots (cFileName e) then None
      else if \<not> is_directory e \<and> has_flag flags GLOB_ONLYDIR then None
      else
        let slash = (if has_flag flags GLOB_MARK then ''/'' else []);
            name = (if is_directory e then cFileName e @ slash else cFileName e)
        in Some (if bLeafIsDots then leaf @ slash else name))"

text \<open>The part of a pattern up to the last separator, and what follows it.\<close>

definition file_part :: "string \<Rightarrow> nat option" where
  "file_part effectivePattern = map_option Suc (strrpbrk effectivePattern [CHR 0x5C, CHR ''/''])"

definition szRelative :: "string \<Rightarrow> string" where
  "szRelative effectivePattern = (case file_part effectivePattern of None \<Rightarrow> [] | Some n \<Rightarrow> take n effectivePattern)"

definition leafMost :: "string \<Rightarrow> string" where
  "leafMost effectivePattern = (case file_part effectivePattern of None \<Rightarrow> effectivePattern | Some n \<Rightarrow> drop n effectivePattern)"

definition search_name :: "uint32 \<Rightarrow> string \<Rightarrow> find_data \<Rightarrow> string option" where
  "search_name flags effectivePattern =
     (let leaf = leafMost effectivePattern
      in entry_name flags (strpbrk leaf ''?*'' = Some 0) (isdots leaf) leaf)"

record results =
  strs :: "string list"
  cbCurr :: nat
  cbAlloc :: nat
  cMatches :: nat

text \<open>
  The size that a match needs counts no directory for a null \<open>file_part\<close>, but the length given to \<open>lstrcpynA\<close> is computed from it
  without a test.
\<close>

datatype glob_fault = Null_difference

definition store_match :: "nat option \<Rightarrow> string \<Rightarrow> string \<Rightarrow> results \<Rightarrow> glob_fault + results" where
  "store_match part relative name r =
     (let cch = length name + (case part of None \<Rightarrow> 0 | Some n \<Rightarrow> n);
          new_cbAlloc = cbCurr r + cch + 1;
          r = (if new_cbAlloc > cbAlloc r
               then r\<lparr>cbAlloc := ((new_cbAlloc * 2 + 31) div 32) * 32\<rparr> else r)
      in case part of
           None \<Rightarrow> Inl Null_difference
         | Some n \<Rightarrow> Inr (r\<lparr>strs := strs r @ [take n relative @ name], cbCurr := cbCurr r + cch + 1, cMatches := cMatches r + 1\<rparr>))"

fun find_loop :: "(find_data \<Rightarrow> string option) \<Rightarrow> nat option \<Rightarrow> string \<Rightarrow> nat \<Rightarrow> find_data list \<Rightarrow> results \<Rightarrow> glob_fault + results" where
  "find_loop name_of part relative maxMatches [] r = Inr r"
| "find_loop name_of part relative maxMatches (e # es) r =
     (case (case name_of e of None \<Rightarrow> Inr r | Some name \<Rightarrow> store_match part relative name r) of
        Inl x \<Rightarrow> Inl x
      | Inr r \<Rightarrow> if es \<noteq> [] \<and> cMatches r \<noteq> maxMatches then find_loop name_of part relative maxMatches es r else Inr r)"

text \<open>
  The vector of pointers is filled upwards, or downwards for \<open>GLOB_NOSORT\<close>; \<open>next_str\<close> goes through the strings of the buffer. Cells hold
  some string before they are written, so that a missing null pointer would show.
\<close>

fun fill_up :: "string option list \<Rightarrow> nat \<Rightarrow> nat \<Rightarrow> string list \<Rightarrow> string option list" where
  "fill_up v begin 0 next_str = v[begin := None]"
| "fill_up v begin (Suc n) next_str = fill_up (v[begin := Some (hd next_str)]) (begin + 1) n (tl next_str)"

fun fill_down :: "string option list \<Rightarrow> nat \<Rightarrow> nat \<Rightarrow> string list \<Rightarrow> string option list" where
  "fill_down v stop 0 next_str = v"
| "fill_down v stop (Suc n) next_str = fill_down (v[stop - 1 := Some (hd next_str)]) (stop - 1) n (tl next_str)"

definition path_vector :: "uint32 \<Rightarrow> nat \<Rightarrow> nat \<Rightarrow> string list \<Rightarrow> string option list" where
  "path_vector flags offs matches buffer =
     (let pp = replicate offs None @ replicate (1 + matches) (Some [])
      in if has_flag flags GLOB_NOSORT then fill_down (pp[offs + matches := None]) (offs + matches) matches buffer
         else fill_up pp offs matches buffer)"

text \<open>The conversion of an \<open>int\<close> to \<open>size_t\<close>.\<close>

definition to_size_t :: "int \<Rightarrow> nat" where
  "to_size_t i = nat (i mod 2 ^ 64)"

text \<open>The end of the function: the answer for no match, and the test of the limit.\<close>

definition glob_finish :: "uint32 \<Rightarrow> bool \<Rightarrow> bool \<Rightarrow> uint32 \<Rightarrow> nat \<Rightarrow> string \<Rightarrow> int \<Rightarrow> glob_t \<Rightarrow> int \<times> glob_t" where
  "glob_finish flags bNoMagic expanded magchar maxMatches effectivePattern result pglob =
     (if result = GLOB_NOMATCH
      then if has_flag flags GLOB_TILDE_CHECK \<and> expanded then (GLOB_NOMATCH, pglob)
           else if bNoMagic \<or> has_flag flags GLOB_NOCHECK
           then (GLOB_SUCCESS,
                 pglob\<lparr>gl_pathc := 1, gl_matchc := 1, gl_flags := magchar,
                       gl_pathv := Some (replicate (gl_offs pglob) None @ [Some effectivePattern, None])\<rparr>)
           else (GLOB_NOMATCH, pglob)
      else if to_size_t (gl_matchc pglob) = maxMatches then (GLOB_NOSPACE, pglob)
      else (result, pglob))"

definition glob :: "(string \<Rightarrow> find_data list) \<Rightarrow> string option \<Rightarrow> string \<Rightarrow> uint32 \<Rightarrow> glob_t \<Rightarrow> glob_fault + int \<times> glob_t" where
  "glob FindFile home pattern flags pglob =
     (let bMagic = (strpbrk pattern ''?*'' \<noteq> None);
          bNoMagic = (has_flag flags GLOB_NOMAGIC \<and> \<not> bMagic);
          maxMatches = (if has_flag flags GLOB_LIMIT then to_size_t (gl_matchc pglob) else 0);
          (effectivePattern, expanded) = effective_pattern home flags pattern;
          part = file_part effectivePattern;
          entries = FindFile effectivePattern;
          pglob = pglob\<lparr>gl_pathc := 0, gl_pathv := None\<rparr>;
          pglob = (if has_flag flags GLOB_DOOFFS then pglob else pglob\<lparr>gl_offs := 0\<rparr>);
          magchar = (if bMagic then GLOB_MAGCHAR else 0);
          finish = glob_finish flags bNoMagic expanded magchar maxMatches effectivePattern
      in if entries = []
         then Inr (finish (if bMagic \<and> part \<noteq> None then GLOB_SUCCESS else GLOB_NOMATCH) pglob)
         else
           case find_loop (search_name flags effectivePattern) part (szRelative effectivePattern) maxMatches entries
                  \<lparr>strs = [], cbCurr = 0, cbAlloc = 0, cMatches = 0\<rparr> of
             Inl x \<Rightarrow> Inl x
           | Inr r \<Rightarrow>
               let pglob = pglob\<lparr>gl_pathc := int (cMatches r), gl_matchc := int (cMatches r), gl_flags := magchar,
                                 gl_pathv := Some (path_vector flags (gl_offs pglob) (cMatches r) (strs r))\<rparr>
               in Inr (finish (if cMatches r = 0 then GLOB_NOMATCH else GLOB_SUCCESS) pglob))"

definition globfree :: "glob_t \<Rightarrow> glob_t" where
  "globfree pglob = pglob\<lparr>gl_pathc := 0, gl_pathv := None\<rparr>"

section \<open>Facts about the search\<close>






abbreviation (input) separators :: "char list" where
  "separators \<equiv> [CHR 0x5C, CHR ''/'']"











lemma find_loop_stuck:
  "cMatches r = 0 \<Longrightarrow> name_of e = None \<Longrightarrow> find_loop name_of part dir 0 (e # es) r = Inr r"
  by simp


section \<open>Properties\<close>






lemma nodots_flag: "flags AND GLOB_NODOTSDIRS = GLOB_NODOTSDIRS \<longleftrightarrow> has_flag flags GLOB_NODOTSDIRS"
proof -
  have g: "GLOB_NODOTSDIRS = 2 ^ 16" by (simp add: GLOB_NODOTSDIRS_def)
  have "bit GLOB_NODOTSDIRS n \<longleftrightarrow> n = 16" for n unfolding g bit_exp_iff by auto
  then show ?thesis by (auto simp: has_flag_def bit_eq_iff [where 'a = uint32] bit_and_iff) (drule spec [of _ 16], simp)
qed







definition demo_files :: "string \<Rightarrow> find_data list" where
  "demo_files p =
     (if p = ''src/*.c'' then [\<lparr>cFileName = ''a.c'', is_directory = False\<rparr>, \<lparr>cFileName = ''b.c'', is_directory = True\<rparr>]
      else if p = ''*.c'' then [\<lparr>cFileName = ''a.c'', is_directory = False\<rparr>]
      else if p = ''*'' then [\<lparr>cFileName = ''.'', is_directory = True\<rparr>, \<lparr>cFileName = ''a.c'', is_directory = False\<rparr>]
      else [])"

definition demo_glob :: glob_t where
  "demo_glob = \<lparr>gl_pathc = 0, gl_matchc = 0, gl_offs = 0, gl_flags = 0, gl_pathv = None\<rparr>"


text \<open>\<open>GLOB_ONLYREG\<close> has no effect at all: directories are reported with it as without it.\<close>

theorem glob_ignores_onlyreg: "glob FindFile home pattern (flags OR GLOB_ONLYREG) pglob = glob FindFile home pattern flags pglob"
proof -
  have a: "(flags OR GLOB_ONLYREG) AND f = flags AND f" if "GLOB_ONLYREG AND f = 0" for f
    using that by (simp add: bit.conj_disj_distrib2)
  have e: "has_flag (flags OR GLOB_ONLYREG) f = has_flag flags f"
    if "f \<in> {GLOB_MARK, GLOB_NOSORT, GLOB_DOOFFS, GLOB_NOCHECK, GLOB_PERIOD, GLOB_NOMAGIC, GLOB_TILDE, GLOB_ONLYDIR, GLOB_TILDE_CHECK, GLOB_NODOTSDIRS, GLOB_LIMIT}" for f
    unfolding has_flag_def using that by (subst a) (auto simp: GLOB_ONLYREG_def GLOB_MARK_def GLOB_NOSORT_def GLOB_DOOFFS_def GLOB_NOCHECK_def
      GLOB_PERIOD_def GLOB_NOMAGIC_def GLOB_TILDE_def GLOB_ONLYDIR_def GLOB_TILDE_CHECK_def GLOB_NODOTSDIRS_def GLOB_LIMIT_def)
  note es = e [of GLOB_MARK, simplified] e [of GLOB_NOSORT, simplified] e [of GLOB_DOOFFS, simplified] e [of GLOB_NOCHECK, simplified]
    e [of GLOB_PERIOD, simplified] e [of GLOB_NOMAGIC, simplified] e [of GLOB_TILDE, simplified] e [of GLOB_ONLYDIR, simplified]
    e [of GLOB_TILDE_CHECK, simplified] e [of GLOB_NODOTSDIRS, simplified] e [of GLOB_LIMIT, simplified]
  show ?thesis
    by (simp only: glob_def es effective_pattern_def path_vector_def glob_finish_def [abs_def] search_name_def [abs_def] entry_name_def [abs_def] nodots_flag)
qed

text \<open>
  Without a limit, an entry to skip at the start of the directory search ends it: whatever matches follow, \<open>glob\<close>
  reports that nothing matches. For the pattern of a star the first entry is the directory itself, a dot.
\<close>

theorem glob_stops_at_skipped_entry:
  assumes "fst (effective_pattern home flags pattern) = p" "\<not> has_flag flags GLOB_LIMIT" "FindFile p = e # es"
    "search_name flags p e = None" "\<not> has_flag flags GLOB_NOCHECK" "\<not> has_flag flags GLOB_NOMAGIC"
  shows "\<exists>g. glob FindFile home pattern flags pglob = Inr (GLOB_NOMATCH, g) \<and> gl_pathc g = 0"
proof -
  obtain x where p: "effective_pattern home flags pattern = (p, x)" using assms(1) by (cases "effective_pattern home flags pattern") auto
  then show ?thesis
    using assms(2-6) by (simp add: glob_def Let_def find_loop_stuck glob_finish_def GLOB_NOMATCH_def GLOB_SUCCESS_def del: find_loop.simps)
qed

theorem glob_stops_at_skipped_entry_witness:
  "(\<exists>g. glob demo_files None ''*'' 0 demo_glob = Inr (GLOB_NOMATCH, g)) \<and>
   search_name 0 ''*'' \<lparr>cFileName = ''a.c'', is_directory = False\<rparr> = Some ''a.c''"
proof -
  have "fst (effective_pattern None 0 ''*'') = ''*''" "\<not> has_flag 0 GLOB_LIMIT" "\<not> has_flag 0 GLOB_NOCHECK" "\<not> has_flag 0 GLOB_NOMAGIC"
      "search_name 0 ''*'' \<lparr>cFileName = ''.'', is_directory = True\<rparr> = None"
      "search_name 0 ''*'' \<lparr>cFileName = ''a.c'', is_directory = False\<rparr> = Some ''a.c''"
    by code_simp+
  moreover have "demo_files ''*'' = [\<lparr>cFileName = ''.'', is_directory = True\<rparr>, \<lparr>cFileName = ''a.c'', is_directory = False\<rparr>]"
    by (simp add: demo_files_def)
  ultimately show ?thesis using glob_stops_at_skipped_entry [of None 0 "''*''" "''*''" demo_files] by auto
qed

end
