(* ===== verification/Base64.thy ===== *)
theory Base64
  imports Prelude
begin

text \<open>
  The program \<open>sha256-ssh-key-hashing.cc\<close>: the two Base64 conversions of OpenBSD and the program that prints the
  fingerprint of a public key. Arrays are byte lists; a write or read outside of an array is \<open>None\<close>. A C string is
  the list of its bytes before the terminating zero. Indices do not reach the end of the range of \<open>int\<close>. SHA-256 of
  OpenSSL is a parameter.
\<close>

section \<open>Arrays and characters\<close>

definition put :: "byte list \<Rightarrow> nat \<Rightarrow> byte \<Rightarrow> byte list option" where
  "put d k x = (if k < length d then Some (d[k := x]) else None)"

fun put_bytes :: "byte list \<Rightarrow> nat \<Rightarrow> byte list \<Rightarrow> byte list option" where
  "put_bytes d k [] = Some d"
| "put_bytes d k (x # xs) = (case put d k x of None \<Rightarrow> None | Some d \<Rightarrow> put_bytes d (k + 1) xs)"

definition isspace_byte :: "byte \<Rightarrow> bool" where
  "isspace_byte c \<longleftrightarrow> c = 0x20 \<or> 9 \<le> c \<and> c \<le> 13"

definition b64str :: "byte list" where
  "b64str = map (of_char :: char \<Rightarrow> byte) ''ABCDEFGHIJKLMNOPQRSTUVWXYZabcdefghijklmnopqrstuvwxyz0123456789+/''"

definition b64_tbl :: "byte list" where
  "b64_tbl =
     [0xff, 0xff, 0xff, 0xff, 0xff, 0xff, 0xff, 0xff, 0xff, 0xff, 0xff, 0xff, 0xff, 0xff, 0xff, 0xff,
      0xff, 0xff, 0xff, 0xff, 0xff, 0xff, 0xff, 0xff, 0xff, 0xff, 0xff, 0xff, 0xff, 0xff, 0xff, 0xff,
      0xff, 0xff, 0xff, 0xff, 0xff, 0xff, 0xff, 0xff, 0xff, 0xff, 0xff, 0x3e, 0xff, 0xff, 0xff, 0x3f,
      0x34, 0x35, 0x36, 0x37, 0x38, 0x39, 0x3a, 0x3b, 0x3c, 0x3d, 0xff, 0xff, 0xff, 0x00, 0xff, 0xff,
      0xff, 0x00, 0x01, 0x02, 0x03, 0x04, 0x05, 0x06, 0x07, 0x08, 0x09, 0x0a, 0x0b, 0x0c, 0x0d, 0x0e,
      0x0f, 0x10, 0x11, 0x12, 0x13, 0x14, 0x15, 0x16, 0x17, 0x18, 0x19, 0xff, 0xff, 0xff, 0xff, 0xff,
      0xff, 0x1a, 0x1b, 0x1c, 0x1d, 0x1e, 0x1f, 0x20, 0x21, 0x22, 0x23, 0x24, 0x25, 0x26, 0x27, 0x28,
      0x29, 0x2a, 0x2b, 0x2c, 0x2d, 0x2e, 0x2f, 0x30, 0x31, 0x32, 0x33, 0xff, 0xff, 0xff, 0xff, 0xff] @
     replicate 128 0xff"

section \<open>Decoding\<close>

text \<open>The byte that a character at position \<open>j\<close> completes.\<close>

definition pton_byte :: "nat \<Rightarrow> uint32 \<Rightarrow> byte option" where
  "pton_byte j val3 =
     (if j mod 4 = 1 then Some (ucast (drop_bit 4 val3))
      else if j mod 4 = 2 then Some (ucast (drop_bit 2 val3))
      else if j mod 4 = 3 then Some (ucast val3)
      else None)"

text \<open>\<open>dst\<close> is \<open>None\<close> for the null pointer: then the bytes are only counted.\<close>

fun pton_loop :: "byte list \<Rightarrow> nat \<Rightarrow> nat \<Rightarrow> nat \<Rightarrow> uint32 \<Rightarrow> byte list option \<Rightarrow> (int \<times> byte list option) option" where
  "pton_loop [] dstsiz j k val3 dst = Some (if j mod 4 \<noteq> 0 then -1 else int k, dst)"
| "pton_loop (c # cs) dstsiz j k val3 dst =
     (if isspace_byte c then pton_loop cs dstsiz j k val3 dst
      else if b64_tbl ! unat c = 0xff then Some (-1, dst)
      else
        let val3 = val3 OR ucast (b64_tbl ! unat c)
        in if c \<noteq> 0x3d
           then
             if dst \<noteq> None \<and> dstsiz \<le> k then Some (-1, dst)
             else
               case pton_byte j val3 of
                 None \<Rightarrow> pton_loop cs dstsiz (j + 1) k (push_bit 6 val3) dst
               | Some x \<Rightarrow>
                   (case dst of
                      None \<Rightarrow> pton_loop cs dstsiz (j + 1) (k + 1) (push_bit 6 val3) None
                    | Some d \<Rightarrow>
                        (case put d k x of
                           None \<Rightarrow> None
                         | Some d \<Rightarrow> pton_loop cs dstsiz (j + 1) (k + 1) (push_bit 6 val3) (Some d)))
           else pton_loop cs dstsiz (j + 1) k (push_bit 6 val3) dst)"

definition b64_pton :: "byte list \<Rightarrow> byte list option \<Rightarrow> nat \<Rightarrow> (int \<times> byte list option) option" where
  "b64_pton src dst dstsiz = pton_loop src dstsiz 0 0 0 dst"

section \<open>Encoding\<close>

definition ntop_chars :: "byte list \<Rightarrow> nat \<Rightarrow> byte list" where
  "ntop_chars src i =
     (let n = length src;
          bit24 = push_bit 16 (ucast (src ! i) :: uint32);
          bit24 = (if i + 1 < n then bit24 OR push_bit 8 (ucast (src ! (i + 1))) else bit24);
          bit24 = (if i + 2 < n then bit24 OR ucast (src ! (i + 2)) else bit24)
      in [b64str ! unat (drop_bit 18 (bit24 AND 0xfc0000)),
          b64str ! unat (drop_bit 12 (bit24 AND 0x03f000)),
          if i + 1 < n then b64str ! unat (drop_bit 6 (bit24 AND 0x000fc0)) else 0x3d,
          if i + 2 < n then b64str ! unat (bit24 AND 0x00003f) else 0x3d])"

function ntop_loop :: "byte list \<Rightarrow> nat \<Rightarrow> nat \<Rightarrow> byte list \<Rightarrow> (nat \<times> byte list) option" where
  "ntop_loop src i j target =
     (if i < length src
      then case put_bytes target j (ntop_chars src i) of
             None \<Rightarrow> None
           | Some target \<Rightarrow> ntop_loop src (i + 3) (j + 4) target
      else Some (j, target))"
  by pat_completeness auto
termination
  by (relation "measure (\<lambda>(src, i, j, target). length src - i)") auto

declare ntop_loop.simps [simp del]

definition b64_ntop :: "byte list \<Rightarrow> byte list option \<Rightarrow> nat \<Rightarrow> (int \<times> byte list option) option" where
  "b64_ntop src target tsize =
     (let expect_siz = ((length src + 2) div 3) * 4 + 1
      in case target of
           None \<Rightarrow> Some (int expect_siz, None)
         | Some t \<Rightarrow>
             if tsize < expect_siz then Some (-1, Some t)
             else
               case ntop_loop src 0 0 t of
                 None \<Rightarrow> None
               | Some (j, t) \<Rightarrow> map_option (\<lambda>t. (int j, Some t)) (put t j 0))"

section \<open>The program\<close>

text \<open>\<open>strchr\<close> on an array: the index of the byte, a null pointer, or a read past the end of the array.\<close>

datatype strchr_result = Found nat | NotFound | PastEnd

fun strchr_at :: "byte list \<Rightarrow> byte \<Rightarrow> nat \<Rightarrow> strchr_result" where
  "strchr_at [] c i = PastEnd"
| "strchr_at (x # xs) c i = (if x = c then Found i else if x = 0 then NotFound else strchr_at xs c (i + 1))"

datatype exit_status = Exit int "byte list"

definition fread_input :: "byte list \<Rightarrow> byte list \<Rightarrow> byte list" where
  "fread_input garbage file = take 128 (take 128 file @ drop (length file) garbage)"

definition c_string :: "byte list \<Rightarrow> byte list" where
  "c_string bs = takeWhile (\<lambda>c. c \<noteq> 0) bs"

text \<open>
  \<open>main\<close>: \<open>garbage\<close> is what the arrays on the stack hold before they are written. \<open>None\<close> is undefined behaviour: an
  offset of the null pointer, or an access outside of an array.
\<close>

definition fingerprint_main :: "(byte list \<Rightarrow> byte list) \<Rightarrow> byte list \<Rightarrow> byte list option \<Rightarrow> exit_status option" where
  "fingerprint_main sha256 garbage argfile =
     (case argfile of
        None \<Rightarrow> Some (Exit 1 (map of_char ''Failed to open file\<newline>''))
      | Some file \<Rightarrow>
          let input = fread_input garbage file
          in case strchr_at input 0x20 0 of
               Found p \<Rightarrow>
                 (case strchr_at (drop (p + 1) input) 0x20 (p + 1) of
                    Found e \<Rightarrow>
                      let data_len = e - (p + 1);
                          data = take data_len (drop (p + 1) input) @ [0]
                      in (case b64_pton (c_string data) (Some (take 128 garbage)) 128 of
                            Some (n, Some decoded) \<Rightarrow>
                              if n = -1 then Some (Exit 1 (map of_char ''b64_pton failed\<newline>''))
                              else
                                (case b64_ntop (sha256 (take (nat n) decoded)) (Some (take 128 garbage)) 128 of
                                   Some (_, Some encoded) \<Rightarrow>
                                     Some (Exit 0 (map of_char ''output: '' @ c_string encoded @ [10]))
                                 | _ \<Rightarrow> None)
                          | _ \<Rightarrow> None)
                  | _ \<Rightarrow> None)
             | _ \<Rightarrow> None)"

section \<open>The tables\<close>

lemma b64str_codes:
  "b64str =
     [65, 66, 67, 68, 69, 70, 71, 72, 73, 74, 75, 76, 77, 78, 79, 80,
      81, 82, 83, 84, 85, 86, 87, 88, 89, 90, 97, 98, 99, 100, 101, 102,
      103, 104, 105, 106, 107, 108, 109, 110, 111, 112, 113, 114, 115, 116, 117, 118,
      119, 120, 121, 122, 48, 49, 50, 51, 52, 53, 54, 55, 56, 57, 43, 47]"
  by (simp add: b64str_def)

lemma b64str_length [simp]: "length b64str = 64"
  by (simp add: b64str_codes)

lemma tbl_b64str: "map (\<lambda>c. b64_tbl ! unat c) b64str = map of_nat [0..<64]"
  by (simp add: b64str_codes b64_tbl_def upt_rec)

lemma tbl_str: "n < 64 \<Longrightarrow> b64_tbl ! unat (b64str ! n) = of_nat n"
  using arg_cong [OF tbl_b64str, of "\<lambda>xs. xs ! n"] by simp

lemma b64str_alphabet: "x \<in> set b64str \<Longrightarrow> x \<noteq> 0x3d \<and> \<not> isspace_byte x \<and> x \<noteq> 0"
  by (simp add: b64str_codes isspace_byte_def) auto

section \<open>Groups of three bytes\<close>

definition pack :: "byte \<Rightarrow> byte \<Rightarrow> byte \<Rightarrow> uint32" where
  "pack a b c = push_bit 16 (ucast a) OR push_bit 8 (ucast b) OR ucast c"

definition sextet :: "uint32 \<Rightarrow> nat \<Rightarrow> uint32" where
  "sextet w n = take_bit 6 (drop_bit (6 * n) w)"

lemma mask_sextets:
  fixes w :: uint32
  shows "drop_bit 18 (w AND 0xfc0000) = sextet w 3" "drop_bit 12 (w AND 0x03f000) = sextet w 2"
    "drop_bit 6 (w AND 0x000fc0) = sextet w 1" "w AND 0x00003f = sextet w 0"
proof -
  have m: "(0xfc0000 :: uint32) = push_bit 18 (mask 6)" "(0x03f000 :: uint32) = push_bit 12 (mask 6)"
    "(0x000fc0 :: uint32) = push_bit 6 (mask 6)" "(0x00003f :: uint32) = mask 6"
    by (simp_all add: mask_eq_exp_minus_1 push_bit_eq_mult)
  show "drop_bit 18 (w AND 0xfc0000) = sextet w 3" "drop_bit 12 (w AND 0x03f000) = sextet w 2"
    "drop_bit 6 (w AND 0x000fc0) = sextet w 1" "w AND 0x00003f = sextet w 0"
    unfolding m sextet_def by (auto intro!: bit_eqI simp: bit_simps)
qed

lemma sextet_less: "unat (sextet w n) < 64"
  using take_bit_nat_less_exp [of 6 "unat (drop_bit (6 * n) w)"] by (simp add: sextet_def unsigned_take_bit_eq)

definition pad_chars :: "byte list \<Rightarrow> byte list" where
  "pad_chars bs =
     (case bs of
        [a] \<Rightarrow> [b64str ! unat (sextet (pack a 0 0) 3), b64str ! unat (sextet (pack a 0 0) 2), 0x3d, 0x3d]
      | [a, b] \<Rightarrow> [b64str ! unat (sextet (pack a b 0) 3), b64str ! unat (sextet (pack a b 0) 2),
                   b64str ! unat (sextet (pack a b 0) 1), 0x3d]
      | a # b # c # _ \<Rightarrow> [b64str ! unat (sextet (pack a b c) 3), b64str ! unat (sextet (pack a b c) 2),
                   b64str ! unat (sextet (pack a b c) 1), b64str ! unat (sextet (pack a b c) 0)])"

lemma ntop_chars_append: "ys \<noteq> [] \<Longrightarrow> ntop_chars (xs @ ys) (length xs) = pad_chars ys"
proof -
  assume "ys \<noteq> []"
  then consider (one) a where "ys = [a]" | (two) a b where "ys = [a, b]" | (more) a b c zs where "ys = a # b # c # zs"
    by (metis neq_Nil_conv)
  then show ?thesis
    by cases (simp_all add: ntop_chars_def pad_chars_def mask_sextets pack_def nth_append Let_def or.assoc del: drop_bit_and drop_bit_or)
qed

lemma byte_bits: "\<not> bit (x :: byte) (8 + n)" "\<not> bit (x :: byte) (16 + n)"
  using bit_imp_le_length [of x "8 + n"] bit_imp_le_length [of x "16 + n"] by auto

lemma pack_bytes:
  "ucast (drop_bit 16 (pack a b c)) = a" "ucast (drop_bit 8 (pack a b c)) = b" "ucast (pack a b c) = c"
  by (auto intro!: bit_eqI simp: pack_def bit_simps byte_bits)

lemma decode_sextets:
  fixes v w :: uint32
  assumes "take_bit 6 v = 0"
  shows "(ucast (drop_bit 4 (push_bit 6 (v OR sextet w 3) OR sextet w 2)) :: byte) = ucast (drop_bit 16 w)"
    "(ucast (drop_bit 2 (push_bit 6 (push_bit 6 (v OR sextet w 3) OR sextet w 2) OR sextet w 1)) :: byte) = ucast (drop_bit 8 w)"
    "(ucast (push_bit 6 (push_bit 6 (push_bit 6 (v OR sextet w 3) OR sextet w 2) OR sextet w 1) OR sextet w 0) :: byte) = ucast w"
proof -
  have v: "\<not> bit v n" if "n < 6" for n
    using assms that by (metis bit_0_eq bit_take_bit_iff bot_apply bot_bool_def)
  show "(ucast (drop_bit 4 (push_bit 6 (v OR sextet w 3) OR sextet w 2)) :: byte) = ucast (drop_bit 16 w)"
    using v by (auto intro!: bit_eqI simp: sextet_def bit_simps)
  show "(ucast (drop_bit 2 (push_bit 6 (push_bit 6 (v OR sextet w 3) OR sextet w 2) OR sextet w 1)) :: byte) = ucast (drop_bit 8 w)"
    using v by (auto intro!: bit_eqI simp: sextet_def bit_simps)
  show "(ucast (push_bit 6 (push_bit 6 (push_bit 6 (v OR sextet w 3) OR sextet w 2) OR sextet w 1) OR sextet w 0) :: byte) = ucast w"
    using v by (auto intro!: bit_eqI simp: sextet_def bit_simps)
qed


section \<open>The text of a byte string\<close>

text \<open>RFC 4648: the digits of groups of 24 bits in base 64, and padding.\<close>

definition digit :: "nat \<Rightarrow> nat \<Rightarrow> byte" where
  "digit n v = b64str ! (v div 64 ^ n mod 64)"

fun rfc4648 :: "byte list \<Rightarrow> byte list" where
  "rfc4648 [] = []"
| "rfc4648 [a] = (let v = unat a * 65536 in [digit 3 v, digit 2 v, 0x3d, 0x3d])"
| "rfc4648 [a, b] = (let v = unat a * 65536 + unat b * 256 in [digit 3 v, digit 2 v, digit 1 v, 0x3d])"
| "rfc4648 (a # b # c # bs) =
     (let v = unat a * 65536 + unat b * 256 + unat c in [digit 3 v, digit 2 v, digit 1 v, digit 0 v] @ rfc4648 bs)"

lemma pack_plus: "pack a b c = push_bit 16 (ucast a) + (push_bit 8 (ucast b) + ucast c)"
  unfolding pack_def
  by (subst disjunctive_add; (subst disjunctive_add)?) (auto simp: bit_simps byte_bits dest: bit_imp_le_length)

lemma unat_pack: "unat (pack a b c) = unat a * 65536 + unat b * 256 + unat c"
proof -
  have "unat a < 256" "unat b < 256" "unat c < 256" using unsigned_less [of a] unsigned_less [of b] unsigned_less [of c] by simp_all
  then show ?thesis
    by (simp add: pack_plus push_bit_eq_mult unat_word_ariths unsigned_ucast_eq take_bit_nat_eq_self)
qed

lemma digit_sextet: "digit n (unat w) = b64str ! unat (sextet w n)"
proof -
  have "unat (sextet w n) = take_bit 6 (drop_bit (6 * n) (unat w))"
    by (simp add: sextet_def unsigned_take_bit_eq unat_drop_bit_eq)
  then show ?thesis by (simp add: digit_def take_bit_eq_mod drop_bit_eq_div power_mult)
qed

lemma rfc4648_group: "bs \<noteq> [] \<Longrightarrow> rfc4648 bs = pad_chars bs @ rfc4648 (drop 3 bs)"
  by (cases bs rule: rfc4648.cases)
    (simp_all add: pad_chars_def digit_sextet [symmetric] unat_pack Let_def)

lemma rfc4648_length: "length (rfc4648 bs) = (length bs + 2) div 3 * 4"
proof (induction bs rule: rfc4648.induct)
  case (4 a b c bs)
  have "(length (a # b # c # bs) + 2) div 3 = Suc ((length bs + 2) div 3)" by simp
  then show ?case using 4 by (simp add: Let_def)
qed (simp_all add: Let_def)

lemma rfc4648_nonzero: "0 \<notin> set (rfc4648 bs)"
proof -
  have "digit n v \<noteq> 0" for n v using b64str_alphabet [of "digit n v"] by (simp add: digit_def)
  then show ?thesis by (induction bs rule: rfc4648.induct) (auto simp: Let_def)
qed

lemma rfc4648_nospace: "0x20 \<notin> set (rfc4648 bs)"
proof -
  have "digit n v \<noteq> 0x20" for n v using b64str_alphabet [of "digit n v"] by (auto simp: digit_def isspace_byte_def)
  then show ?thesis by (induction bs rule: rfc4648.induct) (auto simp: Let_def)
qed

lemma c_string_append: "0 \<notin> set xs \<Longrightarrow> c_string (xs @ 0 # ys) = xs"
  by (induction xs) (auto simp: c_string_def)

section \<open>Encoding writes the text\<close>

lemma put_bytes_ok:
  "k + length xs \<le> length d \<Longrightarrow> put_bytes d k xs = Some (take k d @ xs @ drop (k + length xs) d)"
proof (induction xs arbitrary: d k)
  case (Cons x xs)
  have "put_bytes (d[k := x]) (k + 1) xs = Some (take (k + 1) (d[k := x]) @ xs @ drop (k + 1 + length xs) (d[k := x]))"
    using Cons.prems by (intro Cons.IH) simp
  moreover have "take (k + 1) (d[k := x]) = take k d @ [x]"
    using Cons.prems by (simp add: take_Suc_conv_app_nth)
  ultimately show ?case using Cons.prems by (simp add: put_def)
qed simp

lemma pad_chars_length: "bs \<noteq> [] \<Longrightarrow> length (pad_chars bs) = 4"
  by (auto simp: pad_chars_def split: list.splits)

lemma ntop_chars_drop: "i < length src \<Longrightarrow> ntop_chars src i = pad_chars (drop i src)"
  using ntop_chars_append [of "drop i src" "take i src"] by simp

lemma ntop_loop_text:
  "j + length (rfc4648 (drop i src)) \<le> length t \<Longrightarrow>
   ntop_loop src i j t =
     Some (j + length (rfc4648 (drop i src)),
       take j t @ rfc4648 (drop i src) @ drop (j + length (rfc4648 (drop i src))) t)"
proof (induction src i j t rule: ntop_loop.induct)
  case (1 src i j t)
  show ?case
  proof (cases "i < length src")
    case True
    let ?p = "pad_chars (drop i src)" and ?r = "rfc4648 (drop (i + 3) src)"
    have p: "length ?p = 4" using True by (intro pad_chars_length) simp
    have r: "rfc4648 (drop i src) = ?p @ ?r"
      using rfc4648_group [of "drop i src"] True by (simp add: add.commute)
    have w: "put_bytes t j (ntop_chars src i) = Some (take j t @ ?p @ drop (j + 4) t)"
      using put_bytes_ok [of j ?p t] 1(2) p by (simp add: ntop_chars_drop [OF True] r)
    have "ntop_loop src (i + 3) (j + 4) (take j t @ ?p @ drop (j + 4) t) =
        Some (j + 4 + length ?r, take (j + 4) (take j t @ ?p @ drop (j + 4) t) @ ?r @
          drop (j + 4 + length ?r) (take j t @ ?p @ drop (j + 4) t))"
      using 1(2) p by (intro 1(1) [OF True w]) (simp add: r)
    then show ?thesis using True 1(2) w p by (simp add: ntop_loop.simps [of src i j t] r ac_simps)
  next
    case False
    then show ?thesis by (simp add: ntop_loop.simps)
  qed
qed

lemma b64_ntop_ok:
  assumes "length (rfc4648 src) < tsize" "tsize \<le> length t"
  shows "b64_ntop src (Some t) tsize =
    Some (int (length (rfc4648 src)), Some (rfc4648 src @ 0 # drop (length (rfc4648 src) + 1) t))"
proof -
  let ?n = "length (rfc4648 src)"
  have "drop ?n t = t ! ?n # drop (?n + 1) t" using assms by (simp add: Cons_nth_drop_Suc)
  then have "ntop_loop src 0 0 t = Some (?n, rfc4648 src @ t ! ?n # drop (?n + 1) t)"
    using ntop_loop_text [of 0 0 src t] assms by simp
  moreover have "\<not> tsize < (length src + 2) div 3 * 4 + 1" using assms(1) by (simp add: rfc4648_length)
  ultimately show ?thesis using assms by (simp add: b64_ntop_def Let_def put_def)
qed

section \<open>Decoding reads the text\<close>

lemma pton_char:
  assumes "unat s < 64" "k < dstsiz"
  shows "pton_loop ((b64str ! unat s) # cs) dstsiz j k v (Some d) =
    (case pton_byte j (v OR s) of
       None \<Rightarrow> pton_loop cs dstsiz (j + 1) k (push_bit 6 (v OR s)) (Some d)
     | Some x \<Rightarrow>
         (case put d k x of
            None \<Rightarrow> None
          | Some d \<Rightarrow> pton_loop cs dstsiz (j + 1) (k + 1) (push_bit 6 (v OR s)) (Some d)))"
proof -
  have c: "b64str ! unat s \<noteq> 0x3d" "\<not> isspace_byte (b64str ! unat s)"
    using b64str_alphabet [of "b64str ! unat s"] assms(1) by auto
  have t: "b64_tbl ! unat (b64str ! unat s) = of_nat (unat s)" by (rule tbl_str [OF assms(1)])
  have u: "unat (ucast s :: byte) = unat s" using assms(1) by (simp add: unsigned_ucast_eq take_bit_nat_eq_self)
  then have "(ucast s :: byte) \<noteq> 0xff" using assms(1) by auto
  moreover have "ucast (ucast s :: byte) = s" using u by (simp add: word_unat_eq_iff unsigned_ucast_eq unsigned_take_bit_eq)
  ultimately show ?thesis using c assms(2) by (simp add: t split: option.split)
qed


lemma pton_pad: "pton_loop (0x3d # cs) dstsiz j k v dst = pton_loop cs dstsiz (j + 1) k (push_bit 6 v) dst"
  by (simp add: isspace_byte_def b64_tbl_def)

lemma push6 [simp]: "take_bit 6 (push_bit 6 (v :: uint32)) = 0"
  by (simp add: take_bit_push_bit)

lemma pton_byte_at:
  assumes "j mod 4 = 0"
  shows "pton_byte j x = None" "pton_byte (Suc j) x = Some (ucast (drop_bit 4 x))"
    "pton_byte (Suc (Suc j)) x = Some (ucast (drop_bit 2 x))" "pton_byte (Suc (Suc (Suc j))) x = Some (ucast x)"
proof -
  have "Suc j mod 4 = 1" "Suc (Suc j) mod 4 = 2" "Suc (Suc (Suc j)) mod 4 = 3" using assms by presburger+
  then show "pton_byte j x = None" "pton_byte (Suc j) x = Some (ucast (drop_bit 4 x))"
    "pton_byte (Suc (Suc j)) x = Some (ucast (drop_bit 2 x))" "pton_byte (Suc (Suc (Suc j))) x = Some (ucast x)"
    unfolding pton_byte_def using assms by simp_all
qed

lemma ex_push: "\<exists>v'. take_bit 6 v' = 0 \<and> f (push_bit 6 (x :: uint32)) = f v'"
  by (rule exI [of _ "push_bit 6 x"]) simp

lemma pton_group:
  assumes "j mod 4 = 0" "take_bit 6 v = 0" "bs \<noteq> []" "length bs \<le> 3" "k + length bs \<le> dstsiz" "dstsiz \<le> length d"
  shows "\<exists>v'. take_bit 6 v' = 0 \<and>
    pton_loop (pad_chars bs @ cs) dstsiz j k v (Some d) =
    pton_loop cs dstsiz (Suc (Suc (Suc (Suc j)))) (k + length bs) v' (Some (take k d @ bs @ drop (k + length bs) d))"
proof -
  note put = put_bytes_ok [of k bs d, symmetric]
  note simps = pad_chars_def pton_char sextet_less pton_pad pton_byte_at [OF assms(1)] decode_sextets [OF assms(2), unfolded One_nat_def] pack_bytes put_def
  consider (one) a where "bs = [a]" | (two) a b where "bs = [a, b]" | (three) a b c where "bs = [a, b, c]"
    using assms(3,4) by (cases bs rule: rfc4648.cases) auto
  then show ?thesis
    using assms(5,6) put
    by cases (simp add: simps del: pton_loop.simps push_bit_or push_bit_push_bit drop_bit_or, rule ex_push)+
qed

lemma pton_text:
  assumes "j mod 4 = 0" "take_bit 6 v = 0" "k + length bs \<le> dstsiz" "dstsiz \<le> length d"
  shows "pton_loop (rfc4648 bs) dstsiz j k v (Some d) = Some (int (k + length bs), Some (take k d @ bs @ drop (k + length bs) d))"
  using assms
proof (induction bs arbitrary: j k v d rule: length_induct)
  case (1 bs)
  show ?case
  proof (cases "bs = []")
    case True
    then show ?thesis using 1(2) by simp
  next
    case False
    obtain g r where gr: "bs = g @ r" "g \<noteq> []" "length g \<le> 3" "rfc4648 bs = pad_chars g @ rfc4648 r"
    proof (rule that [of "take 3 bs" "drop 3 bs"])
      show "rfc4648 bs = pad_chars (take 3 bs) @ rfc4648 (drop 3 bs)"
        using rfc4648_group [OF False] False by (cases bs rule: rfc4648.cases) (simp_all add: pad_chars_def)
    qed (use False in simp_all)
    have j4: "Suc (Suc (Suc (Suc j))) = j + 4" by simp
    let ?d = "take k d @ g @ drop (k + length g) d"
    obtain v' where v': "take_bit 6 v' = 0"
      "pton_loop (rfc4648 bs) dstsiz j k v (Some d) = pton_loop (rfc4648 r) dstsiz (j + 4) (k + length g) v' (Some ?d)"
      using pton_group [OF 1(2,3) gr(2,3), of k dstsiz d "rfc4648 r", unfolded j4] gr(1,4) 1(4,5) by auto
    have "pton_loop (rfc4648 r) dstsiz (j + 4) (k + length g) v' (Some ?d) =
        Some (int (k + length g + length r), Some (take (k + length g) ?d @ r @ drop (k + length g + length r) ?d))"
      using 1(2,4,5) v'(1) gr(1,2) by (intro 1(1) [rule_format]) (auto simp: mod_add_right_eq)
    then show ?thesis using v'(2) gr(1) 1(4,5) by (simp add: ac_simps)
  qed
qed

section \<open>Decoding stays in its array\<close>

lemma put_keeps: "put d k x = Some d' \<Longrightarrow> length d' = length d \<and> drop (k + 1) d' = drop (k + 1) d"
  by (auto simp: put_def split: if_splits)

lemma pton_loop_bounds:
  "k \<le> dstsiz \<Longrightarrow> dstsiz \<le> length d \<Longrightarrow>
   \<exists>n d'. pton_loop cs dstsiz j k v (Some d) = Some (n, Some d') \<and> length d' = length d \<and>
     (n = -1 \<or> int k \<le> n \<and> n \<le> int dstsiz) \<and> drop dstsiz d' = drop dstsiz d"
proof (induction cs arbitrary: j k v d)
  case (Cons c cs)
  have w: "\<exists>n d'. (case put d k x of None \<Rightarrow> None | Some d \<Rightarrow> pton_loop cs dstsiz (j + 1) (k + 1) w (Some d)) =
      Some (n, Some d') \<and> length d' = length d \<and> (n = -1 \<or> int k \<le> n \<and> n \<le> int dstsiz) \<and> drop dstsiz d' = drop dstsiz d"
    if "k < dstsiz" for x w
    using Cons.IH [of "k + 1" "d[k := x]" "j + 1" w] Cons.prems that by (fastforce simp: put_def)
  show ?case
    using Cons.prems Cons.IH [of k d j v] Cons.IH [of k d "j + 1"] w
    by (auto simp: Let_def split: option.split)
qed simp

section \<open>Properties\<close>

text \<open>
  C32. \<open>b64_ntop\<close> writes the Base64 text of the RFC and a zero byte, and \<open>b64_pton\<close> of that text returns the bytes
  again, whenever both arrays are as large as their size arguments say and these are large enough.
\<close>

theorem b64_roundtrip:
  assumes "(length bs + 2) div 3 * 4 < tsize" "tsize \<le> length t" "length bs \<le> dstsiz" "dstsiz \<le> length d"
  shows "\<exists>t'. b64_ntop bs (Some t) tsize = Some (int (length (rfc4648 bs)), Some t') \<and> c_string t' = rfc4648 bs \<and>
    b64_pton (c_string t') (Some d) dstsiz = Some (int (length bs), Some (bs @ drop (length bs) d))"
proof -
  let ?t = "rfc4648 bs @ 0 # drop (length (rfc4648 bs) + 1) t"
  have "b64_ntop bs (Some t) tsize = Some (int (length (rfc4648 bs)), Some ?t)"
    using assms(1,2) by (intro b64_ntop_ok) (simp_all add: rfc4648_length)
  moreover have "c_string ?t = rfc4648 bs"
    by (rule c_string_append [OF rfc4648_nonzero])
  moreover have "b64_pton (rfc4648 bs) (Some d) dstsiz = Some (int (length bs), Some (bs @ drop (length bs) d))"
    using pton_text [of 0 0 0 bs dstsiz d] assms(3,4) by (simp add: b64_pton_def)
  ultimately show ?thesis by metis
qed

theorem b64_roundtrip_witness:
  "\<exists>t'. b64_ntop [1, 2, 3, 4] (Some (replicate 12 7)) 12 = Some (8, Some t') \<and>
    b64_pton (c_string t') (Some (replicate 5 9)) 4 = Some (4, Some [1, 2, 3, 4, 9])"
  using b64_roundtrip [of "[1, 2, 3, 4]" 12 "replicate 12 7" 4 "replicate 5 9"] by (auto simp: rfc4648_length)

text \<open>
  C33. Whatever the text is, \<open>b64_pton\<close> returns without an access outside of its array: it writes below
  \<open>dstsiz\<close> only and reports an error or at most \<open>dstsiz\<close> bytes.
\<close>

theorem b64_pton_bounds:
  assumes "dstsiz \<le> length d"
  shows "\<exists>n d'. b64_pton src (Some d) dstsiz = Some (n, Some d') \<and> length d' = length d \<and>
    (n = -1 \<or> 0 \<le> n \<and> n \<le> int dstsiz) \<and> drop dstsiz d' = drop dstsiz d"
  using pton_loop_bounds [of 0 dstsiz d src 0 0] assms by (simp add: b64_pton_def)


theorem b64_pton_bounds_witness:
  "\<exists>n d'. b64_pton [0x41, 0x3d, 0x20, 0x42] (Some (replicate 5 9)) 2 = Some (n, Some d') \<and> length d' = 5 \<and>
    (n = -1 \<or> 0 \<le> n \<and> n \<le> 2) \<and> drop 2 d' = [9, 9, 9]"
  using b64_pton_bounds [of 2 "replicate 5 9" "[0x41, 0x3d, 0x20, 0x42]"] by (simp add: eval_nat_numeral)

text \<open>With a null pointer for the array the bytes are counted: the result is that of a call with a large array.\<close>

lemma pton_loop_count:
  "k + length cs \<le> dstsiz \<Longrightarrow> dstsiz \<le> length d \<Longrightarrow>
   map_option fst (pton_loop cs dstsiz j k v (Some d)) = map_option fst (pton_loop cs n j k v None)"
  by (induction cs arbitrary: j k v d) (auto simp: Let_def put_def split: option.split)

section \<open>The fingerprint\<close>

lemma strchr_at_found: "c \<notin> set xs \<Longrightarrow> 0 \<notin> set xs \<Longrightarrow> strchr_at (xs @ c # ys) c i = Found (i + length xs)"
  by (induction xs arbitrary: i) auto

lemma strchr_at_past: "c \<notin> set xs \<Longrightarrow> 0 \<notin> set xs \<Longrightarrow> strchr_at xs c i = PastEnd"
  by (induction xs arbitrary: i) auto

lemma fread_input_prefix:
  assumes "file = xs @ ys" "length xs \<le> 128" "length garbage = 128"
  shows "\<exists>zs. fread_input garbage file = xs @ zs"
  using assms by (auto simp: fread_input_def)

text \<open>
  For a key file whose type and key text end, with the space after them, within the first 128 bytes, the program
  prints the Base64 text of the digest of the key.
\<close>

theorem fingerprint_correct:
  assumes "file = ty @ [0x20] @ rfc4648 key @ [0x20] @ rest" "0x20 \<notin> set ty" "0 \<notin> set ty"
    "length ty + length (rfc4648 key) + 2 \<le> 128" "length garbage = 128" "length (sha256 key) = 32"
  shows "fingerprint_main sha256 garbage (Some file) =
    Some (Exit 0 (map of_char ''output: '' @ rfc4648 (sha256 key) @ [10]))"
proof -
  obtain zs where i: "fread_input garbage file = ty @ 0x20 # rfc4648 key @ 0x20 # zs"
    using fread_input_prefix [of "file" "ty @ [0x20] @ rfc4648 key @ [0x20]" rest garbage] assms(1,4,5) by auto
  have k: "length key \<le> 128" using assms(4) by (simp add: rfc4648_length)
  have d: "b64_pton (rfc4648 key) (Some garbage) 128 = Some (int (length key), Some (key @ drop (length key) garbage))"
    using pton_text [of 0 0 0 key 128 garbage] assms(5) k by (simp add: b64_pton_def)
  have e: "b64_ntop (sha256 key) (Some garbage) 128 =
      Some (int (length (rfc4648 (sha256 key))), Some (rfc4648 (sha256 key) @ 0 # drop (length (rfc4648 (sha256 key)) + 1) garbage))"
    using assms(5,6) by (intro b64_ntop_ok) (simp_all add: rfc4648_length)
  show ?thesis
    using assms(2,3,5) strchr_at_found [of "0x20" ty "rfc4648 key @ 0x20 # zs" 0]
      strchr_at_found [of "0x20" "rfc4648 key" zs "length ty + 1"]
    by (simp add: fingerprint_main_def i rfc4648_nospace rfc4648_nonzero c_string_append d e)
qed

theorem fingerprint_correct_witness:
  "fingerprint_main (\<lambda>bs. replicate 32 (of_nat (length bs))) (replicate 128 0xaa) (Some ([115] @ [0x20] @ rfc4648 [1, 2, 3, 4] @ [0x20] @ [10])) =
    Some (Exit 0 (map of_char ''output: '' @ rfc4648 (replicate 32 4) @ [10]))"
  using fingerprint_correct [OF refl, of "[115]" "[1, 2, 3, 4]" "replicate 128 0xaa" "\<lambda>bs. replicate 32 (of_nat (length bs))" "[10]"]
  by (simp add: rfc4648_length)

text \<open>
  A key that has not ended within 128 bytes, as every RSA key, makes \<open>strchr\<close> read past the end of the input
  array: the program has no defined behaviour.
\<close>

theorem fingerprint_overrun:
  assumes "take 128 file = ty @ [0x20] @ ks" "0x20 \<notin> set (ty @ ks)" "0 \<notin> set (ty @ ks)" "128 \<le> length file"
  shows "fingerprint_main sha256 garbage (Some file) = None"
proof -
  have "fread_input garbage file = take 128 file" using assms(4) by (simp add: fread_input_def)
  then have "fread_input garbage file = ty @ 0x20 # ks" using assms(1) by simp
  then show ?thesis
    using strchr_at_found [of "0x20" ty ks 0] strchr_at_past [of "0x20" ks "length ty + 1"] assms(2,3)
    by (simp add: fingerprint_main_def)
qed


theorem fingerprint_overrun_witness:
  "fingerprint_main (\<lambda>bs. bs) (replicate 128 0) (Some (replicate 7 115 @ [0x20] @ replicate 372 65 @ [0x20])) = None"
  by (rule fingerprint_overrun [of _ "replicate 7 115" "replicate 120 65"]) simp_all

end
