(* ===== verification/WinSockets.thy ===== *)
theory WinSockets
  imports Prelude "HOL-Library.List_Lexorder" "HOL-Library.Char_ord" "HOL-Library.Product_Lexorder"
begin

text \<open>
  The socket listing of \<open>ConsoleApplication1\<close>: \<open>Sockets.cpp\<close> reads the tables of the system and \<open>sockets()\<close> of
  \<open>ConsoleApplication1.cpp\<close> sorts and prints them. The functions of the Windows API that are called are the fields of a
  record; \<open>std::sort\<close> is a parameter that returns a permutation sorted by the comparison it is given. The machine is little-endian.
\<close>

section \<open>Data\<close>

record Socket =
  sk_pid :: int
  sk_process :: string
  sk_family :: int
  sk_protocol :: int
  sk_local_port :: int
  sk_remote_port :: int
  sk_local_addr :: string
  sk_remote_addr :: string
  sk_status :: string

text \<open>\<open>Socket s{}\<close>: zeros and empty strings.\<close>

definition new_Socket :: Socket where
  "new_Socket = \<lparr>sk_pid = 0, sk_process = [], sk_family = 0, sk_protocol = 0, sk_local_port = 0, sk_remote_port = 0,
     sk_local_addr = [], sk_remote_addr = [], sk_status = []\<rparr>"

text \<open>The columns of the tables of the system that the code reads; addresses are bytes in network order.\<close>

record tcp_row =
  dwState :: uint32
  dwLocalAddr :: "byte list"
  dwLocalPort :: uint32
  dwRemoteAddr :: "byte list"
  dwRemotePort :: uint32
  dwOwningPid :: uint32

record udp_row =
  udp_LocalAddr :: "byte list"
  udp_LocalPort :: uint32
  udp_OwningPid :: uint32

text \<open>
  The system: the first call of \<open>GetExtended...Table\<close>, without a buffer, returns a code and a buffer size; the second one
  a code and the rows. \<open>OpenProcess\<close> and \<open>GetProcessImageFileNameA\<close> fail with \<open>None\<close>.
\<close>

record net_api =
  tcp_table_size :: "int \<Rightarrow> uint32 \<times> nat"
  tcp_table :: "int \<Rightarrow> nat \<Rightarrow> uint32 \<times> tcp_row list"
  sizeof_tcp_table :: "int \<Rightarrow> nat"
  udp_table_size :: "int \<Rightarrow> uint32 \<times> nat"
  udp_table :: "int \<Rightarrow> nat \<Rightarrow> uint32 \<times> udp_row list"
  OpenProcess :: "uint32 \<Rightarrow> nat option"
  GetProcessImageFileNameA :: "nat \<Rightarrow> string option"
  AddressToString :: "int \<Rightarrow> byte list \<Rightarrow> string"

definition NO_ERROR :: uint32 where "NO_ERROR = 0"

definition ERROR_INSUFFICIENT_BUFFER :: uint32 where "ERROR_INSUFFICIENT_BUFFER = 122"

definition AF_INET :: int where "AF_INET = 2"

definition AF_INET6 :: int where "AF_INET6 = 23"

definition IPPROTO_TCP :: int where "IPPROTO_TCP = 6"

definition IPPROTO_UDP :: int where "IPPROTO_UDP = 17"

text \<open>\<open>ntohs(static_cast<uint16_t>(...))\<close>.\<close>

definition port_of :: "uint32 \<Rightarrow> int" where
  "port_of dw = uint (htons (ucast dw))"

section \<open>Reading the tables\<close>

definition getTCPStateString :: "uint32 \<Rightarrow> string" where
  "getTCPStateString state =
     (if state = 1 then ''CLOSED'' else if state = 2 then ''LISTEN'' else if state = 3 then ''SYN_SENT''
      else if state = 4 then ''SYN_RECEIVED'' else if state = 5 then ''ESTABLISHED'' else if state = 6 then ''FIN_WAIT_1''
      else if state = 7 then ''FIN_WAIT_2'' else if state = 8 then ''CLOSE_WAIT'' else if state = 9 then ''CLOSING''
      else if state = 10 then ''LAST_ACK'' else if state = 11 then ''TIME_WAIT'' else if state = 12 then ''DELETE_TCB''
      else ''unknown'')"

text \<open>The name of a process and the handles that the call leaves open.\<close>

definition getProcessFromPID :: "net_api \<Rightarrow> uint32 \<Rightarrow> string \<times> nat list" where
  "getProcessFromPID api pid =
     (if pid = 4 then (''System'', [])
      else if pid = 0 then (''System Idle Process'', [])
      else
        case OpenProcess api pid of
          None \<Rightarrow> ([], [])
        | Some process \<Rightarrow>
            (case GetProcessImageFileNameA api process of
               None \<Rightarrow> ([], [process])
             | Some name \<Rightarrow> (name, [process])))"

definition tcp_socket :: "net_api \<Rightarrow> int \<Rightarrow> tcp_row \<Rightarrow> Socket" where
  "tcp_socket api family row =
     new_Socket\<lparr>sk_pid := uint (dwOwningPid row), sk_process := fst (getProcessFromPID api (dwOwningPid row)),
       sk_family := family, sk_protocol := IPPROTO_TCP, sk_local_port := port_of (dwLocalPort row),
       sk_remote_port := port_of (dwRemotePort row), sk_status := getTCPStateString (dwState row),
       sk_local_addr := AddressToString api family (dwLocalAddr row),
       sk_remote_addr := AddressToString api family (dwRemoteAddr row)\<rparr>"

text \<open>\<open>getTCPSockets\<close> and \<open>getTCP6Sockets\<close>: the results, and the handles left open.\<close>

definition getTCPSockets_of :: "net_api \<Rightarrow> int \<Rightarrow> Socket list \<times> nat list \<Rightarrow> Socket list \<times> nat list" where
  "getTCPSockets_of api family r =
     (case tcp_table_size api family of (ret, buffer_size) \<Rightarrow>
        if (ret \<noteq> NO_ERROR \<and> ret \<noteq> ERROR_INSUFFICIENT_BUFFER) \<or> buffer_size < sizeof_tcp_table api family then r
        else
          case tcp_table api family buffer_size of (ret, rows) \<Rightarrow>
            if ret \<noteq> NO_ERROR then r
            else (fst r @ map (tcp_socket api family) rows,
                  snd r @ concat (map (\<lambda>row. snd (getProcessFromPID api (dwOwningPid row))) rows)))"

definition getTCPSockets :: "net_api \<Rightarrow> Socket list \<times> nat list \<Rightarrow> Socket list \<times> nat list" where
  "getTCPSockets api r = getTCPSockets_of api AF_INET r"

definition getTCP6Sockets :: "net_api \<Rightarrow> Socket list \<times> nat list \<Rightarrow> Socket list \<times> nat list" where
  "getTCP6Sockets api r = getTCPSockets_of api AF_INET6 r"

definition udp_socket :: "net_api \<Rightarrow> int \<Rightarrow> udp_row \<Rightarrow> Socket" where
  "udp_socket api family row =
     new_Socket\<lparr>sk_pid := uint (udp_OwningPid row), sk_process := fst (getProcessFromPID api (udp_OwningPid row)),
       sk_family := family, sk_protocol := IPPROTO_UDP, sk_local_port := port_of (udp_LocalPort row),
       sk_local_addr := AddressToString api family (udp_LocalAddr row)\<rparr>"

definition getUDPSockets_of :: "net_api \<Rightarrow> int \<Rightarrow> Socket list \<times> nat list \<Rightarrow> Socket list \<times> nat list" where
  "getUDPSockets_of api family r =
     (case udp_table_size api family of (ret, buffer_size) \<Rightarrow>
        if ret \<noteq> NO_ERROR \<and> ret \<noteq> ERROR_INSUFFICIENT_BUFFER then r
        else
          case udp_table api family buffer_size of (ret, rows) \<Rightarrow>
            if ret \<noteq> NO_ERROR then r
            else (fst r @ map (udp_socket api family) rows,
                  snd r @ concat (map (\<lambda>row. snd (getProcessFromPID api (udp_OwningPid row))) rows)))"

definition getUDPSockets :: "net_api \<Rightarrow> Socket list \<times> nat list \<Rightarrow> Socket list \<times> nat list" where
  "getUDPSockets api r = getUDPSockets_of api AF_INET r"

definition getUDP6Sockets :: "net_api \<Rightarrow> Socket list \<times> nat list \<Rightarrow> Socket list \<times> nat list" where
  "getUDP6Sockets api r = getUDPSockets_of api AF_INET6 r"

text \<open>The calls for IPv6 are commented out in the source.\<close>

definition snapshot :: "net_api \<Rightarrow> Socket list \<times> nat list" where
  "snapshot api = getUDPSockets api (getTCPSockets api ([], []))"

section \<open>Sorting and printing\<close>

definition socket_less :: "Socket \<Rightarrow> Socket \<Rightarrow> bool" where
  "socket_less a b =
     (if sk_local_addr a = sk_local_addr b
      then
        if sk_local_port a = sk_local_port b
        then
          if sk_remote_addr a = sk_remote_addr b
          then
            if sk_remote_port a = sk_remote_port b then sk_pid a < sk_pid b
            else sk_remote_port a < sk_remote_port b
          else sk_remote_addr a < sk_remote_addr b
        else sk_local_port a < sk_local_port b
      else sk_local_addr a < sk_local_addr b)"

text \<open>\<open>%5lld\<close>.\<close>

definition lld5 :: "int \<Rightarrow> string" where
  "lld5 i = replicate (5 - length (lld i)) CHR '' '' @ lld i"

definition print_socket :: "Socket \<Rightarrow> string" where
  "print_socket s =
     (let loc = (if sk_family s = AF_INET then sk_local_addr s else ''['' @ sk_local_addr s @ '']'');
          rem = (if sk_family s = AF_INET then sk_remote_addr s else ''['' @ sk_remote_addr s @ '']'');
          front = sk_process s @ '' ('' @ lld5 (sk_pid s) @ '')  '' @ lld (sk_family s) @ '' '' @ lld (sk_protocol s) @
                  [CHR 0x09] @ loc @ '':'' @ lld (sk_local_port s) @ [CHR 0x09]
      in if sk_protocol s = IPPROTO_TCP
         then front @ rem @ '':'' @ lld (sk_remote_port s) @ [CHR 0x09] @ sk_status s @ [CHR 0x0A]
         else front @ ''*:*'' @ [CHR 0x0A])"

definition sockets :: "((Socket \<Rightarrow> Socket \<Rightarrow> bool) \<Rightarrow> Socket list \<Rightarrow> Socket list) \<Rightarrow> net_api \<Rightarrow> string" where
  "sockets std_sort api =
     (let result = fst (snapshot api)
      in ''got '' @ dec_nat (length result) @ '' sockets'' @ [CHR 0x0A, CHR 0x0A] @
         concat (map print_socket (std_sort socket_less result)))"

section \<open>The order of the listing\<close>

definition socket_key :: "Socket \<Rightarrow> string \<times> int \<times> string \<times> int \<times> int" where
  "socket_key s = (sk_local_addr s, sk_local_port s, sk_remote_addr s, sk_remote_port s, sk_pid s)"

lemma socket_less_key: "socket_less a b \<longleftrightarrow> socket_key a < socket_key b"
  by (auto simp: socket_less_def socket_key_def less_prod_def)


text \<open>The rows that a listing takes: none when one of the two calls fails.\<close>

definition tcp_rows :: "net_api \<Rightarrow> int \<Rightarrow> tcp_row list" where
  "tcp_rows api family = (case tcp_table_size api family of (ret, n) \<Rightarrow>
     if (ret = NO_ERROR \<or> ret = ERROR_INSUFFICIENT_BUFFER) \<and> sizeof_tcp_table api family \<le> n \<and> fst (tcp_table api family n) = NO_ERROR
     then snd (tcp_table api family n) else [])"

definition udp_rows :: "net_api \<Rightarrow> int \<Rightarrow> udp_row list" where
  "udp_rows api family = (case udp_table_size api family of (ret, n) \<Rightarrow>
     if (ret = NO_ERROR \<or> ret = ERROR_INSUFFICIENT_BUFFER) \<and> fst (udp_table api family n) = NO_ERROR
     then snd (udp_table api family n) else [])"

lemma getTCPSockets_of_rows:
  "getTCPSockets_of api family r =
     (fst r @ map (tcp_socket api family) (tcp_rows api family),
      snd r @ concat (map (\<lambda>row. snd (getProcessFromPID api (dwOwningPid row))) (tcp_rows api family)))"
  by (auto simp: getTCPSockets_of_def tcp_rows_def split: prod.splits)

lemma getUDPSockets_of_rows:
  "getUDPSockets_of api family r =
     (fst r @ map (udp_socket api family) (udp_rows api family),
      snd r @ concat (map (\<lambda>row. snd (getProcessFromPID api (udp_OwningPid row))) (udp_rows api family)))"
  by (auto simp: getUDPSockets_of_def udp_rows_def split: prod.splits)

lemmas snapshot_rows = snapshot_def getTCPSockets_def getUDPSockets_def getTCPSockets_of_rows getUDPSockets_of_rows

lemma open_handles:
  "length (concat (map (\<lambda>x. snd (getProcessFromPID api (f x))) xs)) =
   length (filter (\<lambda>pid. pid \<noteq> 4 \<and> pid \<noteq> 0 \<and> OpenProcess api pid \<noteq> None) (map f xs))"
  by (induction xs) (auto simp: getProcessFromPID_def split: option.splits)

lemma port_of_htons: "port_of (ucast (htons p)) = uint p"
proof -
  have "ucast (ucast x :: uint32) = x" for x :: uint16 by (rule bit_word_eqI) (simp add: bit_simps)
  then show ?thesis by (simp add: port_of_def htons_htons)
qed

lemma port_of_range: "0 \<le> port_of dw \<and> port_of dw < 65536"
  using uint_lt2p [of "htons (ucast dw)"] by (simp add: port_of_def)

section \<open>Properties\<close>

text \<open>
  The comparison given to \<open>std::sort\<close> is a strict weak order: irreflexive, transitive, and sockets that are not ordered
  either way agree in the five columns compared, so that being unordered is transitive as well.
\<close>

theorem socket_less_strict_weak:
  "\<not> socket_less a a \<and> (\<not> socket_less a b \<or> \<not> socket_less b c \<or> socket_less a c) \<and>
   ((\<not> socket_less a b \<and> \<not> socket_less b a) = (socket_key a = socket_key b))"
  using less_trans [of "socket_key a" "socket_key b" "socket_key c"] by (auto simp: socket_less_key)

text \<open>
  C35. When \<open>std::sort\<close> returns a permutation sorted by its comparison, the listing prints the count and then the rows of both
  tables of the system, each once, ascending by local address, local port, remote address, remote port and process.
\<close>

theorem sockets_listing:
  assumes "\<And>xs. mset (std_sort socket_less xs) = mset xs"
    "\<And>xs. sorted_wrt (\<lambda>a b. \<not> socket_less b a) (std_sort socket_less xs)"
  shows "\<exists>ss. sockets std_sort api = ''got '' @ dec_nat (length ss) @ '' sockets'' @ [CHR 0x0A, CHR 0x0A] @ concat (map print_socket ss) \<and>
    mset ss = mset (map (tcp_socket api AF_INET) (tcp_rows api AF_INET)) + mset (map (udp_socket api AF_INET) (udp_rows api AF_INET)) \<and>
    sorted (map socket_key ss)"
proof -
  let ?r = "fst (snapshot api)" and ?ss = "std_sort socket_less (fst (snapshot api))"
  have "mset ?r = mset (map (tcp_socket api AF_INET) (tcp_rows api AF_INET)) + mset (map (udp_socket api AF_INET) (udp_rows api AF_INET))"
    by (simp add: snapshot_rows)
  moreover have "sorted (map socket_key ?ss)"
    using assms(2) [of ?r] by (simp add: sorted_wrt_map socket_less_key not_less)
  moreover have "length ?ss = length ?r" using assms(1) [of ?r] by (metis size_mset)
  ultimately show ?thesis using assms(1) [of ?r] by (intro exI [of _ ?ss]) (simp add: sockets_def Let_def)
qed

definition demo_net :: net_api where
  "demo_net =
     \<lparr>tcp_table_size = (\<lambda>_. (122, 500)),
      tcp_table = (\<lambda>_ _. (0, [\<lparr>dwState = 5, dwLocalAddr = [10, 0, 0, 1], dwLocalPort = 0x5000, dwRemoteAddr = [10, 0, 0, 2],
        dwRemotePort = 0xbb01, dwOwningPid = 77\<rparr>])),
      sizeof_tcp_table = (\<lambda>_. 168), udp_table_size = (\<lambda>_. (0, 0)), udp_table = (\<lambda>_ _. (0, [])),
      OpenProcess = (\<lambda>pid. Some (unat pid)), GetProcessImageFileNameA = (\<lambda>_. Some ''x.exe''), AddressToString = (\<lambda>_ _. ''a'')\<rparr>"

theorem sockets_listing_witness:
  "\<exists>ss. sockets (\<lambda>_. sort_key socket_key) demo_net =
      ''got '' @ dec_nat (length ss) @ '' sockets'' @ [CHR 0x0A, CHR 0x0A] @ concat (map print_socket ss) \<and>
    mset ss = mset (map (tcp_socket demo_net AF_INET) (tcp_rows demo_net AF_INET)) + mset (map (udp_socket demo_net AF_INET) (udp_rows demo_net AF_INET)) \<and>
    sorted (map socket_key ss)"
proof (rule sockets_listing)
  fix xs
  show "sorted_wrt (\<lambda>a b. \<not> socket_less b a) (sort_key socket_key xs)"
    using sorted_sort_key [of socket_key xs] by (simp add: sorted_wrt_map socket_less_key not_less)
qed simp

text \<open>
  \<open>getProcessFromPID\<close> never closes the handle it opens: a listing leaves one handle open for every row whose process could be
  opened.
\<close>

theorem snapshot_leaks_handles:
  "length (snd (snapshot api)) =
     length (filter (\<lambda>pid. pid \<noteq> 4 \<and> pid \<noteq> 0 \<and> OpenProcess api pid \<noteq> None)
       (map dwOwningPid (tcp_rows api AF_INET) @ map udp_OwningPid (udp_rows api AF_INET)))"
  by (simp add: snapshot_rows open_handles)

end
