(* ===== verification/WinUtil.thy ===== *)
theory WinUtil
  imports Prelude
begin

text \<open>
  The helpers of \<open>ConsoleApplication1/utils.h\<close>. A wide string is the list of its 16-bit units; the locale's narrowing of one unit is a
  parameter.
\<close>

type_synonym wstr = "uint16 list"

definition wide :: "string \<Rightarrow> wstr" where
  "wide s = map of_char s"

record LogEntry =
  ts :: int
  priority :: int
  le_source :: string
  le_message :: string

definition new_LogEntry :: LogEntry where
  "new_LogEntry = \<lparr>ts = 0, priority = 0, le_source = [], le_message = []\<rparr>"

definition convert_high_low :: "uint32 \<Rightarrow> uint32 \<Rightarrow> int" where
  "convert_high_low high low = sint (push_bit 32 (ucast high) OR ucast low :: uint64)"

record FILETIME =
  dwLowDateTime :: uint32
  dwHighDateTime :: uint32

definition convert_filetime :: "FILETIME \<Rightarrow> int" where
  "convert_filetime t = convert_high_low (dwHighDateTime t) (dwLowDateTime t)"

definition narrow_wstring :: "(uint16 \<Rightarrow> char option) \<Rightarrow> wstr \<Rightarrow> string" where
  "narrow_wstring loc str = map (\<lambda>c. case loc c of None \<Rightarrow> CHR ''_'' | Some x \<Rightarrow> x) str"

text \<open>The macro \<open>FAILED\<close>: the value read as a signed number is negative.\<close>

definition FAILED :: "uint32 \<Rightarrow> bool" where
  "FAILED res \<longleftrightarrow> sint res < 0"

lemma FAILED_bit: "FAILED res \<longleftrightarrow> bit res 31"
  using bit_last_iff [of res] by (simp add: FAILED_def)

lemma convert_high_low_value:
  assumes "\<not> bit high 31"
  shows "convert_high_low high low = uint high * 2 ^ 32 + uint low"
proof -
  let ?w = "push_bit 32 (ucast high) OR ucast low :: uint64"
  have h: "uint high < 2 ^ 32" "uint low < 2 ^ 32" using uint_lt2p [of high] uint_lt2p [of low] by simp_all
  have "bit (ucast high :: uint64) 31 = bit high 31" "\<not> bit (ucast low :: uint64) 63"
    using bit_imp_le_length [of low 63] by (auto simp: bit_simps)
  then have "\<not> bit ?w 63" using assms by (auto simp: bit_simps)
  then have s: "sint ?w = uint ?w"
  proof -
    assume n: "\<not> bit ?w 63"
    have "n < 63" if "bit (uint ?w) n" for n
      using that n bit_imp_le_length [of ?w n] by (cases "n = 63") (auto simp: bit_uint_iff)
    then have "take_bit 63 (uint ?w) = uint ?w" by (intro bit_eqI) (auto simp: bit_take_bit_iff)
    then show ?thesis using n by (simp add: sint_uint signed_take_bit_eq_if_positive bit_uint_iff)
  qed
  have "uint ?w = uint (push_bit 32 (ucast high) + ucast low :: uint64)"
    by (subst disjunctive_add) (auto simp: bit_simps dest: bit_imp_le_length)
  also have "\<dots> = uint high * 2 ^ 32 + uint low"
    using h by (simp add: push_bit_eq_mult uint_word_ariths unsigned_ucast_eq take_bit_int_eq_self)
  finally show ?thesis using s by (simp add: convert_high_low_def)
qed

end
