(* ===== verification/EventLog.thy ===== *)
theory EventLog
  imports WinUtil "HOL-Library.Multiset"
begin

text \<open>
  The event log reader \<open>EventLogManager.cpp\<close>. The answers of \<open>ReadEventLog\<close> during one call are a list; the registry, the
  environment, the loader of libraries and the message formatter are the fields of a record. The records of one answer are a
  list: their lengths fill the bytes read. The strings of a record lie one after the other, each with a zero unit at its end.
\<close>

section \<open>Data\<close>

record event_record =
  RecordNumber :: uint32
  TimeGenerated :: uint32
  EventType :: uint16
  EventID :: uint32
  NumStrings :: nat
  SourceName :: wstr
  StringArea :: wstr

text \<open>\<open>ReadFail\<close> holds the error code, the bytes needed, and whether \<open>realloc\<close> succeeds.\<close>

datatype read_answer = ReadOk "event_record list" | ReadFail uint32 nat bool

record log_api =
  RegOpenKeyEx :: "wstr \<Rightarrow> uint32 \<times> nat"
  RegQueryValueEx :: "nat \<Rightarrow> uint32 \<times> wstr"
  ExpandEnvironmentStrings :: "wstr \<Rightarrow> wstr option"
  LoadLibraryEx :: "wstr \<Rightarrow> nat option"
  FormatMessage :: "nat \<Rightarrow> uint32 \<Rightarrow> wstr list \<Rightarrow> uint32 \<times> wstr option \<times> uint32"
  narrow :: "uint16 \<Rightarrow> char option"

text \<open>The state of the object; \<open>loads\<close> records the modules that \<open>LoadLibraryEx\<close> returned.\<close>

record EventLogManager =
  last_record_read :: uint32
  event_log :: "nat option"
  dll_cache :: "(wstr \<times> nat) list"
  loads :: "nat list"

definition new_EventLogManager :: "nat option \<Rightarrow> EventLogManager" where
  "new_EventLogManager handle = \<lparr>last_record_read = 0, event_log = handle, dll_cache = [], loads = []\<rparr>"

text \<open>The modules given to \<open>FreeLibrary\<close> by the destructor.\<close>

definition destroy_EventLogManager :: "EventLogManager \<Rightarrow> nat list" where
  "destroy_EventLogManager mgr = map snd (dll_cache mgr)"

section \<open>One record\<close>

definition wcslen :: "wstr \<Rightarrow> nat \<Rightarrow> nat" where
  "wcslen area off = length (takeWhile (\<lambda>c. c \<noteq> 0) (drop off area))"

text \<open>The loop that breaks the string area up: the offsets stored in \<open>all_strings\<close>.\<close>

function string_loop :: "wstr \<Rightarrow> nat \<Rightarrow> nat \<Rightarrow> nat \<Rightarrow> nat list" where
  "string_loop area n i curr_string =
     (if i < n
      then curr_string # string_loop area n (i + 1) (if i = n - 1 then curr_string + wcslen area curr_string + 1 else curr_string)
      else [])"
  by pat_completeness auto
termination
  by (relation "measure (\<lambda>(area, n, i, curr_string). n - i)") auto

declare string_loop.simps [simp del]

definition string_at :: "wstr \<Rightarrow> nat \<Rightarrow> wstr" where
  "string_at area off = takeWhile (\<lambda>c. c \<noteq> 0) (drop off area)"

text \<open>\<open>std::getline(stream, filename, L';')\<close> until it fails.\<close>

function getlines :: "wstr \<Rightarrow> wstr list" where
  "getlines [] = []"
| "getlines (c # cs) =
     takeWhile (\<lambda>x. x \<noteq> 59) (c # cs) #
     (case dropWhile (\<lambda>x. x \<noteq> 59) (c # cs) of [] \<Rightarrow> [] | _ # rest \<Rightarrow> getlines rest)"
  by pat_completeness auto
termination
  apply (relation "measure length")
   apply simp
  subgoal for c cs x rest
    using length_dropWhile_le [of "\<lambda>x. x \<noteq> 59" "c # cs"] by (auto split: if_splits)
  done

definition ERROR_SUCCESS :: uint32 where "ERROR_SUCCESS = 0"

definition ERROR_FILE_NOT_FOUND :: uint32 where "ERROR_FILE_NOT_FOUND = 2"

definition ERROR_HANDLE_EOF :: uint32 where "ERROR_HANDLE_EOF = 38"

definition ERROR_BUFFER :: uint32 where "ERROR_BUFFER = 122"

definition ERROR_MR_MID_NOT_FOUND :: uint32 where "ERROR_MR_MID_NOT_FOUND = 317"

definition find_dll :: "log_api \<Rightarrow> wstr \<Rightarrow> EventLogManager \<Rightarrow> nat option \<times> EventLogManager" where
  "find_dll api filename mgr =
     (case map_of (dll_cache mgr) filename of
        Some dll \<Rightarrow> (Some dll, mgr)
      | None \<Rightarrow>
          (case LoadLibraryEx api filename of
             Some dll \<Rightarrow> (Some dll, mgr\<lparr>dll_cache := (filename, dll) # dll_cache mgr, loads := dll # loads mgr\<rparr>)
           | None \<Rightarrow> (None, mgr)))"

fun message_loop :: "log_api \<Rightarrow> event_record \<Rightarrow> wstr list \<Rightarrow> wstr list \<Rightarrow> EventLogManager \<Rightarrow> LogEntry \<Rightarrow> LogEntry \<times> EventLogManager" where
  "message_loop api record args [] mgr entry = (entry, mgr)"
| "message_loop api record args (filename # fs) mgr entry =
     (case find_dll api filename mgr of
        (None, mgr) \<Rightarrow> (entry, mgr)
      | (Some dll, mgr) \<Rightarrow>
          (case FormatMessage api dll (EventID record) args of (res, actual_message, last_error) \<Rightarrow>
             if res = 0 \<and> last_error \<noteq> ERROR_MR_MID_NOT_FOUND then (entry, mgr)
             else
               message_loop api record args fs mgr
                 (case actual_message of
                    Some msg \<Rightarrow> entry\<lparr>le_message := narrow_wstring (narrow api) msg\<rparr>
                  | None \<Rightarrow> entry)))"

definition log_key :: wstr where
  "log_key = wide (''SYSTEM'' @ [CHR 0x5C] @ ''CurrentControlSet'' @ [CHR 0x5C] @ ''Services'' @ [CHR 0x5C] @
     ''Eventlog'' @ [CHR 0x5C] @ ''System'' @ [CHR 0x5C])"

definition processRecord :: "log_api \<Rightarrow> event_record \<Rightarrow> EventLogManager \<Rightarrow> LogEntry option \<times> EventLogManager" where
  "processRecord api record mgr =
     (let entry = new_LogEntry\<lparr>ts := uint (TimeGenerated record), priority := uint (EventType record)\<rparr>;
          source = SourceName record
      in if source \<noteq> wide ''DCOM'' then (None, mgr)
         else
           let entry = entry\<lparr>le_source := narrow_wstring (narrow api) source\<rparr>;
               key_name = log_key @ source;
               (res, key_handle) = RegOpenKeyEx api key_name
           in if FAILED res then (Some entry, mgr)
              else
                case RegQueryValueEx api key_handle of (res, message_file) \<Rightarrow>
                  if res \<noteq> ERROR_SUCCESS \<and> res \<noteq> ERROR_FILE_NOT_FOUND then (Some entry, mgr)
                  else
                    case ExpandEnvironmentStrings api message_file of
                      None \<Rightarrow> (None, mgr)
                    | Some formatted \<Rightarrow>
                        let all_strings = map (string_at (StringArea record)) (string_loop (StringArea record) (NumStrings record) 0 0);
                            (entry, mgr) = message_loop api record all_strings (getlines formatted) mgr entry
                        in (Some entry, mgr))"

section \<open>Reading the log\<close>

fun record_loop :: "log_api \<Rightarrow> event_record list \<Rightarrow> EventLogManager \<Rightarrow> LogEntry option \<times> EventLogManager" where
  "record_loop api [] mgr = (None, mgr)"
| "record_loop api (r # rs) mgr =
     (case processRecord api r mgr of
        (Some e, mgr) \<Rightarrow> (Some e, mgr)
      | (None, mgr) \<Rightarrow> record_loop api rs (mgr\<lparr>last_record_read := RecordNumber r\<rparr>))"

text \<open>
  The outer loop, with the calls of \<open>ReadEventLog\<close> (flags, offset, buffer size) in order. \<open>None\<close>: there are no more answers, so
  the call is still waiting for one.
\<close>

fun read_loop ::
  "log_api \<Rightarrow> read_answer list \<Rightarrow> uint32 \<Rightarrow> nat \<Rightarrow> EventLogManager \<Rightarrow> (LogEntry list \<times> EventLogManager \<times> (uint32 \<times> uint32 \<times> nat) list) option" where
  "read_loop api [] read_flag bytes_to_read mgr = None"
| "read_loop api (ReadFail status bytes_needed realloc_ok # as) read_flag bytes_to_read mgr =
     (let call = (read_flag, last_record_read mgr, bytes_to_read)
      in if status = ERROR_BUFFER \<and> \<not> realloc_ok \<or> status \<noteq> ERROR_BUFFER \<and> status \<noteq> ERROR_HANDLE_EOF
         then Some ([], mgr, [call])
         else
           let bytes_to_read = (if status = ERROR_BUFFER then bytes_needed else bytes_to_read)
           in if status = ERROR_SUCCESS
              then map_option (\<lambda>(es, mgr, calls). (es, mgr, call # calls)) (read_loop api as read_flag bytes_to_read mgr)
              else Some ([], mgr, [call]))"
| "read_loop api (ReadOk records # as) read_flag bytes_to_read mgr =
     (let call = (read_flag, last_record_read mgr, bytes_to_read)
      in case record_loop api records mgr of
           (Some e, mgr) \<Rightarrow> Some ([e], mgr, [call])
         | (None, mgr) \<Rightarrow>
             map_option (\<lambda>(es, mgr, calls). (es, mgr, call # calls)) (read_loop api as read_flag bytes_to_read mgr))"

definition EVENTLOG_SEQUENTIAL_READ :: uint32 where "EVENTLOG_SEQUENTIAL_READ = 1"

definition EVENTLOG_SEEK_READ :: uint32 where "EVENTLOG_SEEK_READ = 2"

definition EVENTLOG_FORWARDS_READ :: uint32 where "EVENTLOG_FORWARDS_READ = 4"

definition GetLogEntries ::
  "log_api \<Rightarrow> read_answer list \<Rightarrow> EventLogManager \<Rightarrow> (LogEntry list \<times> EventLogManager \<times> (uint32 \<times> uint32 \<times> nat) list) option" where
  "GetLogEntries api answers mgr =
     (if event_log mgr = None then Some ([], mgr, [])
      else
        let read_flag = EVENTLOG_FORWARDS_READ OR
              (if last_record_read mgr = 0 then EVENTLOG_SEQUENTIAL_READ else EVENTLOG_SEEK_READ)
        in read_loop api answers read_flag 0x10000 mgr)"

section \<open>The cache of libraries\<close>

definition cache_ok :: "log_api \<Rightarrow> EventLogManager \<Rightarrow> bool" where
  "cache_ok api mgr \<longleftrightarrow> mset (map snd (dll_cache mgr)) = mset (loads mgr) \<and> distinct (map fst (dll_cache mgr)) \<and>
     (\<forall>(f, d) \<in> set (dll_cache mgr). LoadLibraryEx api f = Some d)"

lemma cache_ok_last [simp]: "cache_ok api (mgr\<lparr>last_record_read := n\<rparr>) = cache_ok api mgr"
  by (simp add: cache_ok_def)

lemma find_dll_ok:
  assumes "cache_ok api mgr"
  shows "cache_ok api (snd (find_dll api f mgr))" "fst (find_dll api f mgr) = LoadLibraryEx api f"
    "last_record_read (snd (find_dll api f mgr)) = last_record_read mgr" "event_log (snd (find_dll api f mgr)) = event_log mgr"
  using assms
  by (auto simp: find_dll_def cache_ok_def map_of_eq_None_iff dest: map_of_SomeD split: option.splits)

lemma string_loop_stays: "i \<le> n \<Longrightarrow> string_loop area n i c = replicate (n - i) c"
proof (induction "n - i" arbitrary: i)
  case 0
  then show ?case by (simp add: string_loop.simps)
next
  case (Suc m)
  then have i: "i < n" "n - i = Suc m" "n - (i + 1) = m" by auto
  show ?case
  proof (cases "i = n - 1")
    case True
    then show ?thesis using i by (subst string_loop.simps, subst string_loop.simps) simp
  next
    case False
    have "string_loop area n (i + 1) c = replicate m c" using Suc.hyps(1) [of "i + 1"] i by simp
    then show ?thesis using i False by (subst string_loop.simps) simp
  qed
qed

text \<open>What the message loop puts into the entry, from the system alone.\<close>

fun messages :: "log_api \<Rightarrow> event_record \<Rightarrow> wstr list \<Rightarrow> wstr list \<Rightarrow> LogEntry \<Rightarrow> LogEntry" where
  "messages api record args [] entry = entry"
| "messages api record args (f # fs) entry =
     (case LoadLibraryEx api f of
        None \<Rightarrow> entry
      | Some dll \<Rightarrow>
          (case FormatMessage api dll (EventID record) args of (res, msg, err) \<Rightarrow>
             if res = 0 \<and> err \<noteq> ERROR_MR_MID_NOT_FOUND then entry
             else messages api record args fs
               (case msg of Some m \<Rightarrow> entry\<lparr>le_message := narrow_wstring (narrow api) m\<rparr> | None \<Rightarrow> entry)))"

lemma message_loop_ok:
  "cache_ok api mgr \<Longrightarrow> message_loop api r args fs mgr entry = (e, mgr') \<Longrightarrow>
   cache_ok api mgr' \<and> e = messages api r args fs entry \<and> last_record_read mgr' = last_record_read mgr \<and> event_log mgr' = event_log mgr"
proof (induction fs arbitrary: mgr entry)
  case (Cons f fs)
  obtain d mgr1 where f: "find_dll api f mgr = (d, mgr1)" by (cases "find_dll api f mgr")
  then have k: "cache_ok api mgr1" "d = LoadLibraryEx api f" "last_record_read mgr1 = last_record_read mgr" "event_log mgr1 = event_log mgr"
    using find_dll_ok [OF Cons.prems(1), of f] by auto
  then show ?case
    using Cons.prems(2) Cons.IH [OF k(1)] f by (auto split: option.splits prod.splits if_splits)
qed auto

definition entry_of :: "log_api \<Rightarrow> event_record \<Rightarrow> LogEntry option" where
  "entry_of api r =
     (let entry = new_LogEntry\<lparr>ts := uint (TimeGenerated r), priority := uint (EventType r), le_source := narrow_wstring (narrow api) (SourceName r)\<rparr>;
          (res, key) = RegOpenKeyEx api (log_key @ SourceName r);
          (res', file_list) = RegQueryValueEx api key
      in if SourceName r \<noteq> wide ''DCOM'' then None
         else if FAILED res \<or> res' \<noteq> ERROR_SUCCESS \<and> res' \<noteq> ERROR_FILE_NOT_FOUND then Some entry
         else map_option (\<lambda>fs. messages api r (replicate (NumStrings r) (string_at (StringArea r) 0)) (getlines fs) entry)
           (ExpandEnvironmentStrings api file_list))"

lemma processRecord_ok:
  assumes "cache_ok api mgr" "processRecord api r mgr = (res, mgr')"
  shows "cache_ok api mgr'" "last_record_read mgr' = last_record_read mgr" "event_log mgr' = event_log mgr" "res = entry_of api r"
  using assms message_loop_ok [OF assms(1)]
  by (auto simp: processRecord_def entry_of_def Let_def string_loop_stays split: if_splits prod.splits option.splits)

lemma record_loop_ok:
  "cache_ok api mgr \<Longrightarrow> record_loop api rs mgr = (e, mgr') \<Longrightarrow> cache_ok api mgr' \<and> event_log mgr' = event_log mgr"
proof (induction rs arbitrary: mgr)
  case (Cons r rs)
  obtain res mgr1 where r: "processRecord api r mgr = (res, mgr1)" by (cases "processRecord api r mgr")
  show ?case
    using Cons.prems(2) Cons.IH [of "mgr1\<lparr>last_record_read := RecordNumber r\<rparr>"] processRecord_ok [OF Cons.prems(1) r] r
    by (auto split: option.splits)
qed auto

lemma read_loop_ok:
  "cache_ok api mgr \<Longrightarrow> read_loop api as f n mgr = Some (es, mgr', calls) \<Longrightarrow> cache_ok api mgr' \<and> event_log mgr' = event_log mgr"
proof (induction api as f n mgr arbitrary: es calls rule: read_loop.induct)
  case (3 api records as f n mgr)
  obtain e mgr1 where r: "record_loop api records mgr = (e, mgr1)" by (cases "record_loop api records mgr")
  show ?case
    using 3(3) 3(1) [OF refl r [symmetric]] record_loop_ok [OF 3(2) r] r by (cases e) (auto simp: Let_def)
qed (auto simp: Let_def split: if_splits)

lemma record_loop_first:
  assumes "cache_ok api mgr" "\<forall>x \<in> set pre. entry_of api x = None" "entry_of api r = Some e"
  shows "\<exists>mgr'. record_loop api (pre @ r # post) mgr = (Some e, mgr') \<and> cache_ok api mgr' \<and> event_log mgr' = event_log mgr \<and>
    last_record_read mgr' = (if pre = [] then last_record_read mgr else RecordNumber (last pre))"
  using assms(1,2)
proof (induction pre arbitrary: mgr)
  case Nil
  obtain res mgr1 where r: "processRecord api r mgr = (res, mgr1)" by (cases "processRecord api r mgr")
  show ?case using processRecord_ok [OF Nil(1) r] r assms(3) by simp
next
  case (Cons x pre)
  obtain res mgr1 where r: "processRecord api x mgr = (res, mgr1)" by (cases "processRecord api x mgr")
  note p = processRecord_ok [OF Cons.prems(1) r]
  have "res = None" using p(4) Cons.prems(2) by simp
  then show ?case
    using Cons.IH [of "mgr1\<lparr>last_record_read := RecordNumber x\<rparr>"] p r Cons.prems(2) by fastforce
qed

text \<open>Calls of \<open>GetLogEntries\<close> one after the other, each with the answers it gets.\<close>

fun log_session :: "log_api \<Rightarrow> read_answer list list \<Rightarrow> EventLogManager \<Rightarrow> (LogEntry list \<times> EventLogManager) option" where
  "log_session api [] mgr = Some ([], mgr)"
| "log_session api (as # ass) mgr =
     (case GetLogEntries api as mgr of
        None \<Rightarrow> None
      | Some (es, mgr, _) \<Rightarrow> map_option (\<lambda>(es', mgr). (es @ es', mgr)) (log_session api ass mgr))"

lemma GetLogEntries_ok:
  "cache_ok api mgr \<Longrightarrow> GetLogEntries api as mgr = Some (es, mgr', calls) \<Longrightarrow> cache_ok api mgr' \<and> event_log mgr' = event_log mgr"
  using read_loop_ok [of api mgr as] by (auto simp: GetLogEntries_def Let_def split: if_splits)

lemma log_session_ok: "cache_ok api mgr \<Longrightarrow> log_session api ass mgr = Some (es, mgr') \<Longrightarrow> cache_ok api mgr'"
proof (induction ass arbitrary: mgr es)
  case (Cons as ass)
  then show ?case using GetLogEntries_ok [OF Cons.prems(1), of as] by (auto split: option.splits)
qed auto

section \<open>Properties\<close>

definition demo_log :: log_api where
  "demo_log = \<lparr>RegOpenKeyEx = (\<lambda>_. (0, 5)), RegQueryValueEx = (\<lambda>_. (0, wide ''a;b'')), ExpandEnvironmentStrings = Some,
     LoadLibraryEx = (\<lambda>f. Some (length f)), FormatMessage = (\<lambda>_ _ _. (1, Some (wide ''m''), 0)), narrow = (\<lambda>c. Some (char_of (unat c)))\<rparr>"

definition demo_record :: "uint32 \<Rightarrow> string \<Rightarrow> event_record" where
  "demo_record n src = \<lparr>RecordNumber = n, TimeGenerated = 3, EventType = 4, EventID = 5, NumStrings = 0, SourceName = wide src, StringArea = []\<rparr>"

text \<open>
  C36. After any calls of \<open>GetLogEntries\<close> the destructor frees exactly the libraries that were loaded, each as often as it was
  loaded, and no library name was loaded twice.
\<close>

theorem event_log_frees_loads:
  assumes "log_session api answers (new_EventLogManager handle) = Some (es, mgr)"
  shows "mset (destroy_EventLogManager mgr) = mset (loads mgr) \<and> distinct (map fst (dll_cache mgr))"
proof -
  have "cache_ok api (new_EventLogManager handle)" by (simp add: cache_ok_def new_EventLogManager_def)
  from log_session_ok [OF this assms] show ?thesis by (simp add: cache_ok_def destroy_EventLogManager_def)
qed

theorem event_log_frees_loads_witness:
  "\<exists>es mgr. log_session demo_log [[ReadOk [demo_record 7 ''A'', demo_record 8 ''DCOM'']], [ReadOk [demo_record 8 ''DCOM'']]] (new_EventLogManager (Some 1)) =
      Some (es, mgr) \<and> mset (destroy_EventLogManager mgr) = mset (loads mgr) \<and> distinct (map fst (dll_cache mgr))"
proof -
  let ?as = "[[ReadOk [demo_record 7 ''A'', demo_record 8 ''DCOM'']], [ReadOk [demo_record 8 ''DCOM'']]]"
  have "\<exists>x. log_session demo_log ?as (new_EventLogManager (Some 1)) = Some x"
    by (simp add: GetLogEntries_def new_EventLogManager_def processRecord_def demo_log_def demo_record_def wide_def FAILED_def ERROR_SUCCESS_def Let_def split: prod.splits)
  then obtain es mgr where "log_session demo_log ?as (new_EventLogManager (Some 1)) = Some (es, mgr)" by auto
  from event_log_frees_loads [OF this] this show ?thesis by blast
qed

text \<open>
  However many strings a record has, \<open>FormatMessage\<close> is given copies of the first one: the loop that collects them moves on only after the
  last one.
\<close>

theorem only_first_string:
  "map (string_at area) (string_loop area n 0 0) = replicate n (string_at area 0)"
  by (simp add: string_loop_stays)

text \<open>
  When the buffer is too small, \<open>GetLogEntries\<close> enlarges it and gives up: the loop ends on the error, so that there is no second read
  and no entry.
\<close>

theorem no_retry_after_growth:
  assumes "event_log mgr \<noteq> None"
  shows "\<exists>flag. GetLogEntries api (ReadFail ERROR_BUFFER bytes_needed True # as) mgr = Some ([], mgr, [(flag, last_record_read mgr, 0x10000)])"
  using assms by (simp add: GetLogEntries_def Let_def ERROR_BUFFER_def ERROR_SUCCESS_def)


theorem no_retry_after_growth_witness:
  "\<exists>flag. GetLogEntries demo_log [ReadFail ERROR_BUFFER 70000 True, ReadOk [demo_record 1 ''DCOM'']] (new_EventLogManager (Some 1)) =
    Some ([], new_EventLogManager (Some 1), [(flag, 0, 0x10000)])"
  using no_retry_after_growth [of "new_EventLogManager (Some 1)" demo_log 70000 "[ReadOk [demo_record 1 ''DCOM'']]"]
  by (simp add: new_EventLogManager_def)

text \<open>
  \<open>GetLogEntries\<close> returns the entry of the first record that yields one, and remembers the record before it. The next call
  therefore seeks that record; the system answers with it and its successors, and the same entry is returned again, and so on.
\<close>

theorem same_entry_again:
  assumes "event_log mgr \<noteq> None" "cache_ok api mgr" "\<forall>x \<in> set pre. entry_of api x = None" "entry_of api r = Some e"
    "pre \<noteq> []" "RecordNumber (last pre) \<noteq> 0"
  shows "\<exists>mgr1 mgr2 call. GetLogEntries api [ReadOk (pre @ r # post)] mgr = Some ([e], mgr1, [call]) \<and>
    last_record_read mgr1 = RecordNumber (last pre) \<and>
    GetLogEntries api [ReadOk (last pre # r # post)] mgr1 =
      Some ([e], mgr2, [(EVENTLOG_FORWARDS_READ OR EVENTLOG_SEEK_READ, RecordNumber (last pre), 0x10000)]) \<and>
    last_record_read mgr2 = RecordNumber (last pre)"
proof -
  obtain mgr1 where 1: "record_loop api (pre @ r # post) mgr = (Some e, mgr1)" "cache_ok api mgr1" "event_log mgr1 = event_log mgr"
      "last_record_read mgr1 = RecordNumber (last pre)"
    using record_loop_first [OF assms(2-4), of post] assms(5) by auto
  obtain mgr2 where 2: "record_loop api ([last pre] @ r # post) mgr1 = (Some e, mgr2)" "last_record_read mgr2 = RecordNumber (last pre)"
    using record_loop_first [OF 1(2), of "[last pre]" r e post] assms(3-5) by auto
  show ?thesis using 1 2 assms(1,6) by (simp add: GetLogEntries_def Let_def)
qed

theorem same_entry_again_witness:
  "\<exists>e mgr1 mgr2 call. GetLogEntries demo_log [ReadOk ([demo_record 7 ''A''] @ demo_record 8 ''DCOM'' # [demo_record 9 ''DCOM''])] (new_EventLogManager (Some 1)) =
      Some ([e], mgr1, [call]) \<and>
    GetLogEntries demo_log [ReadOk (demo_record 7 ''A'' # demo_record 8 ''DCOM'' # [demo_record 9 ''DCOM''])] mgr1 =
      Some ([e], mgr2, [(EVENTLOG_FORWARDS_READ OR EVENTLOG_SEEK_READ, 7, 0x10000)])"
proof -
  have r: "entry_of demo_log (demo_record n ''A'') = None" "\<exists>e. entry_of demo_log (demo_record n ''DCOM'') = Some e" for n
    by (simp_all add: entry_of_def demo_log_def demo_record_def wide_def FAILED_def ERROR_SUCCESS_def)
  then obtain e where e: "entry_of demo_log (demo_record 8 ''DCOM'') = Some e" by blast
  have "cache_ok demo_log (new_EventLogManager (Some 1))" by (simp add: cache_ok_def new_EventLogManager_def)
  then show ?thesis
    using same_entry_again [of "new_EventLogManager (Some 1)" demo_log "[demo_record 7 ''A'']" "demo_record 8 ''DCOM''" e "[demo_record 9 ''DCOM'']"] r(1) e
    by (auto simp: new_EventLogManager_def demo_record_def)
qed

end
