(* ===== verification/WinProcesses.thy ===== *)
theory WinProcesses
  imports WinUtil
begin

text \<open>
  The process listings of \<open>Processes.cpp\<close>. The functions of the system are the fields of a record; a listing is the processes that it
  prints, with the process handles it opens and closes in order. A failed \<open>OpenProcess\<close> returns the null handle, which the code uses
  and closes like any other.
\<close>

section \<open>Data\<close>

record process_entry =
  th32ProcessID :: uint32
  th32ParentProcessID :: uint32

record proc_api =
  EnumProcesses :: "uint32 \<Rightarrow> bool \<times> uint32 \<times> uint32 list"
  proc_OpenProcess :: "uint32 \<Rightarrow> nat"
  GetModuleFileNameExA :: "nat \<Rightarrow> uint32 \<times> string"
  GetProcessMemoryInfo :: "nat \<Rightarrow> bool"
  GetPriorityClass :: "nat \<Rightarrow> uint32"
  GetProcessTimes :: "nat \<Rightarrow> (FILETIME \<times> FILETIME) option"
  CreateToolhelp32Snapshot :: "(nat \<times> process_entry list) option"

record process_info =
  pi_name :: string
  pi_pid :: int
  pi_ppid :: "int option"
  pi_priority :: int
  pi_utime :: int
  pi_stime :: int

datatype handle_event = Opened nat | Closed nat

section \<open>The listings\<close>

text \<open>The body of both loops: what is printed, and the handles.\<close>

definition list_process :: "proc_api \<Rightarrow> uint32 \<Rightarrow> int option \<Rightarrow> process_info list \<times> handle_event list" where
  "list_process api pid ppid =
     (let proc = proc_OpenProcess api pid;
          (res, proc_name) = GetModuleFileNameExA api proc
      in if FAILED res then ([], [Opened proc, Closed proc])
         else if \<not> GetProcessMemoryInfo api proc then ([], [Opened proc, Closed proc])
         else
           let prio = GetPriorityClass api proc
           in if prio = 0 then ([], [Opened proc, Closed proc])
              else
                case GetProcessTimes api proc of
                  None \<Rightarrow> ([], [Opened proc, Closed proc])
                | Some (kernel_time, user_time) \<Rightarrow>
                    ([\<lparr>pi_name = proc_name, pi_pid = uint pid, pi_ppid = ppid, pi_priority = uint prio,
                       pi_utime = convert_filetime user_time, pi_stime = convert_filetime kernel_time\<rparr>],
                     [Opened proc, Closed proc]))"

fun list_processes :: "proc_api \<Rightarrow> (uint32 \<times> int option) list \<Rightarrow> process_info list \<times> handle_event list" where
  "list_processes api [] = ([], [])"
| "list_processes api ((pid, ppid) # ps) =
     (let (out, ev) = list_process api pid ppid;
          (outs, evs) = list_processes api ps
      in (out @ outs, ev @ evs))"

text \<open>The loop that looks for a large enough array. The answer of the last call, and how many arrays were allocated.\<close>

partial_function (option) enum_loop :: "proc_api \<Rightarrow> uint32 \<Rightarrow> nat \<Rightarrow> (uint32 list option \<times> uint32 \<times> nat) option" where
  "enum_loop api current_limit arrays =
     (let current_limit = (if current_limit = 0 then 512 else current_limit * 2)
      in case EnumProcesses api (current_limit * 4) of (ok, bytes_needed, processes) \<Rightarrow>
           let result = (if ok then Some processes else None)
           in if unat bytes_needed div 4 > unat current_limit then enum_loop api current_limit (arrays + 1)
              else Some (result, bytes_needed, arrays + 1))"

definition GetFromEnum :: "proc_api \<Rightarrow> (process_info list \<times> handle_event list) option" where
  "GetFromEnum api =
     (case enum_loop api 0 0 of
        None \<Rightarrow> None
      | Some (None, _, _) \<Rightarrow> Some ([], [])
      | Some (Some processes, bytes_needed, _) \<Rightarrow>
          Some (list_processes api (map (\<lambda>pid. (pid, None)) (take (unat bytes_needed div 4) processes))))"

text \<open>The listing by a snapshot, with the count it prints; \<open>None\<close> when there is no snapshot, an empty one returns early.\<close>

definition GetFromSnapshot :: "proc_api \<Rightarrow> (process_info list \<times> nat) option \<times> handle_event list" where
  "GetFromSnapshot api =
     (case CreateToolhelp32Snapshot api of
        None \<Rightarrow> (None, [])
      | Some (snap, []) \<Rightarrow> (None, [Opened snap, Closed snap])
      | Some (snap, e # es) \<Rightarrow>
          let (out, ev) = list_processes api (map (\<lambda>e. (th32ProcessID e, Some (uint (th32ParentProcessID e)))) (e # es))
          in (Some (out, length (e # es)), Opened snap # ev @ [Closed snap]))"

section \<open>Properties\<close>

definition opened_handles :: "handle_event list \<Rightarrow> nat multiset" where
  "opened_handles ev = mset (List.map_filter (\<lambda>e. case e of Opened h \<Rightarrow> Some h | Closed _ \<Rightarrow> None) ev)"

definition closed_handles :: "handle_event list \<Rightarrow> nat multiset" where
  "closed_handles ev = mset (List.map_filter (\<lambda>e. case e of Opened _ \<Rightarrow> None | Closed h \<Rightarrow> Some h) ev)"

lemma opened_handles_simps [simp]: "opened_handles [] = {#}" "opened_handles (Opened h # ev) = add_mset h (opened_handles ev)" "opened_handles (Closed h # ev) = opened_handles ev"
  "opened_handles (ev @ ev') = opened_handles ev + opened_handles ev'"
  by (simp_all add: opened_handles_def map_filter_def)

lemma closed_handles_simps [simp]: "closed_handles [] = {#}" "closed_handles (Opened h # ev) = closed_handles ev" "closed_handles (Closed h # ev) = add_mset h (closed_handles ev)"
  "closed_handles (ev @ ev') = closed_handles ev + closed_handles ev'"
  by (simp_all add: closed_handles_def map_filter_def)

lemma list_process_handles: "list_process api pid ppid = (out, ev) \<Longrightarrow> closed_handles ev = opened_handles ev \<and> length out \<le> 1"
  by (auto simp: list_process_def Let_def split: prod.splits if_splits option.splits)

lemma list_processes_handles: "list_processes api ps = (out, ev) \<Longrightarrow> closed_handles ev = opened_handles ev \<and> length out \<le> length ps"
proof (induction api ps arbitrary: out ev rule: list_processes.induct)
  case (2 api pid ppid ps)
  obtain o1 e1 where 1: "list_process api pid ppid = (o1, e1)" by (cases "list_process api pid ppid")
  obtain o2 e2 where 2: "list_processes api ps = (o2, e2)" by (cases "list_processes api ps")
  show ?case using list_process_handles [OF 1] "2.IH" [OF 1 [symmetric] refl 2] "2.prems" 1 2 by auto
qed simp

text \<open>
  Both listings close every handle that they open, exactly once, on all paths through the loops.
\<close>

theorem listings_close_handles:
  "(case GetFromEnum api of None \<Rightarrow> True | Some (out, ev) \<Rightarrow> closed_handles ev = opened_handles ev) \<and>
   closed_handles (snd (GetFromSnapshot api)) = opened_handles (snd (GetFromSnapshot api))"
  using list_processes_handles [of api]
  by (auto simp: GetFromEnum_def GetFromSnapshot_def simp del: list_processes.simps split: option.splits prod.splits list.splits)

text \<open>
  \<open>EnumProcesses\<close> reports the bytes it stored, which never exceed the array: the loop for a larger array then ends after the
  first turn, and the listing stops at 512 processes.
\<close>

theorem enum_stops_at_512:
  assumes "\<And>cb. unat (fst (snd (EnumProcesses api cb))) \<le> unat cb"
  shows "\<exists>out ev. GetFromEnum api = Some (out, ev) \<and> length out \<le> 512"
proof -
  obtain ok n ps where e: "EnumProcesses api 2048 = (ok, n, ps)" by (cases "EnumProcesses api 2048") auto
  then have n: "unat n \<le> 2048" using assms [of 2048] by simp
  then have l: "enum_loop api 0 0 = Some (if ok then Some ps else None, n, 1)"
    using e by (subst enum_loop.simps) (auto simp: Let_def)
  show ?thesis
  proof (cases ok)
    case True
    let ?ps = "map (\<lambda>pid. (pid, None :: int option)) (take (unat n div 4) ps)"
    obtain out ev where p: "list_processes api ?ps = (out, ev)" by (cases "list_processes api ?ps")
    then have "length out \<le> length ?ps" using list_processes_handles by blast
    then show ?thesis using l True p n by (auto simp: GetFromEnum_def)
  next
    case False
    then show ?thesis using l by (simp add: GetFromEnum_def)
  qed
qed

definition demo_procs :: proc_api where
  "demo_procs =
     \<lparr>EnumProcesses = (\<lambda>cb. (True, cb, replicate (unat cb div 4) 8)), proc_OpenProcess = unat, GetModuleFileNameExA = (\<lambda>h. (5, ''a.exe'')),
      GetProcessMemoryInfo = (\<lambda>h. True), GetPriorityClass = (\<lambda>h. 32),
      GetProcessTimes = (\<lambda>h. Some (\<lparr>dwLowDateTime = 1, dwHighDateTime = 0\<rparr>, \<lparr>dwLowDateTime = 2, dwHighDateTime = 0\<rparr>)),
      CreateToolhelp32Snapshot = None\<rparr>"

theorem enum_stops_at_512_witness: "\<exists>out ev. GetFromEnum demo_procs = Some (out, ev) \<and> length out \<le> 512"
  by (rule enum_stops_at_512) (simp add: demo_procs_def)

end
