(* ===== verification/Wmi.thy ===== *)
theory Wmi
  imports WinUtil
begin

text \<open>
  The client of Windows Management Instrumentation, \<open>WMIManager.cpp\<close>. The results of the COM calls are parameters. The life of the manager
  records the references released and the calls made through them; calling through a null pointer or through an uninitialised one is
  \<open>None\<close>. A query yields the answers of \<open>Next\<close> one after the other; a property of an object is a result code and a variant.
\<close>

section \<open>The life of a manager\<close>

datatype com_ref = Locator | Cimv2 | DefaultService

text \<open>What the constructor and the destructor do with a reference.\<close>

datatype com_event = Created com_ref | Used com_ref | Released com_ref

record com_results =
  hr_CoInitializeEx :: uint32
  hr_CoInitializeSecurity :: uint32
  hr_CoCreateInstance :: uint32
  hr_Connect_cimv2 :: uint32
  hr_Connect_default :: uint32

record WMIManager =
  locator :: bool
  cimv2_service :: bool
  default_service :: bool
  wql :: bool
  com_trace :: "com_event list"

definition null_WMIManager :: WMIManager where
  "null_WMIManager = \<lparr>locator = False, cimv2_service = False, default_service = False, wql = False, com_trace = []\<rparr>"

definition com :: "com_event \<Rightarrow> WMIManager \<Rightarrow> WMIManager" where
  "com e w = w\<lparr>com_trace := com_trace w @ [e]\<rparr>"

definition connect_cimv2 :: "uint32 \<Rightarrow> WMIManager \<Rightarrow> WMIManager" where
  "connect_cimv2 res w =
     (let w = com (Used Locator) w
      in if FAILED res then com (Released Locator) w else com (Created Cimv2) (w\<lparr>cimv2_service := True\<rparr>))"

definition connect_default :: "uint32 \<Rightarrow> WMIManager \<Rightarrow> WMIManager option" where
  "connect_default res w =
     (let w = com (Used Locator) w
      in if FAILED res
         then if cimv2_service w then Some (com (Released Locator) (com (Released Cimv2) w)) else None
         else Some (com (Created DefaultService) (w\<lparr>default_service := True\<rparr>)))"

definition new_WMIManager :: "com_results \<Rightarrow> WMIManager option" where
  "new_WMIManager hr =
     (if FAILED (hr_CoInitializeEx hr) \<or> FAILED (hr_CoInitializeSecurity hr) \<or> FAILED (hr_CoCreateInstance hr)
      then Some null_WMIManager
      else
        let w = com (Created Locator) (null_WMIManager\<lparr>locator := True\<rparr>);
            w = connect_cimv2 (hr_Connect_cimv2 hr) w
        in map_option (\<lambda>w. w\<lparr>wql := True\<rparr>) (connect_default (hr_Connect_default hr) w))"

definition destroy_WMIManager :: "WMIManager \<Rightarrow> WMIManager" where
  "destroy_WMIManager w =
     (let w = (if cimv2_service w then com (Released Cimv2) w else w);
          w = (if default_service w then com (Released DefaultService) w else w)
      in if locator w then com (Released Locator) w else w)"

section \<open>Queries\<close>

datatype variant = VT_EMPTY | VT_BSTR wstr | VT_UI8 uint32 | VT_DATE int | VT_OTHER

type_synonym wmi_object = "string \<Rightarrow> uint32 \<times> variant"

datatype next_answer = NextFailed | NextObject wmi_object

record wmi_api =
  ExecQuery :: "wstr \<Rightarrow> uint32 \<times> next_answer list"
  wmi_narrow :: "uint16 \<Rightarrow> char option"

definition SUCCEEDED :: "uint32 \<Rightarrow> bool" where
  "SUCCEEDED res \<longleftrightarrow> \<not> FAILED res"

definition GetQueryEnumerator :: "wmi_api \<Rightarrow> WMIManager \<Rightarrow> wstr \<Rightarrow> next_answer list option" where
  "GetQueryEnumerator api w query =
     (if \<not> wql w \<or> \<not> cimv2_service w then None
      else case ExecQuery api query of (res, enumerator) \<Rightarrow> if FAILED res then None else Some enumerator)"

text \<open>\<open>VariantInit(&var); obj->Get(name, ...)\<close>: the variant afterwards, when the call succeeded and it is a string.\<close>

definition get_var :: "wmi_object \<Rightarrow> string \<Rightarrow> variant" where
  "get_var obj name = (case obj name of (res, var) \<Rightarrow> if SUCCEEDED res then var else VT_EMPTY)"

definition get_bstr :: "wmi_object \<Rightarrow> string \<Rightarrow> wstr option" where
  "get_bstr obj name = (case get_var obj name of VT_BSTR s \<Rightarrow> Some s | _ \<Rightarrow> None)"

fun version_loop :: "next_answer list \<Rightarrow> wstr \<Rightarrow> wstr" where
  "version_loop (NextObject obj # as) version =
     (let version = (case get_bstr obj ''Caption'' of Some s \<Rightarrow> version @ s | None \<Rightarrow> version);
          version = (if version \<noteq> [] then version @ wide '' '' else version);
          version = (case get_bstr obj ''Version'' of Some s \<Rightarrow> version @ s | None \<Rightarrow> version)
      in version_loop as version)"
| "version_loop _ version = version"

definition GetOSVersion :: "wmi_api \<Rightarrow> WMIManager \<Rightarrow> string" where
  "GetOSVersion api w =
     (case GetQueryEnumerator api w (wide ''SELECT * from Win32_OperatingSystem'') of
        None \<Rightarrow> []
      | Some enumerator \<Rightarrow> narrow_wstring (wmi_narrow api) (version_loop enumerator []))"

record AccountInfo =
  ai_name :: string
  ai_full_name :: string
  ai_sid :: string
  ai_home_directory :: string
  is_admin :: bool
  is_system_acct :: bool

definition path_query :: "wstr \<Rightarrow> wstr" where
  "path_query sid = wide (''SELECT LocalPath from Win32_UserProfile WHERE SID = '' @ [CHR 0x22]) @ sid @ wide [CHR 0x22]"

text \<open>The home directory of a user: \<open>None\<close> when the object pointer is used although \<open>Next\<close> failed.\<close>

definition home_of :: "wmi_api \<Rightarrow> WMIManager \<Rightarrow> wstr \<Rightarrow> string option" where
  "home_of api w sid =
     (case GetQueryEnumerator api w (path_query sid) of
        None \<Rightarrow> Some []
      | Some [] \<Rightarrow> Some []
      | Some (NextFailed # _) \<Rightarrow> None
      | Some (NextObject obj # _) \<Rightarrow>
          Some (case get_bstr obj ''LocalPath'' of Some s \<Rightarrow> narrow_wstring (wmi_narrow api) s | None \<Rightarrow> []))"

text \<open>One account; \<open>None\<close>: the query is built from a variant that holds no string.\<close>

definition account_of :: "wmi_api \<Rightarrow> WMIManager \<Rightarrow> wmi_object \<Rightarrow> AccountInfo option" where
  "account_of api w obj =
     (let str = (\<lambda>name. case get_bstr obj name of Some s \<Rightarrow> narrow_wstring (wmi_narrow api) s | None \<Rightarrow> [])
      in case get_bstr obj ''SID'' of
           None \<Rightarrow> None
         | Some sid \<Rightarrow>
             (case home_of api w sid of
                None \<Rightarrow> None
              | Some home \<Rightarrow>
                  Some \<lparr>ai_name = str ''Caption'', ai_full_name = str ''FullName'', ai_sid = str ''SID'', ai_home_directory = home,
                     is_admin = False, is_system_acct = False\<rparr>))"

fun user_loop :: "wmi_api \<Rightarrow> WMIManager \<Rightarrow> next_answer list \<Rightarrow> AccountInfo list option" where
  "user_loop api w (NextObject obj # as) =
     (case account_of api w obj of None \<Rightarrow> None | Some info \<Rightarrow> map_option (Cons info) (user_loop api w as))"
| "user_loop api w _ = Some []"

definition GetUserData :: "wmi_api \<Rightarrow> WMIManager \<Rightarrow> AccountInfo list option" where
  "GetUserData api w =
     (case GetQueryEnumerator api w (wide ''SELECT Caption, FullName, SID from Win32_UserAccount'') of
        None \<Rightarrow> Some []
      | Some enumerator \<Rightarrow> user_loop api w enumerator)"

definition log_of :: "wmi_api \<Rightarrow> wmi_object \<Rightarrow> LogEntry" where
  "log_of api obj =
     (let str = (\<lambda>name. case get_bstr obj name of Some s \<Rightarrow> narrow_wstring (wmi_narrow api) s | None \<Rightarrow> [])
      in \<lparr>ts = (case get_var obj ''TimeGenerated'' of VT_DATE d \<Rightarrow> d | _ \<Rightarrow> 0),
          priority = (case get_var obj ''EventType'' of VT_UI8 n \<Rightarrow> uint n | _ \<Rightarrow> 0),
          le_source = str ''SourceName'', le_message = str ''Message''\<rparr>)"

fun log_loop :: "wmi_api \<Rightarrow> next_answer list \<Rightarrow> LogEntry list" where
  "log_loop api (NextObject obj # as) = log_of api obj # log_loop api as"
| "log_loop api _ = []"

definition GetLogs :: "wmi_api \<Rightarrow> WMIManager \<Rightarrow> LogEntry list" where
  "GetLogs api w =
     (case GetQueryEnumerator api w (wide ''SELECT TimeGenerated, SourceName, EventType, Message from Win32_NTLogEvent'') of
        None \<Rightarrow> []
      | Some enumerator \<Rightarrow> log_loop api enumerator)"

section \<open>Properties\<close>

text \<open>Every reference is created before it is used, used only until it is released, and released once.\<close>

fun trace_ok :: "com_event list \<Rightarrow> com_ref set \<Rightarrow> bool" where
  "trace_ok [] live = (live = {})"
| "trace_ok (Created r # es) live = (r \<notin> live \<and> trace_ok es (insert r live))"
| "trace_ok (Used r # es) live = (r \<in> live \<and> trace_ok es live)"
| "trace_ok (Released r # es) live = (r \<in> live \<and> trace_ok es (live - {r}))"

text \<open>
  The life of a manager. When COM cannot be initialised or both connections succeed, every reference is released exactly once and not used
  afterwards. When one connection fails, the constructor releases references that it uses again and that the destructor releases a second
  time; when both fail, it calls through a null pointer.
\<close>

theorem wmi_lifetime:
  "case new_WMIManager hr of
     None \<Rightarrow> FAILED (hr_Connect_cimv2 hr) \<and> FAILED (hr_Connect_default hr)
   | Some w \<Rightarrow>
       trace_ok (com_trace (destroy_WMIManager w)) {} \<longleftrightarrow>
         FAILED (hr_CoInitializeEx hr) \<or> FAILED (hr_CoInitializeSecurity hr) \<or> FAILED (hr_CoCreateInstance hr) \<or>
         \<not> FAILED (hr_Connect_cimv2 hr) \<and> \<not> FAILED (hr_Connect_default hr)"
  by (auto simp: new_WMIManager_def connect_cimv2_def connect_default_def destroy_WMIManager_def com_def null_WMIManager_def Let_def insert_Diff_if)

text \<open>An account without a security identifier that is a string leaves the list of users undefined.\<close>

lemma user_loop_no_sid:
  "get_bstr obj ''SID'' = None \<Longrightarrow> user_loop api w (map NextObject objs @ NextObject obj # as) = None"
  by (induction objs) (auto simp: account_of_def Let_def split: option.splits)

text \<open>The users are the accounts in the order of the query when each has an identifier and its profile query does not fail.\<close>

lemma user_loop_accounts:
  "(\<forall>obj \<in> set objs. account_of api w obj \<noteq> None) \<Longrightarrow>
   user_loop api w (map NextObject objs) = Some (map (the \<circ> account_of api w) objs)"
  by (induction objs) (auto split: option.splits)

end
