(* ===== verification/WinConsole.thy ===== *)
theory WinConsole
  imports WinSockets EventLog WinProcesses Wmi
begin

text \<open>
  The commands of \<open>ConsoleApplication1.cpp\<close> besides \<open>sockets()\<close>: what they print from the results of the managers.
\<close>

definition newline :: string where
  "newline = [CHR 0x0A]"

definition print_log :: "LogEntry \<Rightarrow> string" where
  "print_log res = lld (ts res) @ '' ('' @ lld (priority res) @ ''): '' @ le_source res @ '': '' @ le_message res @ newline"

definition print_logs :: "LogEntry list \<Rightarrow> string" where
  "print_logs result = ''got '' @ dec_nat (length result) @ '' results from event log'' @ newline @ newline @ concat (map print_log result)"

text \<open>\<open>logs()\<close>: a manager for one call; the answers are those of \<open>ReadEventLog\<close>.\<close>

definition logs :: "log_api \<Rightarrow> nat option \<Rightarrow> read_answer list \<Rightarrow> (string \<times> nat list) option" where
  "logs api handle answers =
     map_option (\<lambda>(es, elm, calls). (print_logs es, destroy_EventLogManager elm)) (GetLogEntries api answers (new_EventLogManager handle))"

definition wmi_logs :: "wmi_api \<Rightarrow> com_results \<Rightarrow> (string \<times> com_event list) option" where
  "wmi_logs api hr =
     map_option (\<lambda>mgr. (print_logs (GetLogs api mgr), com_trace (destroy_WMIManager mgr))) (new_WMIManager hr)"

definition print_user :: "AccountInfo \<Rightarrow> string" where
  "print_user user =
     newline @ ''name:      '' @ ai_name user @ newline @ ''full_name: '' @ ai_full_name user @ newline @
     ''sid:       '' @ ai_sid user @ newline @ ''home:      '' @ ai_home_directory user @ newline"

definition users :: "wmi_api \<Rightarrow> com_results \<Rightarrow> (string \<times> com_event list) option" where
  "users api hr =
     (case new_WMIManager hr of
        None \<Rightarrow> None
      | Some mgr \<Rightarrow>
          map_option (\<lambda>us. (''got '' @ dec_nat (length us) @ '' users'' @ newline @ newline @ concat (map print_user us),
              com_trace (destroy_WMIManager mgr))) (GetUserData api mgr))"

definition os_version :: "wmi_api \<Rightarrow> com_results \<Rightarrow> (string \<times> com_event list) option" where
  "os_version api hr =
     map_option (\<lambda>mgr. (GetOSVersion api mgr @ newline, com_trace (destroy_WMIManager mgr))) (new_WMIManager hr)"

lemma read_loop_one: "read_loop api as f n mgr = Some (es, mgr', calls) \<Longrightarrow> length es \<le> 1"
  by (induction api as f n mgr arbitrary: es mgr' calls rule: read_loop.induct)
    (auto simp: Let_def split: if_splits option.splits prod.splits)

text \<open>\<open>logs()\<close> prints at most one entry, however many records of the log match, and frees every library it loaded.\<close>

lemma logs_prints_one:
  assumes "logs api handle answers = Some (out, freed)"
  shows "\<exists>es. out = print_logs es \<and> length es \<le> 1"
proof -
  obtain es elm calls where g: "GetLogEntries api answers (new_EventLogManager handle) = Some (es, elm, calls)" "out = print_logs es"
    using assms by (auto simp: logs_def)
  then have "length es \<le> 1" using read_loop_one [of api answers] by (auto simp: GetLogEntries_def Let_def split: if_splits)
  then show ?thesis using g(2) by blast
qed

end
