(* ===== verification/ByteOrder.thy ===== *)
theory ByteOrder
  imports SipHash
begin

text \<open>
  \<open>bytestring_to_doublefloat.cc\<close>: floats and doubles in network byte order. A float is its 32 bits, a double its 64 bits, and the
  machine keeps the low byte first.
\<close>

definition U8TO32_LE :: "byte list \<Rightarrow> uint32" where
  "U8TO32_LE p = ucast (p ! 0) OR push_bit 8 (ucast (p ! 1)) OR push_bit 16 (ucast (p ! 2)) OR push_bit 24 (ucast (p ! 3))"

definition ntohf :: "uint32 \<Rightarrow> uint32" where
  "ntohf f = (let src = U32TO8_LE f in U8TO32_LE [src ! 3, src ! 2, src ! 1, src ! 0])"

definition ntohd :: "uint64 \<Rightarrow> uint64" where
  "ntohd d =
     (let src = U64TO8_LE d
      in U8TO64_LE [src ! 7, src ! 6, src ! 5, src ! 4, src ! 3, src ! 2, src ! 1, src ! 0])"

text \<open>The format \<open>%02x\<close> followed by a space, and the two loops of \<open>main\<close>.\<close>

definition hex_digit :: "nat \<Rightarrow> char" where
  "hex_digit n = char_of (if n < 10 then 48 + n else 87 + n)"

definition x02 :: "byte \<Rightarrow> string" where
  "x02 b = [hex_digit (unat b div 16), hex_digit (unat b mod 16), CHR '' '']"

definition print_bytes :: "byte list \<Rightarrow> string" where
  "print_bytes str = concat (map x02 str) @ [CHR 0x0A]"

definition print_floats :: "uint32 list \<Rightarrow> string" where
  "print_floats fs = concat (map (\<lambda>ff. print_bytes (U32TO8_LE (ntohf ff))) fs)"

definition print_doubles :: "uint64 list \<Rightarrow> string" where
  "print_doubles ds = concat (map (\<lambda>dd. print_bytes (U64TO8_LE (ntohd dd))) ds)"

definition print_numbers :: "uint32 list \<Rightarrow> uint64 list \<Rightarrow> string" where
  "print_numbers fs ds = print_floats fs @ [CHR 0x0A, CHR 0x0A] @ print_doubles ds"

section \<open>Lemmas\<close>

lemma eight_bytes: "length p = 8 \<Longrightarrow> p = [p ! 0, p ! 1, p ! 2, p ! 3, p ! 4, p ! 5, p ! 6, p ! 7]"
  by (auto simp: numeral_eq_Suc length_Suc_conv)

lemma U32TO8_U8TO32: "U32TO8_LE (U8TO32_LE [a, b, c, e]) = [a, b, c, e]"
  by (auto intro!: bit_word_eqI simp: U32TO8_LE_def U8TO32_LE_def bit_simps bit_byte_beyond)

lemma U8TO32_U32TO8: "U8TO32_LE (U32TO8_LE v) = v"
proof (rule bit_word_eqI)
  fix n
  assume "n < LENGTH(32)"
  then consider "n < 8" | "8 \<le> n" "n < 16" | "16 \<le> n" "n < 24" | "24 \<le> n" "n < 32" by fastforce
  then show "bit (U8TO32_LE (U32TO8_LE v)) n = bit v n"
    by cases (auto simp: U32TO8_LE_def U8TO32_LE_def bit_simps)
qed

lemma length_U32TO8_LE [simp]: "length (U32TO8_LE v) = 4"
  by (simp add: U32TO8_LE_def)

lemma ntohf_bytes: "U32TO8_LE (ntohf f) = rev (U32TO8_LE f)"
proof -
  have "U32TO8_LE (ntohf f) = [U32TO8_LE f ! 3, U32TO8_LE f ! 2, U32TO8_LE f ! 1, U32TO8_LE f ! 0]"
    unfolding ntohf_def Let_def by (rule U32TO8_U8TO32)
  also have "\<dots> = rev (U32TO8_LE f)" by (simp add: U32TO8_LE_def)
  finally show ?thesis .
qed

lemma ntohd_bytes: "U64TO8_LE (ntohd d) = rev (U64TO8_LE d)"
proof -
  let ?b = "U64TO8_LE d"
  have "U64TO8_LE (ntohd d) = [?b ! 7, ?b ! 6, ?b ! 5, ?b ! 4, ?b ! 3, ?b ! 2, ?b ! 1, ?b ! 0]"
    unfolding ntohd_def Let_def by (rule U64TO8_U8TO64) simp
  also have "\<dots> = rev [?b ! 0, ?b ! 1, ?b ! 2, ?b ! 3, ?b ! 4, ?b ! 5, ?b ! 6, ?b ! 7]" by simp
  also have "\<dots> = rev ?b" using eight_bytes [of ?b] by simp
  finally show ?thesis .
qed

section \<open>Properties\<close>

text \<open>
  The conversions between host and network order undo themselves, and what the program prints for a number are its bytes with the
  most significant one first.
\<close>

theorem network_order_roundtrip:
  "ntohf (ntohf f) = f \<and> ntohd (ntohd d) = d \<and>
   print_numbers [f] [d] = print_bytes (rev (U32TO8_LE f)) @ [CHR 0x0A, CHR 0x0A] @ print_bytes (rev (U64TO8_LE d))"
proof -
  have "U32TO8_LE (ntohf (ntohf f)) = U32TO8_LE f" "U64TO8_LE (ntohd (ntohd d)) = U64TO8_LE d"
    by (simp_all add: ntohf_bytes ntohd_bytes)
  then have "ntohf (ntohf f) = f" "ntohd (ntohd d) = d" by (metis U8TO32_U32TO8, metis U8TO64_U64TO8)
  then show ?thesis by (simp add: print_numbers_def print_floats_def print_doubles_def ntohf_bytes ntohd_bytes)
qed

end
