(* ===== verification/ConnKey.thy ===== *)
theory ConnKey
  imports HashKey "HOL-Library.List_Lexorder"
begin

text \<open>
  The connection keys of \<open>ordered_map.cpp\<close>, \<open>unordered_map_std_hash.cpp\<close> and \<open>dict/test.cc\<close>: two addresses of 16 bytes and two
  ports. The first two files compare them component by component, the third by their bytes; only the latter is an order that a
  \<open>std::map\<close> can use.
\<close>

section \<open>Memory comparison\<close>

text \<open>\<open>memcmp\<close> of the first \<open>n\<close> bytes: the standard fixes the sign of the result only.\<close>

fun memcmp :: "byte list \<Rightarrow> byte list \<Rightarrow> nat \<Rightarrow> int" where
  "memcmp (x # xs) (y # ys) (Suc n) = (if x < y then -1 else if y < x then 1 else memcmp xs ys n)"
| "memcmp _ _ _ = 0"

lemma memcmp_less: "length xs = n \<Longrightarrow> length ys = n \<Longrightarrow> memcmp xs ys n < 0 \<longleftrightarrow> xs < ys"
  by (induction xs ys n rule: memcmp.induct) (auto simp: less_le)

lemma memcmp_eq: "length xs = n \<Longrightarrow> length ys = n \<Longrightarrow> memcmp xs ys n = 0 \<longleftrightarrow> xs = ys"
  by (induction xs ys n rule: memcmp.induct) auto

section \<open>The key of \<open>ordered_map.cpp\<close>\<close>

record ConnIDKey =
  ip1 :: "byte list"
  ip2 :: "byte list"
  port1 :: uint16
  port2 :: uint16

text \<open>An \<open>in6_addr\<close> is an array of 16 bytes.\<close>

definition conn_ok :: "ConnIDKey \<Rightarrow> bool" where
  "conn_ok k \<longleftrightarrow> length (ip1 k) = 16 \<and> length (ip2 k) = 16"

definition new_ConnIDKey :: ConnIDKey where
  "new_ConnIDKey = \<lparr>ip1 = replicate 16 0, ip2 = replicate 16 0, port1 = 0, port2 = 0\<rparr>"

definition om_less :: "ConnIDKey \<Rightarrow> ConnIDKey \<Rightarrow> bool" where
  "om_less k rhs \<longleftrightarrow>
     port1 k < port1 rhs \<or> port2 k < port2 rhs \<or> memcmp (ip1 k) (ip1 rhs) 16 < 0 \<or> memcmp (ip2 k) (ip2 rhs) 16 < 0"

definition om_assign :: "ConnIDKey \<Rightarrow> ConnIDKey \<Rightarrow> ConnIDKey" where
  "om_assign k rhs =
     (let k = k\<lparr>port1 := port1 rhs\<rparr>; k = k\<lparr>port2 := port2 rhs\<rparr>; k = k\<lparr>ip1 := ip1 rhs\<rparr> in k\<lparr>ip2 := ip2 rhs\<rparr>)"

text \<open>What the comparison prints; \<open>inet_ntop\<close> is an argument.\<close>

definition conn_log :: "(byte list \<Rightarrow> string) \<Rightarrow> ConnIDKey \<Rightarrow> string" where
  "conn_log ntop k =
     ''  '' @ ntop (ip1 k) @ '':'' @ dec_nat (unat (port1 k)) @ ''  '' @ ntop (ip2 k) @ '':'' @ dec_nat (unat (port2 k)) @ [CHR 0x0A]"

definition om_less_output :: "(byte list \<Rightarrow> string) \<Rightarrow> ConnIDKey \<Rightarrow> ConnIDKey \<Rightarrow> string" where
  "om_less_output ntop k rhs = ''operator<'' @ [CHR 0x0A] @ conn_log ntop k @ conn_log ntop rhs"

section \<open>The key of \<open>dict/test.cc\<close>\<close>

text \<open>The 36 bytes of the structure, which has no padding.\<close>

definition conn_bytes :: "ConnIDKey \<Rightarrow> byte list" where
  "conn_bytes k = ip1 k @ ip2 k @ [ucast (port1 k), ucast (drop_bit 8 (port1 k)), ucast (port2 k), ucast (drop_bit 8 (port2 k))]"

definition conn_less :: "ConnIDKey \<Rightarrow> ConnIDKey \<Rightarrow> bool" where
  "conn_less k rhs \<longleftrightarrow> memcmp (conn_bytes k) (conn_bytes rhs) 36 < 0"

definition conn_equal :: "ConnIDKey \<Rightarrow> ConnIDKey \<Rightarrow> bool" where
  "conn_equal k rhs \<longleftrightarrow> memcmp (conn_bytes k) (conn_bytes rhs) 36 = 0"

definition hash_ConnIDKey :: "hash_env \<Rightarrow> ConnIDKey \<Rightarrow> uint64" where
  "hash_ConnIDKey env s = HashBytes env (conn_bytes s)"

text \<open>The keys of the benchmarks: zeroed, then the eight bytes of \<open>i\<close> at the front of both addresses.\<close>

definition complex_key :: "uint64 \<Rightarrow> ConnIDKey" where
  "complex_key i =
     (let key = new_ConnIDKey;
          key = key\<lparr>ip1 := U64TO8_LE i @ drop 8 (ip1 key)\<rparr>
      in key\<lparr>ip2 := U64TO8_LE i @ drop 8 (ip2 key)\<rparr>)"

section \<open>Lemmas\<close>

lemma length_conn_bytes: "conn_ok k \<Longrightarrow> length (conn_bytes k) = 36"
  by (simp add: conn_ok_def conn_bytes_def)

lemma uint16_bytes_inject:
  "ucast a = (ucast b :: byte) \<Longrightarrow> ucast (drop_bit 8 a) = (ucast (drop_bit 8 b) :: byte) \<Longrightarrow> a = b" for a b :: uint16
proof (rule bit_word_eqI)
  fix n
  assume l: "ucast a = (ucast b :: byte)" and h: "ucast (drop_bit 8 a) = (ucast (drop_bit 8 b) :: byte)" and n: "n < LENGTH(16)"
  show "bit a n = bit b n"
  proof (cases "n < 8")
    case True
    then show ?thesis using arg_cong [OF l, of "\<lambda>w. bit w n"] by (simp add: bit_simps)
  next
    case False
    then show ?thesis using arg_cong [OF h, of "\<lambda>w. bit w (n - 8)"] n by (auto simp: bit_simps)
  qed
qed

lemma conn_bytes_inject:
  assumes "conn_ok a" "conn_ok b" "conn_bytes a = conn_bytes b"
  shows "a = b"
proof -
  have "ip1 a = ip1 b" "ip2 a = ip2 b" "port1 a = port1 b" "port2 a = port2 b"
    using assms uint16_bytes_inject by (auto simp: conn_ok_def conn_bytes_def)
  then show ?thesis by simp
qed

lemma om_less_components:
  assumes "conn_ok a" "conn_ok b"
  shows "om_less a b \<longleftrightarrow> port1 a < port1 b \<or> port2 a < port2 b \<or> ip1 a < ip1 b \<or> ip2 a < ip2 b"
  using assms by (simp add: om_less_def conn_ok_def memcmp_less)

lemma conn_less_bytes: "conn_ok a \<Longrightarrow> conn_ok b \<Longrightarrow> conn_less a b \<longleftrightarrow> conn_bytes a < conn_bytes b"
  by (simp add: conn_less_def memcmp_less length_conn_bytes)

lemma conn_equal_eq: "conn_ok a \<Longrightarrow> conn_ok b \<Longrightarrow> conn_equal a b \<longleftrightarrow> a = b"
  using conn_bytes_inject by (auto simp: conn_equal_def memcmp_eq length_conn_bytes)

lemma complex_key_ok: "conn_ok (complex_key i)"
  by (simp add: conn_ok_def complex_key_def new_ConnIDKey_def U64TO8_LE_def U32TO8_LE_def)

lemma complex_key_inject: "complex_key i = complex_key j \<longleftrightarrow> i = j"
proof
  assume "complex_key i = complex_key j"
  then have "ip1 (complex_key i) = ip1 (complex_key j)" by simp
  then have "U64TO8_LE i = U64TO8_LE j" by (simp add: complex_key_def)
  then show "i = j" by (metis U8TO64_U64TO8)
qed simp

text \<open>Some component of \<open>a\<close> is below that of \<open>b\<close>.\<close>

definition component_below :: "ConnIDKey \<Rightarrow> ConnIDKey \<Rightarrow> bool" where
  "component_below a b \<longleftrightarrow> port1 a < port1 b \<or> port2 a < port2 b \<or> ip1 a < ip1 b \<or> ip2 a < ip2 b"

section \<open>Properties\<close>

text \<open>
  The comparison of \<open>ordered_map.cpp\<close> tells different keys apart and no key is below itself, but it is not an order: it holds
  in both directions exactly when the keys differ in opposite directions in two components.
\<close>

theorem om_less_laws:
  assumes "conn_ok a" "conn_ok b"
  shows "\<not> om_less a a \<and> (\<not> om_less a b \<and> \<not> om_less b a \<longleftrightarrow> a = b) \<and>
    (om_less a b \<and> om_less b a \<longleftrightarrow> component_below a b \<and> component_below b a)"
  using om_less_components [OF assms] om_less_components [OF assms(2,1)] om_less_components [OF assms(1,1)]
  by (auto simp: component_below_def not_less intro: ConnIDKey.equality antisym)

theorem om_less_laws_witness:
  "let a = new_ConnIDKey\<lparr>port1 := 1\<rparr>; b = new_ConnIDKey\<lparr>port2 := 1\<rparr> in om_less a b \<and> om_less b a"
proof -
  have ok: "conn_ok (new_ConnIDKey\<lparr>port1 := 1\<rparr>)" "conn_ok (new_ConnIDKey\<lparr>port2 := 1\<rparr>)"
    by (simp_all add: conn_ok_def new_ConnIDKey_def)
  show ?thesis using om_less_laws [OF ok] by (simp add: component_below_def new_ConnIDKey_def)
qed

text \<open>
  The comparison of \<open>dict/test.cc\<close> is a strict linear order of the keys, its equality is the equality of keys, and equal keys
  have equal hashes, which are SipHash digests because 36 bytes are within the limit: the keys fit both ordered and hashed maps.
\<close>

theorem conn_less_strict_linear:
  assumes "conn_ok a" "conn_ok b" "conn_ok c"
  shows "\<not> conn_less a a \<and> (conn_less a b \<and> conn_less b c \<longrightarrow> conn_less a c) \<and>
    (conn_equal a b \<longleftrightarrow> \<not> conn_less a b \<and> \<not> conn_less b a) \<and> (conn_equal a b \<longleftrightarrow> a = b) \<and>
    hash_ConnIDKey env a = siphash (conn_bytes a) (shared_siphash_key env)"
proof -
  have "conn_bytes a = conn_bytes b \<longleftrightarrow> a = b" using conn_bytes_inject [OF assms(1,2)] by blast
  then show ?thesis
    using assms conn_equal_eq [OF assms(1,2)] conn_less_bytes length_conn_bytes [OF assms(1)]
    by (auto simp: hash_ConnIDKey_def HashBytes_def UHASH_KEY_SIZE_def)
qed

theorem conn_less_strict_linear_witness:
  "conn_less (complex_key 1) (complex_key 2) \<and> \<not> conn_less (complex_key 2) (complex_key 1) \<and>
   \<not> conn_equal (complex_key 1) (complex_key 2)"
proof -
  have "conn_less (complex_key 1) (complex_key 2)" by code_simp
  then show ?thesis
    using conn_less_strict_linear [OF complex_key_ok complex_key_ok complex_key_ok, of 1 2 1]
      complex_key_inject [of 1 2] by auto
qed

end
