(* ===== verification/StdMap.thy ===== *)
theory StdMap
  imports ConnKey FifoMap
begin

text \<open>
  \<open>std::map\<close> as the drivers of \<open>dict/test.cc\<close> use it, for any comparison that orders its keys strictly and linearly. The contract
  of such a comparison is a locale; inside it, insertion, search and subscript of the ordered sequence of nodes are shown to be
  those of a finite map. It is interpreted on the order of numbers (keys \<open>int\<close> and pointers) and on the order of connection keys.
\<close>

section \<open>Operations\<close>

text \<open>\<open>operator[]\<close> of a map to pointers: the position of the entry; a new entry holds a null pointer. The statement \<open>m[k] = v\<close>.\<close>

definition smap_subscript :: "('k \<Rightarrow> 'k \<Rightarrow> bool) \<Rightarrow> ('k \<times> ptr) list \<Rightarrow> 'k \<Rightarrow> nat \<times> ('k \<times> ptr) list" where
  "smap_subscript lt xs k = (let (r, xs) = smap_insert lt xs (k, NULL) in (fst r, xs))"

definition smap_assign :: "('k \<Rightarrow> 'k \<Rightarrow> bool) \<Rightarrow> ('k \<times> ptr) list \<Rightarrow> 'k \<Rightarrow> ptr \<Rightarrow> ('k \<times> ptr) list" where
  "smap_assign lt xs k v = (let (i, xs) = smap_subscript lt xs k in xs[i := (fst (xs ! i), v)])"

text \<open>The value read by \<open>m[k]\<close>.\<close>

definition smap_read :: "('k \<Rightarrow> 'k \<Rightarrow> bool) \<Rightarrow> ('k \<times> ptr) list \<Rightarrow> 'k \<Rightarrow> ptr \<times> ('k \<times> ptr) list" where
  "smap_read lt xs k = (let (i, xs) = smap_subscript lt xs k in (snd (xs ! i), xs))"

definition smap_ok :: "('k \<Rightarrow> 'k \<Rightarrow> bool) \<Rightarrow> ('k \<Rightarrow> bool) \<Rightarrow> ('k \<times> 'v) list \<Rightarrow> bool" where
  "smap_ok lt ok xs \<longleftrightarrow> sorted_wrt (\<lambda>x y. lt (fst x) (fst y)) xs \<and> (\<forall>x \<in> set xs. ok (fst x))"

section \<open>Orders of keys\<close>

lemma smap_insert_Cons:
  "smap_insert lt (x # xs) (k, v) =
     (if lt (fst x) k then (case smap_insert lt xs (k, v) of ((i, b), ys) \<Rightarrow> ((Suc i, b), x # ys))
      else if lt k (fst x) then ((0, True), (k, v) # x # xs) else ((0, False), x # xs))"
  by (auto simp: smap_insert_def smap_lower_bound_def Let_def)

lemma smap_insert_Nil: "smap_insert lt [] (k, v) = ((0, True), [(k, v)])"
  by (simp add: smap_insert_def smap_lower_bound_def)

lemma smap_ok_Nil [simp]: "smap_ok lt ok []"
  by (simp add: smap_ok_def)

lemma smap_ok_Cons:
  "smap_ok lt ok (x # xs) \<longleftrightarrow> ok (fst x) \<and> (\<forall>y \<in> set xs. lt (fst x) (fst y)) \<and> smap_ok lt ok xs"
  by (auto simp: smap_ok_def)

text \<open>The values may change in place.\<close>

lemma smap_ok_keys: "map fst ys = map fst xs \<Longrightarrow> smap_ok lt ok ys = smap_ok lt ok xs"
  unfolding smap_ok_def sorted_wrt_map [symmetric, of lt fst]
  by (metis (no_types, lifting) image_iff list.set_map)

locale key_order =
  fixes lt :: "'k \<Rightarrow> 'k \<Rightarrow> bool"
    and ok :: "'k \<Rightarrow> bool"
  assumes irrefl: "ok a \<Longrightarrow> \<not> lt a a"
    and trans: "ok a \<Longrightarrow> ok b \<Longrightarrow> ok c \<Longrightarrow> lt a b \<Longrightarrow> lt b c \<Longrightarrow> lt a c"
    and total: "ok a \<Longrightarrow> ok b \<Longrightarrow> a \<noteq> b \<Longrightarrow> lt a b \<or> lt b a"
begin

lemma asym: "ok a \<Longrightarrow> ok b \<Longrightarrow> lt a b \<Longrightarrow> \<not> lt b a"
  using irrefl trans by blast

lemma keys_distinct: "smap_ok lt ok xs \<Longrightarrow> distinct (map fst xs)"
  by (induction xs) (use irrefl in \<open>auto simp: smap_ok_Cons\<close>)

lemma insert_laws:
  assumes "smap_ok lt ok xs" "ok k"
  obtains i ys where "smap_insert lt xs (k, v) = ((i, k \<notin> fst ` set xs), ys)" "smap_ok lt ok ys"
    "i < length ys" "fst (ys ! i) = k" "set ys = (if k \<in> fst ` set xs then set xs else insert (k, v) (set xs))"
    "length ys = (if k \<in> fst ` set xs then length xs else Suc (length xs))"
  using assms(1)
proof (induction xs arbitrary: thesis)
  case Nil
  then show ?case using assms(2) by (simp add: smap_insert_Nil smap_ok_Cons)
next
  case (Cons x xs)
  note ok = Cons.prems(2) [unfolded smap_ok_Cons]
  show ?case
  proof (cases "lt (fst x) k")
    case True
    from Cons.IH ok obtain i ys where r: "smap_insert lt xs (k, v) = ((i, k \<notin> fst ` set xs), ys)" "smap_ok lt ok ys"
      "i < length ys" "fst (ys ! i) = k" "set ys = (if k \<in> fst ` set xs then set xs else insert (k, v) (set xs))"
      "length ys = (if k \<in> fst ` set xs then length xs else Suc (length xs))"
      by blast
    have "fst x \<noteq> k" using True irrefl assms(2) by blast
    moreover have "smap_ok lt ok (x # ys)" using ok r(2,5) True by (auto simp: smap_ok_Cons)
    ultimately show ?thesis
      by (intro Cons.prems(1) [of "Suc i" "x # ys"]) (use r True in \<open>auto simp: smap_insert_Cons\<close>)
  next
    case False
    show ?thesis
    proof (cases "lt k (fst x)")
      case True
      have "\<forall>y \<in> set (x # xs). lt k (fst y)" using True ok assms(2) trans [OF assms(2)] by (auto simp: smap_ok_def)
      moreover from this have "k \<notin> fst ` set (x # xs)" using irrefl assms(2) by auto
      ultimately show ?thesis
        using Cons.prems(1) [of 0 "(k, v) # x # xs"] False True ok assms(2) by (auto simp: smap_insert_Cons smap_ok_Cons)
    next
      case no: False
      then have "fst x = k" using False total ok assms(2) by blast
      then show ?thesis using Cons.prems False no by (auto simp: smap_insert_Cons)
    qed
  qed
qed

lemma assign_laws:
  assumes "smap_ok lt ok xs" "ok k"
  shows "smap_ok lt ok (smap_assign lt xs k v)" "map_of (smap_assign lt xs k v) = (map_of xs)(k \<mapsto> v)"
    "length (smap_assign lt xs k v) = (if k \<in> fst ` set xs then length xs else Suc (length xs))"
proof -
  from insert_laws [OF assms, of NULL] obtain i ys where
    r: "smap_insert lt xs (k, NULL) = ((i, k \<notin> fst ` set xs), ys)" "smap_ok lt ok ys"
      "i < length ys" "fst (ys ! i) = k" "set ys = (if k \<in> fst ` set xs then set xs else insert (k, NULL) (set xs))"
      "length ys = (if k \<in> fst ` set xs then length xs else Suc (length xs))"
    by blast
  then have a: "smap_assign lt xs k v = ys[i := (k, v)]" by (simp add: smap_assign_def smap_subscript_def)
  have f: "map fst (ys[i := (k, v)]) = map fst ys" using r(3,4) by (simp add: map_update list_update_same_conv)
  show w: "smap_ok lt ok (smap_assign lt xs k v)" using smap_ok_keys [OF f] r(2) a by simp
  show "length (smap_assign lt xs k v) = (if k \<in> fst ` set xs then length xs else Suc (length xs))" using a r(6) by simp
  have d: "distinct (map fst xs)" "distinct (map fst ys)" "distinct (map fst (ys[i := (k, v)]))"
    using keys_distinct assms(1) r(2) w a by auto
  show "map_of (smap_assign lt xs k v) = (map_of xs)(k \<mapsto> v)"
  proof
    fix l
    have y: "map_of ys l = Some u \<longleftrightarrow> map_of xs l = Some u" if "l \<noteq> k" for u
      using that d r(5) by (auto simp: map_of_eq_Some_iff split: if_splits)
    show "map_of (smap_assign lt xs k v) l = ((map_of xs)(k \<mapsto> v)) l"
    proof (cases "l = k")
      case True
      have "(k, v) \<in> set (ys[i := (k, v)])" using r(3) by (simp add: set_update_memI)
      then show ?thesis using True a d(3) by (simp add: map_of_eq_Some_iff)
    next
      case False
      have "ys = take i ys @ (k, snd (ys ! i)) # drop (Suc i) ys" using r(3,4) by (metis id_take_nth_drop prod.collapse)
      moreover have "ys[i := (k, v)] = take i ys @ (k, v) # drop (Suc i) ys" using r(3) by (simp add: upd_conv_take_nth_drop)
      moreover have "map_of (take i ys @ (k, v) # drop (Suc i) ys) l = map_of (take i ys @ (k, snd (ys ! i)) # drop (Suc i) ys) l"
        using False by (simp add: map_add_def split: option.split)
      ultimately have "map_of (ys[i := (k, v)]) l = map_of ys l" by argo
      then show ?thesis using False a y by (metis fun_upd_other not_None_eq)
    qed
  qed
qed

lemma read_laws:
  assumes "smap_ok lt ok xs" "map_of xs k = Some v" "ok k"
  shows "smap_read lt xs k = (v, xs)"
proof -
  have k: "k \<in> fst ` set xs" using assms(2) by (metis (no_types) domI dom_map_of_conv_image_fst)
  from insert_laws [OF assms(1,3), of NULL] obtain i ys where
    r: "smap_insert lt xs (k, NULL) = ((i, k \<notin> fst ` set xs), ys)" "i < length ys" "fst (ys ! i) = k" "set ys = set xs"
    using k by metis
  have "ys = xs" using r(1) k by (auto simp: smap_insert_def Let_def split: if_splits)
  then show ?thesis
    using r assms(2) keys_distinct [OF assms(1)]
    by (auto simp: smap_read_def smap_subscript_def map_of_eq_Some_iff) (metis map_of_eq_Some_iff nth_mem option.inject prod.collapse)
qed

end

interpretation num_keys: key_order "(<) :: nat \<Rightarrow> nat \<Rightarrow> bool" "\<lambda>_. True"
  by unfold_locales auto

interpretation conn_keys: key_order conn_less conn_ok
proof
  fix a b c
  assume "conn_ok a" "conn_ok b" "conn_ok c" "conn_less a b" "conn_less b c"
  then show "conn_less a c" by (simp add: conn_less_bytes)
next
  fix a b
  assume "conn_ok a" "conn_ok b" "a \<noteq> b"
  then show "conn_less a b \<or> conn_less b a" using conn_bytes_inject by (metis conn_less_bytes linorder_neqE)
qed (simp add: conn_less_bytes)

end
