(* ===== verification/DictDriver.thy ===== *)
theory DictDriver
  imports StdMap DictIter
begin

text \<open>
  The drivers of \<open>dict/test.cc\<close>: each fills a container, some look every key up again or walk the container. The number \<open>n\<close> of
  rounds (1000000 or \<open>LOOKUP_LENGTH\<close> in the code) is an argument, as are the clock, the addresses of the values that \<open>new int(i)\<close>
  returns and the addresses of the strings. A driver returns its container or what it read, with what it writes to \<open>stdout\<close> and
  \<open>stderr\<close>.
\<close>

section \<open>Time\<close>

type_synonym timespec = "int \<times> int"

definition nanoseconds :: "timespec \<Rightarrow> uint64" where
  "nanoseconds ts = of_int (fst ts * 1000000000 + snd ts)"

definition eol :: string where
  "eol = [CHR 0x0A]"

text \<open>The line of one round, between two readings of the clock.\<close>

definition time_line :: "(nat \<Rightarrow> timespec) \<Rightarrow> nat \<Rightarrow> string" where
  "time_line clock i = dec_nat i @ '','' @ dec_nat (unat (nanoseconds (clock (i + 1)) - nanoseconds (clock i))) @ eol"

definition time_lines :: "(nat \<Rightarrow> timespec) \<Rightarrow> nat \<Rightarrow> string" where
  "time_lines clock n = concat (map (time_line clock) [0..<n])"

definition elapsed :: "(nat \<Rightarrow> timespec) \<Rightarrow> nat \<Rightarrow> string \<Rightarrow> string" where
  "elapsed clock n what =
     ''Time for '' @ dec_nat n @ '' '' @ what @ '' (us): '' @ dec_nat (unat (nanoseconds (clock 1) - nanoseconds (clock 0))) @ eol"

definition LOOKUP_LENGTH :: nat where
  "LOOKUP_LENGTH = 50"

section \<open>Containers of the standard library and \<open>fifo_map\<close>\<close>

definition regular :: "nat \<Rightarrow> (nat \<times> nat) list \<times> string" where
  "regular n =
     (let m = fold (\<lambda>i m. snd (smap_insert (<) m (i, i))) [0..<n] []
      in (m, ''std::map'' @ eol @ ''Final size: '' @ dec_nat (length m) @ eol))"

text \<open>A \<open>std::unordered_map\<close> by its entries, in no particular order.\<close>

definition umap_emplace :: "('k \<times> 'v) list \<Rightarrow> 'k \<Rightarrow> 'v \<Rightarrow> ('k \<times> 'v) list" where
  "umap_emplace m k v = (if k \<in> fst ` set m then m else (k, v) # m)"

definition unordered :: "(nat \<Rightarrow> timespec) \<Rightarrow> nat \<Rightarrow> (nat \<times> nat) list \<times> string \<times> string" where
  "unordered clock n =
     (let m = fold (\<lambda>i m. umap_emplace m i i) [0..<n] []
      in (m, time_lines clock n, ''std::unordered_map'' @ eol @ ''Final size: '' @ dec_nat (length m) @ eol))"

definition fifo_driver :: "nat \<Rightarrow> (nat, nat) fifo \<times> string" where
  "fifo_driver n =
     (let m = fold (\<lambda>i m. snd (fifo_emplace m i i)) [0..<n] (fifo_new (\<lambda>_. Map.empty) 0)
      in (m, ''nlohmann::fifo_map'' @ eol @ ''Final size: '' @ dec_nat (fifo_size m) @ eol))"

text \<open>One round of \<open>create_regular\<close>: the third value finds its key taken.\<close>

definition create_regular_round :: "(nat \<Rightarrow> ptr) \<Rightarrow> (nat \<times> ptr) list" where
  "create_regular_round vals =
     (let m = snd (smap_insert (<) [] (0, vals 0));
          m = snd (smap_insert (<) m (1, vals 1))
      in snd (smap_insert (<) m (1, vals 2)))"

definition create_regular :: "(nat \<Rightarrow> timespec) \<Rightarrow> nat \<Rightarrow> (nat \<Rightarrow> nat \<Rightarrow> ptr) \<Rightarrow> (nat \<times> ptr) list list \<times> string \<times> string" where
  "create_regular clock n vals =
     (map (\<lambda>i. create_regular_round (vals i)) [0..<n], time_lines clock n, ''Create std::map'' @ eol)"

text \<open>The maps from strings hold the pointers \<open>keys[i].c_str()\<close>, compared as pointers.\<close>

definition fill_map :: "(nat \<Rightarrow> nat) \<Rightarrow> (nat \<Rightarrow> ptr) \<Rightarrow> nat \<Rightarrow> (nat \<times> ptr) list" where
  "fill_map strs vals n = fold (\<lambda>i m. smap_assign (<) m (strs i) (vals i)) [0..<n] []"

fun read_map :: "(nat \<Rightarrow> nat) \<Rightarrow> nat list \<Rightarrow> (nat \<times> ptr) list \<Rightarrow> ptr list \<times> (nat \<times> ptr) list" where
  "read_map strs [] m = ([], m)"
| "read_map strs (i # is) m = (let (v, m) = smap_read (<) m (strs i); (vs, m) = read_map strs is m in (v # vs, m))"

definition lookup_map :: "(nat \<Rightarrow> timespec) \<Rightarrow> (nat \<Rightarrow> nat) \<Rightarrow> (nat \<Rightarrow> ptr) \<Rightarrow> nat \<Rightarrow> ptr list \<times> string \<times> string" where
  "lookup_map clock strs vals n =
     (let m = fill_map strs vals n;
          (results, m) = read_map strs (rev [0..<n]) m
      in (results, elapsed clock n ''lookups'', ''std::map lookup'' @ eol))"

definition iterate_map :: "(nat \<Rightarrow> timespec) \<Rightarrow> (nat \<Rightarrow> nat) \<Rightarrow> (nat \<Rightarrow> ptr) \<Rightarrow> nat \<Rightarrow> ptr list \<times> string \<times> string" where
  "iterate_map clock strs vals n =
     (let m = fill_map strs vals n
      in (map snd m, elapsed clock n ''iterations'', ''std::map iterate'' @ eol))"

definition fill_fifo :: "(nat \<Rightarrow> nat) \<Rightarrow> (nat \<Rightarrow> ptr) \<Rightarrow> nat \<Rightarrow> (nat, ptr) fifo" where
  "fill_fifo strs vals n =
     fold (\<lambda>i m. fifo_assign NULL m (strs i) (vals i)) [0..<n] (fifo_new (\<lambda>_. Map.empty) 0)"

fun read_fifo :: "(nat \<Rightarrow> nat) \<Rightarrow> nat list \<Rightarrow> (nat, ptr) fifo \<Rightarrow> ptr list \<times> (nat, ptr) fifo" where
  "read_fifo strs [] m = ([], m)"
| "read_fifo strs (i # is) m =
     (let (p, m) = fifo_subscript NULL m (strs i);
          v = snd (nodes (m_map (snd m)) ! p);
          (vs, m) = read_fifo strs is m
      in (v # vs, m))"

definition lookup_fifo :: "(nat \<Rightarrow> timespec) \<Rightarrow> (nat \<Rightarrow> nat) \<Rightarrow> (nat \<Rightarrow> ptr) \<Rightarrow> nat \<Rightarrow> ptr list \<times> string \<times> string" where
  "lookup_fifo clock strs vals n =
     (let m = fill_fifo strs vals n;
          (results, m) = read_fifo strs (rev [0..<n]) m
      in (results, elapsed clock n ''lookups'', ''nlohmann::fifo_map lookup'' @ eol))"

definition iterate_fifo :: "(nat \<Rightarrow> timespec) \<Rightarrow> (nat \<Rightarrow> nat) \<Rightarrow> (nat \<Rightarrow> ptr) \<Rightarrow> nat \<Rightarrow> ptr list \<times> string \<times> string" where
  "iterate_fifo clock strs vals n =
     (let m = fill_fifo strs vals n
      in (map snd (nodes (m_map (snd m))), elapsed clock n ''iterations'', ''nlohmann::fifo_map iterate'' @ eol))"

definition umap_assign :: "('k \<times> 'v) list \<Rightarrow> 'k \<Rightarrow> 'v \<Rightarrow> ('k \<times> 'v) list" where
  "umap_assign m k v = (if k \<in> fst ` set m then map (\<lambda>(l, u). if l = k then (l, v) else (l, u)) m else (k, v) # m)"

definition umap_read :: "(nat \<times> ptr) list \<Rightarrow> nat \<Rightarrow> ptr \<times> (nat \<times> ptr) list" where
  "umap_read m k = (case map_of m k of Some v \<Rightarrow> (v, m) | None \<Rightarrow> (NULL, (k, NULL) # m))"

definition fill_unordered :: "(nat \<Rightarrow> nat) \<Rightarrow> (nat \<Rightarrow> ptr) \<Rightarrow> nat \<Rightarrow> (nat \<times> ptr) list" where
  "fill_unordered strs vals n = fold (\<lambda>i m. umap_assign m (strs i) (vals i)) [0..<n] []"

fun read_unordered :: "(nat \<Rightarrow> nat) \<Rightarrow> nat list \<Rightarrow> (nat \<times> ptr) list \<Rightarrow> ptr list \<times> (nat \<times> ptr) list" where
  "read_unordered strs [] m = ([], m)"
| "read_unordered strs (i # is) m = (let (v, m) = umap_read m (strs i); (vs, m) = read_unordered strs is m in (v # vs, m))"

definition lookup_unordered :: "(nat \<Rightarrow> timespec) \<Rightarrow> (nat \<Rightarrow> nat) \<Rightarrow> (nat \<Rightarrow> ptr) \<Rightarrow> nat \<Rightarrow> ptr list \<times> string \<times> string" where
  "lookup_unordered clock strs vals n =
     (let m = fill_unordered strs vals n;
          (results, m) = read_unordered strs (rev [0..<n]) m
      in (results, elapsed clock n ''lookups'', ''std::unordered_map lookup'' @ eol))"

definition complex_unordered :: "(nat \<Rightarrow> timespec) \<Rightarrow> nat \<Rightarrow> (ConnIDKey \<times> nat) list \<times> string" where
  "complex_unordered clock n =
     (fold (\<lambda>i m. umap_emplace m (complex_key (of_nat i)) i) [0..<n] [], time_lines clock n)"

definition complex_regular :: "(nat \<Rightarrow> timespec) \<Rightarrow> nat \<Rightarrow> (ConnIDKey \<times> nat) list \<times> string" where
  "complex_regular clock n =
     (fold (\<lambda>i m. snd (smap_insert conn_less m (complex_key (of_nat i), i))) [0..<n] [], time_lines clock n)"

section \<open>Dictionaries\<close>

text \<open>The loop that makes a key and inserts a value under it; the key object is not deleted.\<close>

fun fill_dict :: "(heap \<Rightarrow> nat \<Rightarrow> HashKey \<times> heap) \<Rightarrow> (nat \<Rightarrow> ptr) \<Rightarrow> nat list \<Rightarrow> heap \<Rightarrow> Dictionary \<Rightarrow>
    dict_error + heap \<times> Dictionary" where
  "fill_dict mk vals [] h d = Inr (h, d)"
| "fill_dict mk vals (i # is) h d =
     (let (k, h) = mk h i
      in case Insert_HashKey h d k (vals i) of
           (Inl err, _, _) \<Rightarrow> Inl err
         | (Inr (_, d), _, h) \<Rightarrow> fill_dict mk vals is h d)"

definition int_key :: "hash_env \<Rightarrow> heap \<Rightarrow> nat \<Rightarrow> HashKey \<times> heap" where
  "int_key env h i = (HashKey_int env (of_nat i), h)"

text \<open>\<open>keys[i] = std::to_string(i)\<close>, whose buffer is at \<open>strs i\<close>, and a key for its characters.\<close>

definition c_str :: "nat \<Rightarrow> byte list" where
  "c_str i = map of_char (dec_nat i) @ [0]"

definition str_key :: "hash_env \<Rightarrow> (nat \<Rightarrow> nat) \<Rightarrow> heap \<Rightarrow> nat \<Rightarrow> HashKey \<times> heap" where
  "str_key env strs h i =
     (let h = h\<lparr>blocks := (blocks h)(strs i \<mapsto> c_str i)\<rparr> in (HashKey_str env h (strs i), h))"

text \<open>The structure is a local variable of the round.\<close>

definition conn_key :: "hash_env \<Rightarrow> heap \<Rightarrow> nat \<Rightarrow> HashKey \<times> heap" where
  "conn_key env h i =
     (let (a, h) = new_block h (conn_bytes (complex_key (of_nat i)));
          (k, h) = HashKey_bytes env h a 36
      in (k, delete_block h a))"

definition dict_driver :: "(nat \<Rightarrow> timespec) \<Rightarrow> hash_env \<Rightarrow> (nat \<Rightarrow> ptr) \<Rightarrow> heap \<Rightarrow> nat \<Rightarrow> dict_error + Dictionary \<times> string \<times> string" where
  "dict_driver clock env vals h n =
     (case fill_dict (int_key env) vals [0..<n] h (new_Dictionary UNORDERED 0) of
        Inl err \<Rightarrow> Inl err
      | Inr (h, d) \<Rightarrow> Inr (d, time_lines clock n, ''Dictionary'' @ eol @ ''Final size: '' @ lld (Length d) @ eol))"

text \<open>One round of \<open>create_dict\<close>.\<close>

definition create_dict_round :: "hash_env \<Rightarrow> (nat \<Rightarrow> ptr) \<Rightarrow> heap \<Rightarrow> dict_error + heap \<times> Dictionary" where
  "create_dict_round env vals h = fill_dict (int_key env) vals [0, 1, 2] h (new_Dictionary UNORDERED 0)"

definition complex_dict :: "(nat \<Rightarrow> timespec) \<Rightarrow> hash_env \<Rightarrow> (nat \<Rightarrow> ptr) \<Rightarrow> heap \<Rightarrow> nat \<Rightarrow> dict_error + Dictionary \<times> string" where
  "complex_dict clock env vals h n =
     (case fill_dict (conn_key env) vals [0..<n] h (new_Dictionary UNORDERED 0) of
        Inl err \<Rightarrow> Inl err
      | Inr (h, d) \<Rightarrow> Inr (d, time_lines clock n))"

fun lookup_strings :: "hash_env \<Rightarrow> (nat \<Rightarrow> nat) \<Rightarrow> heap \<Rightarrow> nat list \<Rightarrow> Dictionary \<Rightarrow> ptr list \<times> Dictionary" where
  "lookup_strings env strs h [] d = ([], d)"
| "lookup_strings env strs h (i # is) d =
     (let (v, d) = PDict_Lookup env h d (strs i); (vs, d) = lookup_strings env strs h is d in (v # vs, d))"

definition lookup_dict :: "(nat \<Rightarrow> timespec) \<Rightarrow> hash_env \<Rightarrow> (nat \<Rightarrow> nat) \<Rightarrow> (nat \<Rightarrow> ptr) \<Rightarrow> heap \<Rightarrow> nat \<Rightarrow>
    dict_error + ptr list \<times> string \<times> string" where
  "lookup_dict clock env strs vals h n =
     (case fill_dict (str_key env strs) vals [0..<n] h (new_Dictionary UNORDERED 0) of
        Inl err \<Rightarrow> Inl err
      | Inr (h, d) \<Rightarrow>
          (case lookup_strings env strs h (rev [0..<n]) d of
             (results, d) \<Rightarrow> Inr (results, elapsed clock n ''lookups'', ''Dictionary lookup'' @ eol)))"

text \<open>
  The loop \<open>while ( (entry = d.NextEntry(c)) )\<close> with a bound on the number of calls: it ends at the first null pointer.
\<close>

fun next_loop :: "nat \<Rightarrow> Dictionary \<Rightarrow> nat \<Rightarrow> (dict_error + ptr list \<times> Dictionary) option" where
  "next_loop 0 d c = None"
| "next_loop (Suc n) d c =
     (case NextEntry d c of
        Inl err \<Rightarrow> Some (Inl err)
      | Inr (EndOfIteration, d) \<Rightarrow> Some (Inr ([], d))
      | Inr (Entry v k h, d) \<Rightarrow>
          if v = NULL then Some (Inr ([], d))
          else (case next_loop n d c of
                  Some (Inr (vs, d)) \<Rightarrow> Some (Inr (v # vs, d))
                | r \<Rightarrow> r))"

definition iterate_dict :: "nat \<Rightarrow> (nat \<Rightarrow> timespec) \<Rightarrow> hash_env \<Rightarrow> (nat \<Rightarrow> nat) \<Rightarrow> (nat \<Rightarrow> ptr) \<Rightarrow> heap \<Rightarrow> nat \<Rightarrow>
    (dict_error + ptr list \<times> Dictionary \<times> string \<times> string) option" where
  "iterate_dict fuel clock env strs vals h n =
     (case fill_dict (str_key env strs) vals [0..<n] h (new_Dictionary UNORDERED 0) of
        Inl err \<Rightarrow> Some (Inl err)
      | Inr (h, d) \<Rightarrow>
          (case InitForIteration d of (c, d) \<Rightarrow>
            (case next_loop fuel d c of
               None \<Rightarrow> None
             | Some (Inl err) \<Rightarrow> Some (Inl err)
             | Some (Inr (entries, d)) \<Rightarrow>
                 Some (Inr (entries, d, elapsed clock n ''iterations'', ''Dictionary iterate'' @ eol)))))"

section \<open>The choice of a driver\<close>

datatype test_choice =
    Unordered | Regular | Dict | Fifo | CreateRegular | CreateDict | LookupMap | LookupUnordered | LookupFifo | LookupDict
  | IterateMap | IterateUnordered | IterateFifo | IterateDict | ComplexRegular | ComplexUnordered | ComplexDict

text \<open>\<open>main\<close>: the exit status \<open>-1\<close> (\<open>Inl\<close>) unless there is one argument, else the driver that runs, if any.\<close>

definition starts_with :: "char \<Rightarrow> string \<Rightarrow> bool" where
  "starts_with c s \<longleftrightarrow> s \<noteq> [] \<and> hd s = c"

definition test_main :: "string list \<Rightarrow> int + test_choice option" where
  "test_main argv =
     (if length argv \<noteq> 2 then Inl (-1)
      else
        let a = argv ! 1
        in Inr (if starts_with CHR ''u'' a then Some Unordered
                else if starts_with CHR ''r'' a then Some Regular
                else if starts_with CHR ''d'' a then Some Dict
                else if starts_with CHR ''f'' a then Some Fifo
                else if a = ''cr'' then Some CreateRegular
                else if a = ''cd'' then Some CreateDict
                else if a = ''lr'' then Some LookupMap
                else if a = ''lu'' then Some LookupUnordered
                else if a = ''lf'' then Some LookupFifo
                else if a = ''ld'' then Some LookupDict
                else if a = ''ir'' then Some IterateMap
                else if a = ''iu'' then Some IterateUnordered
                else if a = ''if'' then Some IterateFifo
                else if a = ''id'' then Some IterateDict
                else if a = ''cpr'' then Some ComplexRegular
                else if a = ''cpu'' then Some ComplexUnordered
                else if a = ''cpd'' then Some ComplexDict
                else None))"


section \<open>Filling maps\<close>

definition fold_upd :: "('i \<Rightarrow> 'k) \<Rightarrow> ('i \<Rightarrow> 'v) \<Rightarrow> 'i list \<Rightarrow> ('k \<Rightarrow> 'v option) \<Rightarrow> 'k \<Rightarrow> 'v option" where
  "fold_upd K V is m = fold (\<lambda>i m. m(K i \<mapsto> V i)) is m"

lemma fold_upd_in:
  assumes "inj_on K (set is)" "i \<in> set is"
  shows "fold_upd K V is m (K i) = Some (V i)"
  using assms
proof (induction "is" rule: rev_induct)
  case (snoc j js)
  then show ?case by (cases "i = j") (auto simp: fold_upd_def inj_on_def)
qed simp

lemma fold_upd_out: "k \<notin> K ` set is \<Longrightarrow> fold_upd K V is m k = m k"
  by (induction "is" arbitrary: m) (auto simp: fold_upd_def)

lemma dom_fold_upd: "dom (fold_upd K V is m) = K ` set is \<union> dom m"
  by (induction "is" arbitrary: m) (auto simp: fold_upd_def)

lemma fill_map_assigns:
  "smap_ok (<) (\<lambda>_. True) m \<Longrightarrow>
   smap_ok (<) (\<lambda>_. True) (fold (\<lambda>i m. smap_assign (<) m (strs i) (vals i)) is m) \<and>
   map_of (fold (\<lambda>i m. smap_assign (<) m (strs i) (vals i)) is m) = fold_upd strs vals is (map_of m)"
  for strs :: "'i \<Rightarrow> nat"
  by (induction "is" arbitrary: m) (auto simp: fold_upd_def num_keys.assign_laws)

lemma smap_insert_end: "(\<And>x. x \<in> set xs \<Longrightarrow> lt (fst x) k) \<Longrightarrow> smap_insert lt xs (k, v) = ((length xs, True), xs @ [(k, v)])"
  by (simp add: smap_insert_def smap_lower_bound_def takeWhile_eq_all_conv [THEN iffD2])

lemma fill_map_ascending:
  "strict_mono_on {0..<n} strs \<Longrightarrow> fill_map strs vals n = map (\<lambda>i. (strs i, vals i)) [0..<n]"
proof (induction n)
  case 0
  then show ?case by (simp add: fill_map_def)
next
  case (Suc n)
  let ?xs = "map (\<lambda>i. (strs i, vals i)) [0..<n]"
  have "strs i < strs n" if "i < n" for i using strict_mono_onD [OF Suc.prems] that by simp
  then have "smap_insert (<) ?xs (strs n, NULL) = ((n, True), ?xs @ [(strs n, NULL)])"
    using smap_insert_end [of ?xs "(<)" "strs n" NULL] by force
  then have "smap_assign (<) ?xs (strs n) (vals n) = ?xs @ [(strs n, vals n)]"
    by (simp add: smap_assign_def smap_subscript_def nth_append list_update_append)
  moreover have "strict_mono_on {0..<n} strs" using Suc.prems by (simp add: monotone_on_def)
  ultimately show ?case using Suc.IH by (simp add: fill_map_def)
qed

lemma read_map_finds:
  assumes "smap_ok (<) (\<lambda>_. True) m" "\<And>i. i \<in> set is \<Longrightarrow> map_of m (strs i) = Some (vals i)"
  shows "read_map strs is m = (map vals is, m)"
  using assms(2) by (induction "is") (simp_all add: num_keys.read_laws [OF assms(1)])

lemma map_of_umap_assign: "map_of (umap_assign m k v) = (map_of m)(k \<mapsto> v)"
proof -
  have "map_of (map (\<lambda>(l, u). if l = k then (l, v) else (l, u)) m) = (if k \<in> fst ` set m then (map_of m)(k \<mapsto> v) else map_of m)"
    by (induction m) (auto simp: fun_eq_iff)
  then show ?thesis by (simp add: umap_assign_def)
qed

lemma fill_unordered_assigns:
  "map_of (fold (\<lambda>i m. umap_assign m (strs i) (vals i)) is m) = fold_upd strs vals is (map_of m)"
  by (induction "is" arbitrary: m) (auto simp: fold_upd_def map_of_umap_assign)

lemma read_unordered_finds:
  "(\<And>i. i \<in> set is \<Longrightarrow> map_of m (strs i) = Some (vals i)) \<Longrightarrow> read_unordered strs is m = (map vals is, m)"
  by (induction "is") (simp_all add: umap_read_def)

lemma fill_fifo_entries:
  "inj_on strs {0..<n} \<Longrightarrow>
   fifo_ok (fill_fifo strs vals n) \<and> fifo_entries (fill_fifo strs vals n) = map (\<lambda>i. (strs i, vals i)) [0..<n]"
proof (induction n)
  case 0
  then show ?case by (simp add: fill_fifo_def fifo_new_ok)
next
  case (Suc n)
  have "strs n \<notin> fst ` set (map (\<lambda>i. (strs i, vals i)) [0..<n])"
    using inj_on_image_mem_iff [OF Suc.prems, of n "{0..<n}"] by (simp add: image_image)
  moreover have "inj_on strs {0..<n}" using Suc.prems by (rule inj_on_subset) simp
  ultimately show ?case
    using Suc.IH fifo_assign_ok [of "fill_fifo strs vals n" NULL "strs n" "vals n"] by (simp add: fill_fifo_def al_assign_def)
qed

lemma read_fifo_finds:
  "fifo_ok m \<Longrightarrow> (\<And>i. i \<in> set is \<Longrightarrow> map_of (fifo_entries m) (strs i) = Some (vals i)) \<Longrightarrow>
   fst (read_fifo strs is m) = map vals is"
proof (induction "is" arbitrary: m)
  case Nil
  then show ?case by simp
next
  case (Cons i "is")
  have k: "strs i \<in> fst ` set (fifo_entries m)"
    using Cons.prems(2) [of i] by (metis domI dom_map_of_conv_image_fst list.set_intros(1))
  obtain m' where m': "fifo_insert m (strs i, NULL) = ((key_index (fifo_entries m) (strs i), False), m')" "fifo_ok m'"
      "fifo_entries m' = fifo_entries m"
    using fifo_insert_ok [OF Cons.prems(1), of "strs i" NULL] k by (auto simp: al_insert_def)
  have "snd (fifo_entries m ! key_index (fifo_entries m) (strs i)) = vals i"
    using map_of_key_index [of "fifo_entries m" "strs i"] Cons.prems(2) [of i] by (simp split: if_splits)
  moreover have "fst (read_fifo strs is m') = map vals is" using Cons.IH [OF m'(2)] Cons.prems(2) m'(3) by simp
  ultimately show ?case
    using m'(1,3) by (simp add: fifo_subscript_insert Let_def case_prod_beta) (simp add: fifo_entries_def)
qed

end
