(* ===== verification/DictDriverProps.thy ===== *)
theory DictDriverProps
  imports DictDriver
begin

text \<open>
  The drivers of \<open>dict/test.cc\<close> that use dictionaries, against the abstract map. The three ways in which they make keys are
  instances of one locale: a source of keys delivers a valid key with known bytes and hash, and goes on doing so after the
  dictionary has taken the key. The properties compare the containers.
\<close>

section \<open>Sources of keys\<close>

definition fill_ops :: "(nat \<Rightarrow> byte list) \<Rightarrow> (nat \<Rightarrow> uint64) \<Rightarrow> (nat \<Rightarrow> ptr) \<Rightarrow> nat list \<Rightarrow> (byte list \<times> uint64) map_op list" where
  "fill_ops kb hs vals is = map (\<lambda>i. InsertOp (kb i, hs i) (vals i)) is"

definition lookup_ops :: "(nat \<Rightarrow> byte list) \<Rightarrow> (nat \<Rightarrow> uint64) \<Rightarrow> nat list \<Rightarrow> (byte list \<times> uint64) map_op list" where
  "lookup_ops kb hs is = map (\<lambda>i. LookupOp (kb i, hs i)) is"

lemma dict_step_iterators:
  assumes "dict_inv d" "dict_ok d x" "num_iterators d = c" "dict_step d x = Inr (r, d')"
  shows "num_iterators d' = c"
proof -
  have w: "wf_dict d" "remap_safe d" "order d = None" "iterators_robust d"
    using assms(1,2) by (auto simp: dict_inv_def dict_ok_def)
  show ?thesis
  proof (cases x)
    case (LookupOp q)
    obtain key h where q: "q = (key, h)" by force
    from Lookup_law [OF w(1), of key h] show ?thesis
      using assms(3,4) same_rest_fields(1) by (auto simp: LookupOp q)
  next
    case (InsertOp q v)
    obtain key h where q: "q = (key, h)" by force
    have "num_entries d < 65535" "length key < 65536" using assms(2) by (auto simp: dict_ok_def InsertOp q)
    from Insert_law [OF w this, of h v] show ?thesis
      using assms(3,4) by (auto simp: InsertOp q iter_same_def)
  next
    case (RemoveOp q)
    obtain key h where q: "q = (key, h)" by force
    from Remove_law [OF w, of key h] show ?thesis
      using assms(3,4) by (auto simp: RemoveOp q iter_same_def)
  qed
qed

text \<open>What the dictionary holds after a run of insertions.\<close>

lemma filled_dict:
  assumes g: "run_guarded dict_ok dict_step (new_Dictionary UNORDERED 0) (fill_ops kb hs vals [0..<n])"
    and inj: "inj_on kb {0..<n}"
  obtains rs d where "run_ops dict_step (new_Dictionary UNORDERED 0) (fill_ops kb hs vals [0..<n]) = Inr (rs, d)"
    "dict_inv d" "num_iterators d = 0" "dict_map d = fold_upd (\<lambda>i. (ucast (hs i), kb i)) vals [0..<n] Map.empty"
    "Length d = int n"
proof -
  let ?K = "\<lambda>i. (ucast (hs i) :: uint32, kb i)"
  obtain rs d where
    d: "run_ops dict_step (new_Dictionary UNORDERED 0) (fill_ops kb hs vals [0..<n]) = Inr (rs, d)" "dict_inv d"
      "map_run Map.empty (map (map_map_op dict_key) (fill_ops kb hs vals [0..<n])) = (rs, dict_map d)"
    using dict.run_refines [OF new_Dictionary_inv g] by (auto simp: new_Dictionary_map)
  have "map (map_map_op dict_key) (fill_ops kb hs vals [0..<n]) = map (\<lambda>i. InsertOp (?K i) (vals i)) [0..<n]"
    by (simp add: fill_ops_def dict_key_def)
  then have m: "dict_map d = fold_upd ?K vals [0..<n] Map.empty"
    using d(3) map_run_inserts [of Map.empty ?K vals "[0..<n]"] by (simp add: fold_upd_def)
  have "num_iterators d = 0"
    by (rule dict.run_keeps [where P = "\<lambda>d. num_iterators d = 0", OF _ new_Dictionary_inv g _ d(1)])
      (auto intro: dict_step_iterators simp: new_Dictionary_def Let_def)
  moreover have "card (?K ` {0..<n}) = n" using inj by (subst card_image) (auto simp: inj_on_def)
  then have "Length d = int n"
    using Length_card_keys [of d] d(2) by (simp add: dict_inv_def m dom_fold_upd)
  ultimately show thesis using that d(1,2) m by blast
qed

locale key_source =
  fixes idx :: "nat set"
    and mk :: "heap \<Rightarrow> nat \<Rightarrow> HashKey \<times> heap"
    and pre :: "nat list \<Rightarrow> heap \<Rightarrow> bool"
    and kb :: "nat \<Rightarrow> byte list"
    and hs :: "nat \<Rightarrow> uint64"
  assumes source: "pre js h \<Longrightarrow> i \<in> idx \<Longrightarrow> mk h i = (k, h') \<Longrightarrow> hk_ok h' k \<and> key_bytes h' k = kb i \<and> hk_hash k = hs i"
    and taken: "pre js h \<Longrightarrow> i \<in> idx \<Longrightarrow> mk h i = (k, h') \<Longrightarrow> TakeKey h' k = (a, k', h'') \<Longrightarrow> pre (i # js) h''"
begin

lemma fill_run:
  "pre js h \<Longrightarrow> set is \<subseteq> idx \<Longrightarrow> run_ops dict_step d (fill_ops kb hs vals is) = Inr (rs, d') \<Longrightarrow>
   \<exists>h'. fill_dict mk vals is h d = Inr (h', d') \<and> pre (rev is @ js) h'"
proof (induction "is" arbitrary: js h d rs)
  case Nil
  then show ?case by (simp add: fill_ops_def)
next
  case (Cons i "is")
  obtain k h1 where k: "mk h i = (k, h1)" by force
  obtain a k' h2 where t: "TakeKey h1 k = (a, k', h2)" by (metis prod_cases3)
  have i: "i \<in> idx" "set is \<subseteq> idx" using Cons.prems(2) by auto
  note src = source [OF Cons.prems(1) i(1) k]
  have "take (hk_size k') (the (blocks h2 a)) = kb i" "hk_hash k' = hs i"
    using TakeKey_block(2,5,6) [OF _ t] src by auto
  then have ins: "Insert_HashKey h1 d k (vals i) = (Dictionary_Insert d (kb i) (hs i) (vals i), k', h2)"
    using t by (simp add: Insert_HashKey_def)
  from Cons.prems(3) obtain r d1 rs1 where
    s: "Dictionary_Insert d (kb i) (hs i) (vals i) = Inr (r, d1)" "run_ops dict_step d1 (fill_ops kb hs vals is) = Inr (rs1, d')"
    by (auto simp: fill_ops_def split: sum.splits)
  from Cons.IH [OF taken [OF Cons.prems(1) i(1) k t] i(2) s(2)] show ?case using k ins s(1) by auto
qed

lemma filled:
  assumes "pre [] h" "run_guarded dict_ok dict_step (new_Dictionary UNORDERED 0) (fill_ops kb hs vals [0..<n])"
    and "inj_on kb {0..<n}" "{0..<n} \<subseteq> idx"
  obtains h' d rs where "fill_dict mk vals [0..<n] h (new_Dictionary UNORDERED 0) = Inr (h', d)" "pre (rev [0..<n]) h'"
    "run_ops dict_step (new_Dictionary UNORDERED 0) (fill_ops kb hs vals [0..<n]) = Inr (rs, d)"
    "dict_inv d" "num_iterators d = 0" "dict_map d = fold_upd (\<lambda>i. (ucast (hs i), kb i)) vals [0..<n] Map.empty"
    "Length d = int n"
proof -
  obtain rs d where
    d: "run_ops dict_step (new_Dictionary UNORDERED 0) (fill_ops kb hs vals [0..<n]) = Inr (rs, d)"
      "dict_inv d" "num_iterators d = 0" "dict_map d = fold_upd (\<lambda>i. (ucast (hs i), kb i)) vals [0..<n] Map.empty"
      "Length d = int n"
    by (rule filled_dict [OF assms(2,3)])
  obtain h' where h': "fill_dict mk vals [0..<n] h (new_Dictionary UNORDERED 0) = Inr (h', d)" "pre (rev [0..<n] @ []) h'"
    using fill_run [OF assms(1) _ d(1)] assms(4) by auto
  show thesis by (rule that [OF h'(1) _ d]) (use h'(2) in simp)
qed

end

section \<open>The three sources\<close>

interpretation int_keys: key_source UNIV "int_key env" "\<lambda>_. heap_ok" "\<lambda>i. U64TO8_LE (of_nat i)"
  "\<lambda>i. HashBytes env (U64TO8_LE (of_nat i))" for env
proof
  fix h i k h'
  assume "heap_ok h" "int_key env h i = (k, h')"
  then show "hk_ok h' k \<and> key_bytes h' k = U64TO8_LE (of_nat i) \<and> hk_hash k = HashBytes env (U64TO8_LE (of_nat i))"
    by (auto simp: int_key_def hk_ok_def HashKey_int_def deref_def key_bytes_def)
next
  fix h i k h' a k' h''
  assume "heap_ok h" "int_key env h i = (k, h')" "TakeKey h' k = (a, k', h'')"
  then show "heap_ok h''"
    by (auto simp: int_key_def HashKey_int_def TakeKey_def CopyKey_def new_block_def heap_ok_def)
qed

definition conn_source_bytes :: "nat \<Rightarrow> byte list" where
  "conn_source_bytes i = conn_bytes (complex_key (of_nat i))"

interpretation struct_keys: key_source UNIV "conn_key env" "\<lambda>_. heap_ok" conn_source_bytes
  "\<lambda>i. HashBytes env (conn_source_bytes i)" for env
proof
  fix h i k h'
  assume a: "heap_ok h" "conn_key env h i = (k, h')"
  have "length (conn_source_bytes i) = 36" using length_conn_bytes complex_key_ok by (simp add: conn_source_bytes_def)
  with a show "hk_ok h' k \<and> key_bytes h' k = conn_source_bytes i \<and> hk_hash k = HashBytes env (conn_source_bytes i)"
    by (auto simp: conn_key_def HashKey_bytes_def CopyKey_def new_block_def delete_block_def hk_ok_def heap_ok_def deref_def
        key_bytes_def conn_source_bytes_def)
next
  fix h i k h' a k' h''
  assume "heap_ok h" "conn_key env h i = (k, h')" "TakeKey h' k = (a, k', h'')"
  then show "heap_ok h''"
    by (auto simp: conn_key_def HashKey_bytes_def CopyKey_def new_block_def delete_block_def heap_ok_def TakeKey_def)
qed

definition str_bytes :: "nat \<Rightarrow> byte list" where
  "str_bytes i = map of_char (dec_nat i)"

definition str_pre :: "(nat \<Rightarrow> nat) \<Rightarrow> nat \<Rightarrow> nat list \<Rightarrow> heap \<Rightarrow> bool" where
  "str_pre strs n js h \<longleftrightarrow> heap_ok h \<and> inj_on strs {0..<n} \<and> (\<forall>i < n. strs i < next_block h) \<and>
     (\<forall>i \<in> set js. i < n \<and> blocks h (strs i) = Some (c_str i))"

lemma unat_of_char: "unat (of_char c :: byte) = of_char c"
proof -
  have "(of_char c :: byte) = of_nat (of_char c)" by (simp add: of_nat_of_char)
  moreover have "of_char c < (256 :: nat)" by (metis nat_of_char_less_256)
  ultimately show ?thesis by (simp add: unat_of_nat)
qed

lemma c_str_chars: "takeWhile (\<lambda>c. c \<noteq> 0) (c_str i) = str_bytes i"
proof -
  have "(of_char c :: byte) \<noteq> 0" if "c \<in> set (dec_nat i)" for c
    using dec_nat_digits [OF that] unat_of_char [of c] by (metis not_numeral_le_zero unat_0)
  then show ?thesis unfolding c_str_def str_bytes_def by (subst takeWhile_append2) auto
qed

lemma inj_str_bytes: "inj str_bytes"
proof (rule injI)
  fix i j
  assume "str_bytes i = str_bytes j"
  then have "map unat (map of_char (dec_nat i) :: byte list) = map unat (map of_char (dec_nat j) :: byte list)"
    by (simp only: str_bytes_def)
  then have "map (of_char :: char \<Rightarrow> nat) (dec_nat i) = map of_char (dec_nat j)"
    by (simp only: map_map o_def unat_of_char)
  then have "dec_nat i = dec_nat j" by (rule map_injective) (simp add: inj_of_char)
  then show "i = j" by (simp add: dec_nat_inject)
qed

interpretation str_keys: key_source "{0..<n}" "str_key env strs" "str_pre strs n" str_bytes "\<lambda>i. HashBytes env (str_bytes i)"
  for env strs n
proof
  fix js h i k h'
  assume a: "str_pre strs n js h" "i \<in> {0..<n}" "str_key env strs h i = (k, h')"
  then have h': "h' = h\<lparr>blocks := (blocks h)(strs i \<mapsto> c_str i)\<rparr>" "k = HashKey_str env h' (strs i)"
    by (auto simp: str_key_def Let_def)
  have b: "heap_ok h'" "blocks h' (strs i) = Some (c_str i)"
    using a(1,2) h'(1) by (auto simp: heap_ok_def str_pre_def dest: leD)
  then show "hk_ok h' k \<and> key_bytes h' k = str_bytes i \<and> hk_hash k = HashBytes env (str_bytes i)"
    using HashKey_str_ok [of h' "strs i" env] key_bytes_str [of h' env "strs i"] hash_str [of env h' "strs i"] h'(2)
    by (simp add: c_str_chars)
next
  fix js h i k h' a k' h''
  assume p: "str_pre strs n js h" and i: "i \<in> {0..<n}" and k: "str_key env strs h i = (k, h')" and t: "TakeKey h' k = (a, k', h'')"
  have h': "h' = h\<lparr>blocks := (blocks h)(strs i \<mapsto> c_str i)\<rparr>" "k = HashKey_str env h' (strs i)"
    using k by (auto simp: str_key_def Let_def)
  then have "heap_ok h'" "blocks h' (strs i) \<noteq> None" using p i by (auto simp: heap_ok_def str_pre_def dest: leD)
  then have ok: "hk_ok h' k" using HashKey_str_ok h'(2) by simp
  have n: "next_block h'' = Suc (next_block h)" "a = next_block h"
    using t h' by (auto simp: TakeKey_def HashKey_str_def Let_def CopyKey_def new_block_def)
  have b: "blocks h'' (strs j) = (if j = i then Some (c_str i) else blocks h (strs j))" if "j < n" for j
    using TakeKey_block(4) [OF ok t, of "strs j"] p n(2) that i inj_onD [of strs "{0..<n}" j i] h'(1)
    by (auto simp: str_pre_def less_imp_neq)
  then show "str_pre strs n (i # js) h''"
    using TakeKey_block(1) [OF ok t] p n(1) i by (auto simp: str_pre_def less_SucI)
qed

section \<open>Lookups and iteration\<close>

lemma lookup_strings_run:
  "(\<And>i. i \<in> set is \<Longrightarrow> blocks h (strs i) = Some (c_str i)) \<Longrightarrow>
   run_ops dict_step d (lookup_ops str_bytes (\<lambda>i. HashBytes env (str_bytes i)) is) = Inr (lookup_strings env strs h is d)"
proof (induction "is" arbitrary: d)
  case Nil
  then show ?case by (simp add: lookup_ops_def)
next
  case (Cons i "is")
  then have "PDict_Lookup env h d (strs i) = Dictionary_Lookup d (str_bytes i) (HashBytes env (str_bytes i))"
    using key_bytes_str [of h env "strs i"] hash_str [of env h "strs i"]
    by (simp add: PDict_Lookup_def Lookup_HashKey_def c_str_chars)
  moreover have "run_ops dict_step e (lookup_ops str_bytes (\<lambda>i. HashBytes env (str_bytes i)) is) = Inr (lookup_strings env strs h is e)" for e
    using Cons by simp
  ultimately show ?case by (simp add: lookup_ops_def case_prod_beta)
qed

fun entry_value :: "next_result \<Rightarrow> ptr" where
  "entry_value (Entry v k h) = v"
| "entry_value EndOfIteration = NULL"

lemma next_loop_iterate:
  "iterate n d c = Some (Inr (xs, d')) \<Longrightarrow> (\<And>x. x \<in> set xs \<Longrightarrow> entry_value x \<noteq> NULL) \<Longrightarrow>
   next_loop n d c = Some (Inr (map entry_value xs, d'))"
proof (induction n arbitrary: d xs)
  case 0
  then show ?case by simp
next
  case (Suc n)
  show ?case
  proof (cases "NextEntry d c")
    case (Inl err)
    then show ?thesis using Suc.prems(1) by simp
  next
    case (Inr q)
    obtain r d1 where q: "q = (r, d1)" by force
    show ?thesis
    proof (cases r)
      case EndOfIteration
      then show ?thesis using Suc.prems(1) Inr q by auto
    next
      case (Entry v k h)
      then obtain ys where ys: "iterate n d1 c = Some (Inr (ys, d'))" "xs = Entry v k h # ys"
        using Suc.prems(1) Inr q by (auto split: option.splits sum.splits)
      then have "next_loop n d1 c = Some (Inr (map entry_value ys, d'))" "v \<noteq> NULL"
        using Suc.IH Suc.prems(2) by force+
      then show ?thesis using Inr q Entry ys(2) by simp
    qed
  qed
qed

text \<open>The values in the table are those of the map.\<close>

lemma mset_values:
  assumes "keys_unique t" "map_of (assoc t) = fold_upd K vals [0..<n] Map.empty" "inj_on K {0..<n}"
  shows "mset (map snd (assoc t)) = mset (map vals [0..<n])"
proof -
  let ?ys = "map (\<lambda>i. (K i, vals i)) [0..<n]"
  have d: "distinct (map fst (assoc t))" "distinct (map fst ?ys)"
    using assms(1,3) by (simp_all add: keys_unique_def distinct_map o_def)
  have "map_of ?ys = fold_upd K vals [0..<n] Map.empty"
  proof
    fix k
    show "map_of ?ys k = fold_upd K vals [0..<n] Map.empty k"
    proof (cases "k \<in> K ` {0..<n}")
      case True
      then obtain i where "i < n" "k = K i" by auto
      then show ?thesis using d(2) fold_upd_in [of K "[0..<n]" i vals Map.empty] assms(3) by (simp add: map_of_eq_Some_iff)
    next
      case False
      then have "map_of ?ys k = None" by (auto simp: map_of_eq_None_iff)
      then show ?thesis using fold_upd_out [of k K "[0..<n]" vals Map.empty] False by simp
    qed
  qed
  then have "set (assoc t) = set ?ys" using map_of_inject_set [OF d] assms(2) by simp
  moreover have "distinct (assoc t)" "distinct ?ys" using d by (simp_all only: distinct_map)
  ultimately have "mset (assoc t) = mset ?ys" using set_eq_iff_mset_eq_distinct by blast
  then have e: "mset (map snd (assoc t)) = mset (map snd ?ys)" unfolding mset_map by (rule arg_cong)
  have "map snd ?ys = map vals [0..<n]" by (simp add: o_def)
  then show ?thesis by (rule subst) (rule e)
qed

section \<open>Properties\<close>

abbreviation str_fill :: "hash_env \<Rightarrow> (nat \<Rightarrow> ptr) \<Rightarrow> nat \<Rightarrow> (byte list \<times> uint64) map_op list" where
  "str_fill env vals n \<equiv> fill_ops str_bytes (\<lambda>i. HashBytes env (str_bytes i)) vals [0..<n]"

abbreviation str_lookups :: "hash_env \<Rightarrow> nat \<Rightarrow> (byte list \<times> uint64) map_op list" where
  "str_lookups env n \<equiv> lookup_ops str_bytes (\<lambda>i. HashBytes env (str_bytes i)) (rev [0..<n])"

lemma str_filled:
  assumes "str_pre strs n [] h" "run_guarded dict_ok dict_step (new_Dictionary UNORDERED 0) (str_fill env vals n)"
  obtains h' d rs where "fill_dict (str_key env strs) vals [0..<n] h (new_Dictionary UNORDERED 0) = Inr (h', d)"
    "str_pre strs n (rev [0..<n]) h'"
    "run_ops dict_step (new_Dictionary UNORDERED 0) (str_fill env vals n) = Inr (rs, d)"
    "dict_inv d" "num_iterators d = 0" "Length d = int n"
    "dict_map d = fold_upd (\<lambda>i. (ucast (HashBytes env (str_bytes i)), str_bytes i)) vals [0..<n] Map.empty"
  by (rule str_keys.filled [OF assms]) (auto intro: inj_on_subset [OF inj_str_bytes])

text \<open>
  C8. Looking up every key again, from the last to the first, the map, the unordered map, the insertion-ordered map and the
  dictionary all return the value stored for it.
\<close>

theorem lookups_agree:
  assumes "heap_ok h" "inj_on strs {0..<n}" "\<forall>i < n. strs i < next_block h"
    and "run_guarded dict_ok dict_step (new_Dictionary UNORDERED 0) (str_fill env vals n @ str_lookups env n)"
  shows "fst (lookup_map clock strs vals n) = map vals (rev [0..<n]) \<and>
    fst (lookup_unordered clock strs vals n) = map vals (rev [0..<n]) \<and>
    fst (lookup_fifo clock strs vals n) = map vals (rev [0..<n]) \<and>
    (\<exists>out. lookup_dict clock env strs vals h n = Inr (map vals (rev [0..<n]), out))"
proof (intro conjI)
  have up: "fold_upd strs vals [0..<n] Map.empty (strs i) = Some (vals i)" if "i \<in> set (rev [0..<n])" for i
    using fold_upd_in [of strs "[0..<n]" i vals] assms(2) that by simp
  note m = fill_map_assigns [OF smap_ok_Nil, of strs vals "[0..<n]"]
  show "fst (lookup_map clock strs vals n) = map vals (rev [0..<n])"
    using read_map_finds [of "fill_map strs vals n" "rev [0..<n]" strs vals] m up
    by (simp add: lookup_map_def fill_map_def)
  show "fst (lookup_unordered clock strs vals n) = map vals (rev [0..<n])"
    using read_unordered_finds [of "rev [0..<n]" "fill_unordered strs vals n" strs vals] up
    by (simp add: lookup_unordered_def fill_unordered_def fill_unordered_assigns)
  have "map_of (map (\<lambda>i. (strs i, vals i)) [0..<n]) (strs i) = Some (vals i)" if "i \<in> set (rev [0..<n])" for i
    using that assms(2) by (subst map_of_eq_Some_iff) (auto simp: distinct_map o_def)
  then show "fst (lookup_fifo clock strs vals n) = map vals (rev [0..<n])"
    using read_fifo_finds [of "fill_fifo strs vals n" "rev [0..<n]" strs vals] fill_fifo_entries [OF assms(2), of vals]
    by (simp add: lookup_fifo_def case_prod_beta)
next
  let ?hs = "\<lambda>i. HashBytes env (str_bytes i)"
  let ?K = "\<lambda>i. (ucast (?hs i) :: uint32, str_bytes i)"
  have p: "str_pre strs n [] h" using assms(1-3) by (simp add: str_pre_def)
  have g: "run_guarded dict_ok dict_step (new_Dictionary UNORDERED 0) (str_fill env vals n)"
    using assms(4) by (simp add: run_guarded_append)
  obtain h' d rs where d: "fill_dict (str_key env strs) vals [0..<n] h (new_Dictionary UNORDERED 0) = Inr (h', d)"
    "str_pre strs n (rev [0..<n]) h'" "run_ops dict_step (new_Dictionary UNORDERED 0) (str_fill env vals n) = Inr (rs, d)"
    "dict_inv d" "num_iterators d = 0" "Length d = int n" "dict_map d = fold_upd ?K vals [0..<n] Map.empty"
    by (rule str_filled [OF p g])
  have "run_guarded dict_ok dict_step d (str_lookups env n)" using assms(4) d(3) by (simp add: run_guarded_append)
  then obtain vs d' where r: "run_ops dict_step d (str_lookups env n) = Inr (vs, d')"
      "map_run (dict_map d) (map (map_map_op dict_key) (str_lookups env n)) = (vs, dict_map d')"
    using dict.run_refines [OF d(4)] by blast
  have ops: "map (map_map_op dict_key) (str_lookups env n) = map (\<lambda>i. LookupOp (?K i)) (rev [0..<n])"
    by (simp add: lookup_ops_def dict_key_def)
  have "map (\<lambda>i. value_or_null (dict_map d (?K i))) (rev [0..<n]) = vs"
    using r(2) unfolding ops map_run_lookups by (rule Pair_inject)
  moreover have "inj_on ?K {0..<n}" using inj_str_bytes by (auto simp: inj_on_def inj_def)
  then have "value_or_null (dict_map d (?K i)) = vals i" if "i < n" for i
    using fold_upd_in [of ?K "[0..<n]" i vals Map.empty] that by (simp add: d(7) value_or_null_def)
  ultimately have vs: "vs = map vals (rev [0..<n])" by (auto simp: rev_map [symmetric])
  have "run_ops dict_step d (str_lookups env n) = Inr (lookup_strings env strs h' (rev [0..<n]) d)"
    by (rule lookup_strings_run) (use d(2) in \<open>simp add: str_pre_def\<close>)
  then have "lookup_strings env strs h' (rev [0..<n]) d = (vs, d')" using r(1) by simp
  then show "\<exists>out. lookup_dict clock env strs vals h n = Inr (map vals (rev [0..<n]), out)"
    by (simp add: lookup_dict_def d(1) vs)
qed

definition demo_strings :: heap where
  "demo_strings = \<lparr>blocks = Map.empty, next_block = 3\<rparr>"

text \<open>The first insertion, whatever its hash, leaves no growth unfinished.\<close>

lemma first_insert:
  "\<exists>d. Dictionary_Insert (new_Dictionary UNORDERED 0) k h v = Inr (0, d) \<and> remaps d = 0 \<and> num_entries d = 1"
  by (simp add: Dictionary_Insert_def iterators_robust_def new_Dictionary_def Init_def Capacity_def LookupIndex_def LookupIndexIn_def
      lookup_loop.simps fresh_slot_def SetEmpty_def Empty_def BucketByHash_def prev_loop.simps insert_new_def
      InsertRelocateAndAdjust_def InsertAndRelocate.simps update_cookies_def new_DictEntry_def set_slot_def Remapping_def
      ThresholdEntries_def DICT_THRESHOLD_BITS_def TOO_FAR_TO_REACH_def)

lemma first_ops_guarded:
  assumes "length (kb 0) < 65536" "length (kb 1) < 65536"
  shows "run_guarded dict_ok dict_step (new_Dictionary UNORDERED 0) (fill_ops kb hs vals [0..<2])"
    "run_guarded dict_ok dict_step (new_Dictionary UNORDERED 0) (fill_ops kb hs vals [0..<1] @ lookup_ops kb hs (rev [0..<1]))"
proof -
  obtain d where d: "Dictionary_Insert (new_Dictionary UNORDERED 0) (kb 0) (hs 0) (vals 0) = Inr (0, d)" "remaps d = 0" "num_entries d = 1"
    using first_insert by blast
  have n: "remaps (new_Dictionary UNORDERED 0) = 0" "num_entries (new_Dictionary UNORDERED 0) = 0" by (simp_all add: new_Dictionary_def)
  have u: "[0..<2] = [0, 1 :: nat]" by (simp add: upt_rec)
  show "run_guarded dict_ok dict_step (new_Dictionary UNORDERED 0) (fill_ops kb hs vals [0..<2])"
    using assms d n by (simp add: u fill_ops_def dict_ok_def remap_safe_def split: sum.split)
  show "run_guarded dict_ok dict_step (new_Dictionary UNORDERED 0) (fill_ops kb hs vals [0..<1] @ lookup_ops kb hs (rev [0..<1]))"
    using assms(1) d n by (simp add: fill_ops_def lookup_ops_def dict_ok_def remap_safe_def)
qed

lemma demo_strings_pre: "heap_ok demo_strings" "i < 3 \<Longrightarrow> id i < next_block demo_strings"
  by (simp_all add: demo_strings_def heap_ok_def)

lemma str_bytes_short: "length (str_bytes 0) < 65536" "length (str_bytes 1) < 65536"
  by (simp_all add: str_bytes_def dec_nat.simps)

theorem lookups_agree_witness:
  "fst (lookup_fifo (\<lambda>_. (0, 0)) id ((+) 100) 1) = [100] \<and>
   (\<exists>out. lookup_dict (\<lambda>_. (0, 0)) demo_env id ((+) 100) demo_strings 1 = Inr ([100], out))"
proof -
  have "\<forall>i < 1. id i < next_block demo_strings" using demo_strings_pre(2) by simp
  from lookups_agree [where clock = "\<lambda>_. (0, 0)" and vals = "(+) 100" and env = demo_env,
      OF demo_strings_pre(1) inj_on_id this first_ops_guarded(2) [OF str_bytes_short]]
  show ?thesis by (simp add: id_def)
qed

text \<open>
  C9. Iterating, the map lists the values by ascending address of their strings and the insertion-ordered map in the order of
  insertion, which is the same here; the loop over the dictionary ends, without an iterator left behind, after it has seen every
  value exactly once.
\<close>

theorem iterations_agree:
  assumes "heap_ok h" "strict_mono_on {0..<n} strs" "\<forall>i < n. strs i < next_block h" "0 < n" "\<forall>i. vals i \<noteq> NULL"
    and "run_guarded dict_ok dict_step (new_Dictionary UNORDERED 0) (str_fill env vals n)"
  shows "fst (iterate_map clock strs vals n) = map vals [0..<n] \<and> fst (iterate_fifo clock strs vals n) = map vals [0..<n] \<and>
    (\<exists>fuel entries d out. iterate_dict fuel clock env strs vals h n = Some (Inr (entries, d, out)) \<and>
       mset entries = mset (map vals [0..<n]) \<and> num_iterators d = 0)"
proof (intro conjI)
  have inj: "inj_on strs {0..<n}" using assms(2) by (rule strict_mono_on_imp_inj_on)
  show "fst (iterate_map clock strs vals n) = map vals [0..<n]"
    using fill_map_ascending [OF assms(2)] by (simp add: iterate_map_def o_def)
  show "fst (iterate_fifo clock strs vals n) = map vals [0..<n]"
    using fill_fifo_entries [OF inj, of vals] by (simp add: iterate_fifo_def fifo_entries_def o_def)
  let ?K = "\<lambda>i. (ucast (HashBytes env (str_bytes i)) :: uint32, str_bytes i)"
  have p: "str_pre strs n [] h" using assms(1,3) inj by (simp add: str_pre_def)
  obtain h' d rs where d: "fill_dict (str_key env strs) vals [0..<n] h (new_Dictionary UNORDERED 0) = Inr (h', d)"
    "str_pre strs n (rev [0..<n]) h'" "run_ops dict_step (new_Dictionary UNORDERED 0) (str_fill env vals n) = Inr (rs, d)"
    "dict_inv d" "num_iterators d = 0" "Length d = int n" "dict_map d = fold_upd ?K vals [0..<n] Map.empty"
    by (rule str_filled [OF p assms(6)])
  obtain c d1 where i: "InitForIteration d = (c, d1)" by force
  have w: "wf_dict d" "table d \<noteq> []"
    using d(4,6) assms(4) by (auto simp: dict_inv_def wf_dict_def Length_def)
  then have ku: "keys_unique (table d)" by (simp add: wf_dict_def shape_def)
  let ?xs = "map entry_result (filter (\<lambda>e. \<not> Empty e) (table d))"
  from iterate_all [OF w _ i] d(5) obtain d' where
    it: "iterate (cap d + 2) d1 c = Some (Inr (?xs, d'))" "num_iterators d' = 0" by auto
  have v: "map entry_value ?xs = map snd (assoc (table d))" by (simp add: assoc_def kv_def entry_result_def o_def)
  have m: "mset (map snd (assoc (table d))) = mset (map vals [0..<n])"
    by (rule mset_values [OF ku, of ?K]) (use d(7) inj_str_bytes in \<open>auto simp: dict_map_def inj_on_def inj_def\<close>)
  have "entry_value x \<noteq> NULL" if "x \<in> set ?xs" for x
  proof -
    have "entry_value x \<in> set (map entry_value ?xs)" using that by auto
    then have "entry_value x \<in> set (map vals [0..<n])" unfolding v using mset_eq_setD [OF m] by simp
    then show ?thesis using assms(5) by auto
  qed
  from next_loop_iterate [OF it(1) this]
  have "next_loop (cap d + 2) d1 c = Some (Inr (map snd (assoc (table d)), d'))" by (simp only: v)
  then show "\<exists>fuel entries d out. iterate_dict fuel clock env strs vals h n = Some (Inr (entries, d, out)) \<and>
       mset entries = mset (map vals [0..<n]) \<and> num_iterators d = 0"
    using d(1) i it(2) m by (intro exI [of _ "cap d + 2"]) (simp add: iterate_dict_def)
qed

theorem iterations_agree_witness:
  "fst (iterate_map (\<lambda>_. (0, 0)) id ((+) 100) 2) = [100, 101] \<and>
   (\<exists>fuel entries d out. iterate_dict fuel (\<lambda>_. (0, 0)) demo_env id ((+) 100) demo_strings 2 = Some (Inr (entries, d, out)) \<and>
      mset entries = {#100, 101#} \<and> num_iterators d = 0)"
proof -
  have p: "strict_mono_on {0..<2} (id :: nat \<Rightarrow> nat)" "\<forall>i < 2. id i < next_block demo_strings" "0 < (2 :: nat)"
      "\<forall>i. (100 :: nat) + i \<noteq> NULL"
    using demo_strings_pre(2) by (simp_all add: strict_mono_on_def)
  have u: "[0..<2] = [0, 1 :: nat]" by (simp add: upt_rec)
  from iterations_agree [where clock = "\<lambda>_. (0, 0)" and env = demo_env,
      OF demo_strings_pre(1) p first_ops_guarded(1) [OF str_bytes_short], unfolded u]
  show ?thesis by (simp add: id_def)
qed

lemma regular_entries: "fst (regular n) = map (\<lambda>i. (i, i)) [0..<n]"
proof (induction n)
  case 0
  then show ?case by (simp add: regular_def)
next
  case (Suc n)
  have "smap_insert (<) (map (\<lambda>i. (i, i)) [0..<n]) (n, n) = ((n, True), map (\<lambda>i. (i, i)) [0..<n] @ [(n, n)])"
    using smap_insert_end [of "map (\<lambda>i. (i, i)) [0..<n]" "(<)" n n] by force
  then show ?case using Suc by (simp add: regular_def Let_def)
qed

lemma unordered_entries: "fst (unordered clock n) = rev (map (\<lambda>i. (i, i)) [0..<n])"
proof (induction n)
  case 0
  then show ?case by (simp add: unordered_def)
next
  case (Suc n)
  have "n \<notin> fst ` set (rev (map (\<lambda>i. (i, i)) [0..<n]))" by auto
  then show ?case using Suc by (simp add: unordered_def Let_def umap_emplace_def)
qed

lemma fifo_driver_entries: "fifo_ok (fst (fifo_driver n)) \<and> fifo_entries (fst (fifo_driver n)) = map (\<lambda>i. (i, i)) [0..<n]"
proof (induction n)
  case 0
  then show ?case by (simp add: fifo_driver_def Let_def fifo_new_ok)
next
  case (Suc n)
  have "n \<notin> fst ` set (map (\<lambda>i. (i, i)) [0..<n])" by auto
  then show ?case
    using Suc fifo_insert_ok [of "fst (fifo_driver n)" n n] by (auto simp: fifo_driver_def Let_def fifo_emplace_insert al_insert_def)
qed

lemma inj_on_of_nat: "n \<le> 2 ^ 64 \<Longrightarrow> inj_on (of_nat :: nat \<Rightarrow> uint64) {0..<n}"
  by (auto simp: inj_on_def word_of_nat_eq_iff take_bit_nat_eq_self)

lemma complex_regular_keys:
  assumes "n \<le> 2 ^ 64"
  shows "smap_ok conn_less conn_ok (fst (complex_regular clock n)) \<and>
    set (fst (complex_regular clock n)) = (\<lambda>i. (complex_key (of_nat i), i)) ` {0..<n} \<and> length (fst (complex_regular clock n)) = n"
  using assms
proof (induction n)
  case 0
  then show ?case by (simp add: complex_regular_def)
next
  case (Suc n)
  let ?m = "fst (complex_regular clock n)"
  have ih: "smap_ok conn_less conn_ok ?m" "set ?m = (\<lambda>i. (complex_key (of_nat i), i)) ` {0..<n}" "length ?m = n"
    using Suc by auto
  have "of_nat i \<noteq> (of_nat n :: uint64)" if "i < n" for i
    using inj_onD [OF inj_on_of_nat [OF Suc.prems], of i n] that by auto
  then have "complex_key (of_nat n) \<notin> fst ` set ?m" unfolding ih(2) image_image fst_conv using complex_key_inject by fastforce
  then obtain i ys where "smap_insert conn_less ?m (complex_key (of_nat n), n) = ((i, True), ys)" "smap_ok conn_less conn_ok ys"
      "set ys = insert (complex_key (of_nat n), n) (set ?m)" "length ys = Suc n"
    using conn_keys.insert_laws [OF ih(1) complex_key_ok [of "of_nat n"], of n] ih(3) by (metis (full_types))
  then show ?case using ih(2) by (simp add: complex_regular_def atLeast0_lessThan_Suc)
qed

text \<open>
  After \<open>n\<close> rounds every container of the benchmark holds \<open>n\<close> entries: the three maps over \<open>int\<close>, the map over connection keys,
  the dictionary over \<open>int\<close> keys and the one over connection keys, each with the value of its round under the key of the round.
\<close>

theorem filled_sizes:
  assumes "heap_ok h" "n \<le> 2 ^ 64"
    and "run_guarded dict_ok dict_step (new_Dictionary UNORDERED 0)
      (fill_ops (\<lambda>i. U64TO8_LE (of_nat i)) (\<lambda>i. HashBytes env (U64TO8_LE (of_nat i))) vals [0..<n])"
    and "run_guarded dict_ok dict_step (new_Dictionary UNORDERED 0)
      (fill_ops conn_source_bytes (\<lambda>i. HashBytes env (conn_source_bytes i)) vals [0..<n])"
  shows "length (fst (regular n)) = n \<and> length (fst (unordered clock n)) = n \<and> fifo_size (fst (fifo_driver n)) = n \<and>
    length (fst (complex_regular clock n)) = n \<and>
    (\<exists>d out. dict_driver clock env vals h n = Inr (d, out) \<and> Length d = int n \<and>
      (\<forall>i < n. dict_map d (ucast (HashBytes env (U64TO8_LE (of_nat i))), U64TO8_LE (of_nat i)) = Some (vals i))) \<and>
    (\<exists>d out. complex_dict clock env vals h n = Inr (d, out) \<and> Length d = int n \<and>
      (\<forall>i < n. dict_map d (ucast (hash_ConnIDKey env (complex_key (of_nat i))), conn_bytes (complex_key (of_nat i))) = Some (vals i)))"
proof (intro conjI)
  show "length (fst (regular n)) = n" "length (fst (unordered clock n)) = n" by (simp_all add: regular_entries unordered_entries)
  show "fifo_size (fst (fifo_driver n)) = n" using fifo_driver_entries [of n] by (simp add: fifo_end_entries)
  show "length (fst (complex_regular clock n)) = n" using complex_regular_keys [OF assms(2)] by blast
next
  let ?kb = "\<lambda>i. U64TO8_LE (of_nat i)"
  let ?K = "\<lambda>i. (ucast (HashBytes env (?kb i)) :: uint32, ?kb i)"
  have inj: "inj_on ?kb {0..<n}"
    using inj_on_of_nat [OF assms(2)] unfolding inj_on_def by (metis U8TO64_U64TO8)
  obtain h' d rs where d: "fill_dict (int_key env) vals [0..<n] h (new_Dictionary UNORDERED 0) = Inr (h', d)" "Length d = int n"
      "dict_map d = fold_upd ?K vals [0..<n] Map.empty"
    by (rule int_keys.filled [OF assms(1,3) inj]) auto
  have "dict_map d (?K i) = Some (vals i)" if "i < n" for i
    using fold_upd_in [of ?K "[0..<n]" i vals Map.empty] inj that d(3) by (auto simp: inj_on_def)
  then show "\<exists>d out. dict_driver clock env vals h n = Inr (d, out) \<and> Length d = int n \<and>
      (\<forall>i < n. dict_map d (ucast (HashBytes env (U64TO8_LE (of_nat i))), U64TO8_LE (of_nat i)) = Some (vals i))"
    using d(1,2) by (simp add: dict_driver_def)
next
  let ?K = "\<lambda>i. (ucast (HashBytes env (conn_source_bytes i)) :: uint32, conn_source_bytes i)"
  have inj: "inj_on conn_source_bytes {0..<n}"
    using inj_on_of_nat [OF assms(2)] conn_bytes_inject [OF complex_key_ok complex_key_ok]
    by (auto simp: inj_on_def conn_source_bytes_def complex_key_inject)
  obtain h' d rs where d: "fill_dict (conn_key env) vals [0..<n] h (new_Dictionary UNORDERED 0) = Inr (h', d)" "Length d = int n"
      "dict_map d = fold_upd ?K vals [0..<n] Map.empty"
    by (rule struct_keys.filled [OF assms(1,4) inj]) auto
  have "dict_map d (?K i) = Some (vals i)" if "i < n" for i
    using fold_upd_in [of ?K "[0..<n]" i vals Map.empty] inj that d(3) by (auto simp: inj_on_def)
  then show "\<exists>d out. complex_dict clock env vals h n = Inr (d, out) \<and> Length d = int n \<and>
      (\<forall>i < n. dict_map d (ucast (hash_ConnIDKey env (complex_key (of_nat i))), conn_bytes (complex_key (of_nat i))) = Some (vals i))"
    using d(1,2) by (simp add: complex_dict_def hash_ConnIDKey_def conn_source_bytes_def)
qed

theorem filled_sizes_witness:
  "\<exists>d out. complex_dict (\<lambda>_. (0, 0)) demo_env ((+) 100) demo_strings 2 = Inr (d, out) \<and> Length d = 2"
proof -
  have l: "length (U64TO8_LE (of_nat 0)) < 65536" "length (U64TO8_LE (of_nat 1)) < 65536"
      "length (conn_source_bytes 0) < 65536" "length (conn_source_bytes 1) < 65536"
    using length_conn_bytes [OF complex_key_ok] by (simp_all add: conn_source_bytes_def)
  have "(2 :: nat) \<le> 2 ^ 64" by simp
  from filled_sizes [where clock = "\<lambda>_. (0, 0)" and env = demo_env and vals = "(+) 100",
      OF demo_strings_pre(1) this first_ops_guarded(1) [OF l(1,2)] first_ops_guarded(1) [OF l(3,4)]]
  show ?thesis by auto
qed

end
