(* ===== verification/CaresTtl.thy ===== *)
theory CaresTtl
  imports Prelude
begin

text \<open>
  \<open>c-ares/cares_ttl.c\<close>: reading the time to live of the first answer from a DNS reply, the callbacks that print it, and the program
  around them. The resolver library is a parameter: the record \<open>ares_api\<close> holds the functions, macros and constants of it that
  the code uses, and \<open>dns_doc\<close> states what its documentation and the DNS message format say of them. A reply is the list of its
  bytes, so that \<open>alen\<close> is its length; pointers into it are positions, and reading past its end is a value of its own.
\<close>

section \<open>The library\<close>

record ares_api =
  HFIXEDSZ :: nat
  QFIXEDSZ :: nat
  RRFIXEDSZ :: nat
  ARES_EBADRESP :: nat
  expand_name :: "nat \<Rightarrow> byte list \<Rightarrow> nat \<times> nat"
  DNS_RR_TTL :: "byte list \<Rightarrow> nat \<Rightarrow> int option"
  ares_strerror :: "nat \<Rightarrow> string"
  parse_a_reply :: "byte list \<Rightarrow> nat + string"
  parse_ptr_reply :: "byte list \<Rightarrow> nat + string"
  parse_txt_reply :: "byte list \<Rightarrow> nat + string"

abbreviation (input) ARES_SUCCESS :: nat where
  "ARES_SUCCESS \<equiv> 0"

definition be32 :: "byte list \<Rightarrow> nat \<Rightarrow> uint32" where
  "be32 buf p =
     push_bit 24 (ucast (buf ! p)) OR push_bit 16 (ucast (buf ! (p + 1))) OR push_bit 8 (ucast (buf ! (p + 2))) OR ucast (buf ! (p + 3))"

text \<open>
  The fixed parts of header, question and record have 12, 4 and 10 bytes. A name that is expanded lies inside of the message and is not
  empty. The time to live is the 32-bit number at offset 4 of the fixed part of a record, converted to \<open>int\<close>.
\<close>

definition dns_doc :: "ares_api \<Rightarrow> bool" where
  "dns_doc api \<longleftrightarrow> HFIXEDSZ api = 12 \<and> QFIXEDSZ api = 4 \<and> RRFIXEDSZ api = 10 \<and> ARES_EBADRESP api \<noteq> ARES_SUCCESS \<and>
     (\<forall>p buf len. expand_name api p buf = (ARES_SUCCESS, len) \<longrightarrow> 1 \<le> len \<and> p + len \<le> length buf) \<and>
     (\<forall>buf p. DNS_RR_TTL api buf p = (if p + 8 \<le> length buf then Some (sint (be32 buf (p + 4))) else None))"

section \<open>The functions\<close>

datatype ttl_result = Status nat | Ttl int | Overread

text \<open>The second component counts the host names that are not released.\<close>

definition get_ttl :: "ares_api \<Rightarrow> byte list \<Rightarrow> ttl_result \<times> nat" where
  "get_ttl api abuf =
     (let alen = length abuf;
          aptr = HFIXEDSZ api;
          (status, len) = expand_name api aptr abuf
      in if status \<noteq> ARES_SUCCESS then (Status status, 0)
         else if aptr + len + QFIXEDSZ api > alen then (Status (ARES_EBADRESP api), 1)
         else
           let aptr = aptr + (len + QFIXEDSZ api);
               (status, len) = expand_name api aptr abuf
           in if status \<noteq> ARES_SUCCESS then (Status status, 0)
              else if aptr + RRFIXEDSZ api > alen then (Status (ARES_EBADRESP api), 1)
              else
                let aptr = aptr + len
                in case DNS_RR_TTL api abuf aptr of None \<Rightarrow> (Overread, 0) | Some t \<Rightarrow> (Ttl t, 0))"

definition nl :: string where
  "nl = [CHR 0x0A]"

text \<open>What the callbacks print; \<open>None\<close> after a read outside of the reply.\<close>

definition query_a_callback :: "ares_api \<Rightarrow> nat \<Rightarrow> byte list \<Rightarrow> string option" where
  "query_a_callback api status buf =
     (if status \<noteq> ARES_SUCCESS then Some (''Failed to lookup '' @ ares_strerror api status @ nl)
      else case fst (get_ttl api buf) of
             Overread \<Rightarrow> None
           | Status r \<Rightarrow> Some (''Failed to get TTL from A record '' @ ares_strerror api r @ nl)
           | Ttl ttl \<Rightarrow>
               (case parse_a_reply api buf of
                  Inl r \<Rightarrow> Some (''Failed to parse A record '' @ ares_strerror api r @ nl)
                | Inr h_name \<Rightarrow> Some (''query_a_callback parsed host: '' @ h_name @ '' (ttl '' @ lld ttl @ '')'' @ nl)))"

definition query_ptr_callback :: "ares_api \<Rightarrow> nat \<Rightarrow> byte list \<Rightarrow> string option" where
  "query_ptr_callback api status buf =
     (if status \<noteq> ARES_SUCCESS then Some (''Failed to lookup '' @ ares_strerror api status @ nl)
      else case fst (get_ttl api buf) of
             Overread \<Rightarrow> None
           | Status r \<Rightarrow> Some (''Failed to get TTL from PTR record '' @ ares_strerror api r @ nl)
           | Ttl ttl \<Rightarrow>
               (case parse_ptr_reply api buf of
                  Inl r \<Rightarrow> Some (''Failed to parse PTR record '' @ ares_strerror api r @ nl)
                | Inr h_name \<Rightarrow> Some (''query_ptr_callback parsed host: '' @ h_name @ '' (ttl '' @ lld ttl @ '')'' @ nl)))"

definition query_txt_callback :: "ares_api \<Rightarrow> nat \<Rightarrow> byte list \<Rightarrow> string" where
  "query_txt_callback api status buf =
     (if status \<noteq> ARES_SUCCESS then ''Failed to lookup '' @ ares_strerror api status @ nl
      else case parse_txt_reply api buf of
             Inl r \<Rightarrow> ''Failed to parse TXT record '' @ ares_strerror api r @ nl
           | Inr t \<Rightarrow> ''parsed txt reply '' @ t @ nl)"

section \<open>The program\<close>

text \<open>
  The calls of \<open>main\<close> that create and release something, by the statuses of the calls that can fail: \<open>ares_library_init\<close>,
  \<open>ares_init_options\<close> and the two \<open>ares_create_query\<close>. The exit status is the first component.
\<close>

datatype ares_event = LibraryInit | InitOptions | CreateQuery nat | Send nat | WaitAres | FreeQuery nat | Destroy | LibraryCleanup

definition ttl_main :: "nat \<Rightarrow> nat \<Rightarrow> nat \<Rightarrow> nat \<Rightarrow> int \<times> ares_event list" where
  "ttl_main init options create1 create2 =
     (if init \<noteq> ARES_SUCCESS then (1, [])
      else if options \<noteq> ARES_SUCCESS then (1, [LibraryInit])
      else if create1 \<noteq> ARES_SUCCESS then (1, [LibraryInit, InitOptions])
      else if create2 \<noteq> ARES_SUCCESS then (1, [LibraryInit, InitOptions, CreateQuery 1, Send 1, WaitAres, FreeQuery 1])
      else (0, [LibraryInit, InitOptions, CreateQuery 1, Send 1, WaitAres, FreeQuery 1,
                CreateQuery 2, Send 2, WaitAres, FreeQuery 2, Destroy, LibraryCleanup]))"

section \<open>A library for the witnesses\<close>

text \<open>A name is a sequence of labels, ended by a zero byte or by a pointer of two bytes.\<close>

function name_length :: "byte list \<Rightarrow> nat option" where
  "name_length buf =
     (case buf of
        [] \<Rightarrow> None
      | b # bs \<Rightarrow>
          if b = 0 then Some 1
          else if unat b \<ge> 192 then (if bs = [] then None else Some 2)
          else if length bs < unat b then None
          else map_option (\<lambda>n. unat b + 1 + n) (name_length (drop (unat b) bs)))"
  by pat_completeness auto
termination
  by (relation "measure length") auto

declare name_length.simps [simp del]

lemma name_length_bound: "name_length buf = Some n \<Longrightarrow> 1 \<le> n \<and> n \<le> length buf"
proof (induction buf arbitrary: n rule: name_length.induct)
  case (1 buf)
  show ?case
  proof (cases buf)
    case Nil
    then show ?thesis using "1.prems" by (simp add: name_length.simps)
  next
    case (Cons b bs)
    show ?thesis
    proof (cases "b \<noteq> 0 \<and> unat b < 192 \<and> unat b \<le> length bs")
      case True
      then obtain m where m: "name_length (drop (unat b) bs) = Some m" "n = unat b + 1 + m"
        using "1.prems" Cons by (auto simp: name_length.simps [of "b # bs"])
      from "1.IH" [OF Cons _ _ _ m(1)] True have "m \<le> length bs - unat b" by simp
      then have "unat b + m \<le> length bs" using True by linarith
      then show ?thesis using m(2) Cons by simp
    next
      case False
      then show ?thesis using "1.prems" unfolding Cons name_length.simps [of "b # bs"] by (cases bs) (auto split: if_splits)
    qed
  qed
qed

definition demo_api :: ares_api where
  "demo_api = \<lparr>HFIXEDSZ = 12, QFIXEDSZ = 4, RRFIXEDSZ = 10, ARES_EBADRESP = 10,
     expand_name = (\<lambda>p buf. case name_length (drop p buf) of None \<Rightarrow> (8, 0) | Some n \<Rightarrow> (0, n)),
     DNS_RR_TTL = (\<lambda>buf p. if p + 8 \<le> length buf then Some (sint (be32 buf (p + 4))) else None),
     ares_strerror = (\<lambda>_. ''error''), parse_a_reply = (\<lambda>_. Inr ''a''), parse_ptr_reply = (\<lambda>_. Inr ''b''),
     parse_txt_reply = (\<lambda>_. Inr ''c'')\<rparr>"

lemma demo_api_doc: "dns_doc demo_api"
proof -
  have "1 \<le> len \<and> p + len \<le> length buf" if "expand_name demo_api p buf = (ARES_SUCCESS, len)" for p buf len
  proof -
    have "name_length (drop p buf) = Some len" using that by (simp add: demo_api_def split: option.splits)
    from name_length_bound [OF this] have "1 \<le> len" "len \<le> length buf - p" by simp_all
    then show ?thesis by linarith
  qed
  then show ?thesis by (simp add: dns_doc_def) (simp add: demo_api_def)
qed

section \<open>Properties\<close>

text \<open>
  C37. For a reply whose two names can be read, \<open>get_ttl\<close> tests whether a record fits behind the question, but not behind its name: it
  returns the time to live of the first record if the record is whole, and reads past the end of the reply if the name leaves fewer
  than the eight bytes up to the end of the field. A name of at most two bytes, as a pointer or the root, is always safe.
\<close>

theorem get_ttl_result:
  assumes "dns_doc api" "expand_name api 12 abuf = (ARES_SUCCESS, len1)" "16 + len1 \<le> length abuf"
    and "expand_name api (16 + len1) abuf = (ARES_SUCCESS, len2)"
  shows "fst (get_ttl api abuf) =
      (if length abuf < 26 + len1 then Status (ARES_EBADRESP api)
       else if length abuf < 24 + len1 + len2 then Overread
       else Ttl (sint (be32 abuf (20 + len1 + len2)))) \<and>
    (len2 \<le> 2 \<longrightarrow> fst (get_ttl api abuf) \<noteq> Overread)"
proof -
  have c: "HFIXEDSZ api = 12" "QFIXEDSZ api = 4" "RRFIXEDSZ api = 10"
      "\<And>p. DNS_RR_TTL api abuf p = (if p + 8 \<le> length abuf then Some (sint (be32 abuf (p + 4))) else None)"
    using assms(1) by (auto simp: dns_doc_def)
  have a: "12 + (len1 + 4) = 16 + len1" "16 + len1 + 10 = 26 + len1" "16 + len1 + len2 + 8 = 24 + len1 + len2"
      "16 + len1 + len2 + 4 = 20 + len1 + len2"
    by simp_all
  have "fst (get_ttl api abuf) =
      (if length abuf < 26 + len1 then Status (ARES_EBADRESP api)
       else if length abuf < 24 + len1 + len2 then Overread else Ttl (sint (be32 abuf (20 + len1 + len2))))"
    using assms(2-4) by (simp add: get_ttl_def Let_def c a not_less)
  then show ?thesis by simp
qed

text \<open>A reply with an empty question name and a record whose name is one label of ten characters, cut off behind the name.\<close>

definition cut_reply :: "byte list" where
  "cut_reply = replicate 12 0 @ [0, 0, 1, 0, 1] @ 10 # replicate 10 97 @ [0]"

definition whole_reply :: "byte list" where
  "whole_reply = replicate 12 0 @ [0, 0, 1, 0, 1] @ [192, 12] @ [0, 1, 0, 1, 0, 0, 1, 44, 0, 4] @ [10, 0, 0, 1]"

theorem get_ttl_result_witness:
  "fst (get_ttl demo_api cut_reply) = Overread \<and> fst (get_ttl demo_api whole_reply) = Ttl 300"
proof -
  have c: "expand_name demo_api 12 cut_reply = (ARES_SUCCESS, 1)" "16 + 1 \<le> length cut_reply"
      "expand_name demo_api (16 + 1) cut_reply = (ARES_SUCCESS, 12)" "length cut_reply = 29"
    by (simp_all add: demo_api_def cut_reply_def name_length.simps)
  have w: "expand_name demo_api 12 whole_reply = (ARES_SUCCESS, 1)" "16 + 1 \<le> length whole_reply"
      "expand_name demo_api (16 + 1) whole_reply = (ARES_SUCCESS, 2)" "length whole_reply = 33"
      "sint (be32 whole_reply 23) = 300"
    by (simp_all add: demo_api_def whole_reply_def name_length.simps be32_def nth_append)
  show ?thesis
    using get_ttl_result [OF demo_api_doc c(1-3)] get_ttl_result [OF demo_api_doc w(1-3)] c(4) w(4,5) by simp
qed

text \<open>
  Every exit of \<open>main\<close> with status 0 releases the channel and both queries; every exit with status 1 after the channel was opened
  leaves it open, and the library initialised.
\<close>

lemma ttl_main_releases:
  "fst (ttl_main init options create1 create2) = 0 \<longleftrightarrow>
     {Destroy, LibraryCleanup} \<subseteq> set (snd (ttl_main init options create1 create2))"
  "CreateQuery i \<in> set (snd (ttl_main init options create1 create2)) \<longleftrightarrow>
     FreeQuery i \<in> set (snd (ttl_main init options create1 create2))"
  by (auto simp: ttl_main_def)

end
