(* ===== verification/CaresHost.thy ===== *)
theory CaresHost
  imports CaresTtl
begin

text \<open>
  The callbacks of \<open>c-ares/cares_hostfile.c\<close>, \<open>cares_getaddrinfo.c\<close>, \<open>cares_gethostbyname.c\<close> and \<open>cares_gethostbyaddr.c\<close> that print
  host entries and addresses, and the waiting loop all the samples share. \<open>inet_ntop\<close> is the function from the bytes of an address to its
  text, with the test whether text and terminator fit; when they do not, the caller's buffer stays as it was, and printing it is the
  value \<open>None\<close>.
\<close>

section \<open>Addresses\<close>

datatype family = AF_INET | AF_INET6 | AF_OTHER

type_synonym address_text = "family \<Rightarrow> byte list \<Rightarrow> string"

definition INET_ADDRSTRLEN :: nat where "INET_ADDRSTRLEN = 16"
definition INET6_ADDRSTRLEN :: nat where "INET6_ADDRSTRLEN = 46"

definition inet_ntop :: "address_text \<Rightarrow> family \<Rightarrow> byte list \<Rightarrow> nat \<Rightarrow> string option" where
  "inet_ntop txt af addr sz = (if length (txt af addr) < sz then Some (txt af addr) else None)"

text \<open>The longest texts of the two families, as the two constants promise.\<close>

definition ntop_doc :: "address_text \<Rightarrow> bool" where
  "ntop_doc txt \<longleftrightarrow> (\<forall>a. length (txt AF_INET a) < INET_ADDRSTRLEN) \<and> (\<forall>a. length (txt AF_INET6 a) < INET6_ADDRSTRLEN)"

section \<open>Host entries\<close>

record hostent =
  h_name :: string
  h_addrtype :: family
  h_addr_list :: "byte list list"

text \<open>The loop over the addresses, with what is printed behind each.\<close>

fun print_addrs :: "address_text \<Rightarrow> family \<Rightarrow> string \<Rightarrow> byte list list \<Rightarrow> string option" where
  "print_addrs txt af sep [] = Some []"
| "print_addrs txt af sep (a # as) =
     (case (inet_ntop txt af a INET6_ADDRSTRLEN, print_addrs txt af sep as) of
        (Some ip, Some rest) \<Rightarrow> Some (ip @ sep @ rest)
      | _ \<Rightarrow> None)"

definition failed_lookup :: "ares_api \<Rightarrow> nat \<Rightarrow> string" where
  "failed_lookup api status = ''Failed to lookup '' @ ares_strerror api status @ nl"

definition hostbyname_cb :: "ares_api \<Rightarrow> address_text \<Rightarrow> nat \<Rightarrow> nat \<Rightarrow> hostent option \<Rightarrow> string option" where
  "hostbyname_cb api txt status timeouts host =
     (case host of
        None \<Rightarrow> Some (failed_lookup api status @ ''timeouts: '' @ dec_nat timeouts @ nl)
      | Some e \<Rightarrow>
          if status \<noteq> ARES_SUCCESS then Some (failed_lookup api status @ ''timeouts: '' @ dec_nat timeouts @ nl)
          else map_option (\<lambda>s. ''hostbyname: '' @ h_name e @ '' = '' @ s @ nl) (print_addrs txt (h_addrtype e) '' '' (h_addr_list e)))"

text \<open>\<open>callback\<close> of \<open>cares_gethostbyname.c\<close>.\<close>

definition gethostbyname_callback :: "ares_api \<Rightarrow> address_text \<Rightarrow> nat \<Rightarrow> hostent option \<Rightarrow> string option" where
  "gethostbyname_callback api txt status host =
     (case host of
        None \<Rightarrow> Some (failed_lookup api status)
      | Some e \<Rightarrow>
          if status \<noteq> ARES_SUCCESS then Some (failed_lookup api status)
          else map_option (\<lambda>s. ''Found address name '' @ h_name e @ nl @ s) (print_addrs txt (h_addrtype e) nl (h_addr_list e)))"

text \<open>\<open>callback\<close> of \<open>cares_gethostbyaddr.c\<close>.\<close>

definition gethostbyaddr_callback :: "ares_api \<Rightarrow> nat \<Rightarrow> hostent option \<Rightarrow> string" where
  "gethostbyaddr_callback api status host =
     (case host of
        None \<Rightarrow> failed_lookup api status
      | Some e \<Rightarrow> if status \<noteq> ARES_SUCCESS then failed_lookup api status else ''Found address name '' @ h_name e @ nl)"

text \<open>\<open>h_addr\<close> is the first address of the list; the buffer has room for an IPv4 address in both branches.\<close>

definition hostbyaddr_cb :: "ares_api \<Rightarrow> address_text \<Rightarrow> nat \<Rightarrow> hostent option \<Rightarrow> string option" where
  "hostbyaddr_cb api txt status host =
     (case host of
        None \<Rightarrow> Some (failed_lookup api status)
      | Some e \<Rightarrow>
          if status \<noteq> ARES_SUCCESS then Some (failed_lookup api status)
          else if h_addrtype e = AF_INET
          then map_option (\<lambda>buf. ''hostbyaddr: '' @ buf @ '' = '' @ h_name e @ nl) (inet_ntop txt AF_INET (hd (h_addr_list e)) INET_ADDRSTRLEN)
          else if h_addrtype e = AF_INET6
          then map_option (\<lambda>buf. ''hostbyaddr: '' @ buf @ '' = '' @ h_name e @ nl) (inet_ntop txt AF_INET6 (hd (h_addr_list e)) INET_ADDRSTRLEN)
          else Some (h_name e @ nl))"

section \<open>Address information\<close>

record addrinfo =
  ai_name :: string
  ai_nodes :: "(family \<times> byte list) list"

fun print_nodes :: "address_text \<Rightarrow> (family \<Rightarrow> string) \<Rightarrow> string \<Rightarrow> (family \<times> byte list) list \<Rightarrow> string option" where
  "print_nodes txt pre post [] = Some []"
| "print_nodes txt pre post ((af, a) # ns) =
     (case print_nodes txt pre post ns of
        None \<Rightarrow> None
      | Some rest \<Rightarrow>
          (case af of
             AF_INET \<Rightarrow> map_option (\<lambda>buf. pre af @ buf @ post @ rest) (inet_ntop txt AF_INET a INET_ADDRSTRLEN)
           | AF_INET6 \<Rightarrow> map_option (\<lambda>buf. pre af @ buf @ post @ rest) (inet_ntop txt AF_INET6 a INET6_ADDRSTRLEN)
           | AF_OTHER \<Rightarrow> Some rest))"

text \<open>\<open>addrinfo_cb\<close> of \<open>cares_hostfile.c\<close> and of \<open>cares_getaddrinfo.c\<close>.\<close>

definition hostfile_addrinfo_cb :: "ares_api \<Rightarrow> address_text \<Rightarrow> nat \<Rightarrow> addrinfo \<Rightarrow> string option" where
  "hostfile_addrinfo_cb api txt status result =
     (if status \<noteq> ARES_SUCCESS then Some (''Failed addrinfo request: '' @ ares_strerror api status @ nl)
      else map_option (\<lambda>s. ''addrinfo: '' @ ai_name result @ '' = '' @ s @ nl) (print_nodes txt (\<lambda>_. []) '' '' (ai_nodes result)))"

definition addrinfo_cb :: "ares_api \<Rightarrow> address_text \<Rightarrow> nat \<Rightarrow> addrinfo \<Rightarrow> string option" where
  "addrinfo_cb api txt status result =
     (if status \<noteq> ARES_SUCCESS then Some (''Failed addrinfo request: '' @ ares_strerror api status @ nl)
      else print_nodes txt (\<lambda>af. if af = AF_INET then ''found new ipv4 address '' else ''found new ipv6 address '') nl (ai_nodes result))"

section \<open>Waiting\<close>

text \<open>
  \<open>wait_ares\<close> with \<open>select\<close>: it processes the channel as long as the library names descriptors, with a bound on the rounds.
\<close>

fun wait_select :: "('c \<Rightarrow> nat) \<Rightarrow> ('c \<Rightarrow> 'c) \<Rightarrow> nat \<Rightarrow> 'c \<Rightarrow> 'c option" where
  "wait_select fds process 0 c = None"
| "wait_select fds process (Suc n) c = (if fds c = 0 then Some c else wait_select fds process n (process c))"

lemma wait_select_ends:
  fixes pending :: "'c \<Rightarrow> nat"
  assumes "\<And>c. fds c \<noteq> 0 \<Longrightarrow> pending (process c) < pending c" "pending c < n"
  shows "\<exists>c'. wait_select fds process n c = Some c' \<and> fds c' = 0"
  using assms(2)
proof (induction n arbitrary: c)
  case (Suc n)
  show ?case
  proof (cases "fds c = 0")
    case False
    then show ?thesis using assms(1) [OF False] Suc.IH [of "process c"] Suc.prems by simp
  qed simp
qed simp

section \<open>Lemmas\<close>

lemma ntop_fits:
  assumes "ntop_doc txt"
  shows "inet_ntop txt AF_INET a INET_ADDRSTRLEN = Some (txt AF_INET a)" "inet_ntop txt AF_INET6 a INET6_ADDRSTRLEN = Some (txt AF_INET6 a)"
    "inet_ntop txt AF_INET a INET6_ADDRSTRLEN = Some (txt AF_INET a)"
  using assms less_trans [of "length (txt AF_INET a)" INET_ADDRSTRLEN INET6_ADDRSTRLEN]
  by (auto simp: ntop_doc_def inet_ntop_def INET_ADDRSTRLEN_def INET6_ADDRSTRLEN_def)

lemma print_addrs_all:
  "ntop_doc txt \<Longrightarrow> af \<noteq> AF_OTHER \<Longrightarrow> print_addrs txt af sep as = Some (concat (map (\<lambda>a. txt af a @ sep) as))"
  by (induction "as") (cases af; simp add: ntop_fits)+

lemma print_nodes_all:
  "ntop_doc txt \<Longrightarrow> print_nodes txt pre post ns =
     Some (concat (map (\<lambda>(af, a). if af = AF_OTHER then [] else pre af @ txt af a @ post) ns))"
  by (induction ns) (auto simp: ntop_fits split: family.split)

section \<open>Properties\<close>

text \<open>
  The callbacks for names and for address information print the text of every address of a known family. The callback for
  addresses does so for IPv4; for IPv6 it prints a buffer that was never written whenever the text is longer than 15 characters.
\<close>

theorem callbacks_print_addresses:
  assumes "ntop_doc txt" "h_addrtype e \<noteq> AF_OTHER" "h_addr_list e = a # as"
  shows "hostbyname_cb api txt ARES_SUCCESS timeouts (Some e) =
      Some (''hostbyname: '' @ h_name e @ '' = '' @ concat (map (\<lambda>a. txt (h_addrtype e) a @ '' '') (h_addr_list e)) @ nl) \<and>
    hostfile_addrinfo_cb api txt ARES_SUCCESS r =
      Some (''addrinfo: '' @ ai_name r @ '' = '' @
        concat (map (\<lambda>(af, a). if af = AF_OTHER then [] else txt af a @ '' '') (ai_nodes r)) @ nl) \<and>
    hostbyaddr_cb api txt ARES_SUCCESS (Some e) =
      (if h_addrtype e = AF_INET6 \<and> 15 < length (txt AF_INET6 a) then None
       else Some (''hostbyaddr: '' @ txt (h_addrtype e) a @ '' = '' @ h_name e @ nl))"
proof (intro conjI)
  show "hostbyaddr_cb api txt ARES_SUCCESS (Some e) =
      (if h_addrtype e = AF_INET6 \<and> 15 < length (txt AF_INET6 a) then None
       else Some (''hostbyaddr: '' @ txt (h_addrtype e) a @ '' = '' @ h_name e @ nl))"
    using assms(2,3) ntop_fits(1) [OF assms(1), of a]
    by (cases "h_addrtype e") (auto simp: hostbyaddr_cb_def inet_ntop_def INET_ADDRSTRLEN_def)
qed (simp_all add: hostbyname_cb_def hostfile_addrinfo_cb_def print_addrs_all [OF assms(1,2)] print_nodes_all [OF assms(1)] cong: if_cong)

theorem callbacks_print_addresses_witness:
  "hostbyaddr_cb demo_api (\<lambda>af _. if af = AF_INET6 then ''2001:db8::1234:5678'' else ''10.0.0.10'') ARES_SUCCESS
     (Some \<lparr>h_name = ''zeektest'', h_addrtype = AF_INET6, h_addr_list = [[]]\<rparr>) = None"
proof -
  let ?t = "\<lambda>af (_ :: byte list). if af = AF_INET6 then ''2001:db8::1234:5678'' else ''10.0.0.10''"
  let ?e = "\<lparr>h_name = ''zeektest'', h_addrtype = AF_INET6, h_addr_list = [[]]\<rparr>"
  have "ntop_doc ?t" by (simp add: ntop_doc_def INET_ADDRSTRLEN_def INET6_ADDRSTRLEN_def)
  from callbacks_print_addresses [OF this, of ?e "[]" "[]" demo_api] show ?thesis by simp
qed

end
