(* ===== verification/KqueueWatch.thy ===== *)
theory KqueueWatch
  imports Prelude
begin

text \<open>
  \<open>c-ares/cares_kqueue.cc\<close>: keeping a kernel queue in step with the sockets the resolver wants watched, and the loop that hands events
  back to it. Kernel and resolver are not part of the repository and are parameters with a state of their own: \<open>kevent\<close> takes a list of
  changes and may fail, \<open>wait\<close> takes the size of the array of events and answers with events, with none (a timeout) or with a failure,
  and \<open>ares\<close> is what \<open>ares_process_fd\<close> reports about its sockets, one call of the callback after the other. What is documented of the
  kernel is the predicate \<open>kqueue_doc\<close>.
\<close>

section \<open>State\<close>

datatype evfilt = EVFILT_READ | EVFILT_WRITE

datatype kchange = EV_ADD int evfilt | EV_DELETE int evfilt

text \<open>The two sets and the messages that \<open>perror\<close> has printed.\<close>

record watch =
  active_read_fds :: "int set"
  active_write_fds :: "int set"
  perrors :: "string list"

definition new_watch :: watch where
  "new_watch = \<lparr>active_read_fds = {}, active_write_fds = {}, perrors = []\<rparr>"

definition perror :: "string \<Rightarrow> watch \<Rightarrow> watch" where
  "perror msg w = w\<lparr>perrors := perrors w @ [msg]\<rparr>"

definition init_failed :: string where
  "init_failed = ''failed to initialize new events''"

definition kevent_failed :: string where
  "kevent_failed = ''kevent failed''"

section \<open>The callback\<close>

definition read_change :: "watch \<Rightarrow> int \<Rightarrow> int \<Rightarrow> kchange list \<times> watch" where
  "read_change w s read =
     (if read = 1 \<and> s \<notin> active_read_fds w
      then ([EV_ADD s EVFILT_READ], w\<lparr>active_read_fds := insert s (active_read_fds w)\<rparr>)
      else if read = 0 \<and> s \<in> active_read_fds w
      then ([EV_DELETE s EVFILT_READ], w\<lparr>active_read_fds := active_read_fds w - {s}\<rparr>)
      else ([], w))"

definition write_change :: "watch \<Rightarrow> int \<Rightarrow> int \<Rightarrow> kchange list \<times> watch" where
  "write_change w s write =
     (if write = 1 \<and> s \<notin> active_write_fds w
      then ([EV_ADD s EVFILT_WRITE], w\<lparr>active_write_fds := insert s (active_write_fds w)\<rparr>)
      else if write = 0 \<and> s \<in> active_write_fds w
      then ([EV_DELETE s EVFILT_WRITE], w\<lparr>active_write_fds := active_write_fds w - {s}\<rparr>)
      else ([], w))"

text \<open>The array of changes; the sets are updated while it is filled, before the kernel is asked.\<close>

definition sock_events :: "watch \<Rightarrow> int \<Rightarrow> int \<Rightarrow> int \<Rightarrow> kchange list \<times> watch" where
  "sock_events w s read write =
     (let (events, w) = read_change w s read;
          (events', w) = write_change w s write
      in (events @ events', w))"

type_synonym 'k kevent = "kchange list \<Rightarrow> 'k \<Rightarrow> bool \<times> 'k"

definition sock_cb :: "'k kevent \<Rightarrow> int \<Rightarrow> int \<Rightarrow> int \<Rightarrow> watch \<times> 'k \<Rightarrow> watch \<times> 'k" where
  "sock_cb kevent s read write p =
     (case p of (w, k) \<Rightarrow>
        let (events, w) = sock_events w s read write;
            (ok, k) = kevent events k
        in (if ok then w else perror init_failed w, k))"

section \<open>The loop\<close>

datatype kq_answer = KqFailed | KqEvents "(int \<times> evfilt) list"

abbreviation (input) ARES_SOCKET_BAD :: int where
  "ARES_SOCKET_BAD \<equiv> -1"

type_synonym 'c resolver = "int \<Rightarrow> int \<Rightarrow> 'c \<Rightarrow> (int \<times> int \<times> int) list \<times> 'c"
type_synonym 'k waiting = "nat \<Rightarrow> 'k \<Rightarrow> kq_answer \<times> 'k"
type_synonym ('c, 'k) kq_state = "'c \<times> watch \<times> 'k"

text \<open>\<open>ares_process_fd\<close> calls the callback for each change it reports.\<close>

definition process_fd :: "'k kevent \<Rightarrow> 'c resolver \<Rightarrow> int \<Rightarrow> int \<Rightarrow> ('c, 'k) kq_state \<Rightarrow> ('c, 'k) kq_state" where
  "process_fd kevent ares read write st =
     (case st of (c, p) \<Rightarrow>
        let (calls, c) = ares read write c
        in (c, fold (\<lambda>(s, r, wr). sock_cb kevent s r wr) calls p))"

definition dispatch :: "'k kevent \<Rightarrow> 'c resolver \<Rightarrow> int \<times> evfilt \<Rightarrow> ('c, 'k) kq_state \<Rightarrow> ('c, 'k) kq_state" where
  "dispatch kevent ares e st =
     (case e of
        (ident, EVFILT_READ) \<Rightarrow> process_fd kevent ares ident ARES_SOCKET_BAD st
      | (ident, EVFILT_WRITE) \<Rightarrow> process_fd kevent ares ARES_SOCKET_BAD ident st)"

definition num_events :: "watch \<Rightarrow> nat" where
  "num_events w = card (active_read_fds w) + card (active_write_fds w)"

text \<open>
  The loop may go on for ever, so it takes fuel, the number of rounds it is watched for. Beside the final state it returns for each round the
  size of its array of events and the kernel that is asked.
\<close>

fun wait_ares :: "'k kevent \<Rightarrow> 'k waiting \<Rightarrow> 'c resolver \<Rightarrow> nat \<Rightarrow> ('c, 'k) kq_state \<Rightarrow> (('c, 'k) kq_state \<times> (nat \<times> 'k) list) option" where
  "wait_ares kevent wait ares 0 st = None"
| "wait_ares kevent wait ares (Suc n) (c, w, k) =
     (case wait (num_events w) k of
        (KqFailed, k') \<Rightarrow> Some ((c, perror kevent_failed w, k'), [(num_events w, k)])
      | (KqEvents [], k') \<Rightarrow> Some ((c, w, k'), [(num_events w, k)])
      | (KqEvents es, k') \<Rightarrow>
          map_option (\<lambda>(st, rounds). (st, (num_events w, k) # rounds)) (wait_ares kevent wait ares n (fold (dispatch kevent ares) es (c, w, k'))))"

section \<open>What is documented of the kernel\<close>

fun apply_change :: "kchange \<Rightarrow> (int \<times> evfilt) set \<Rightarrow> (int \<times> evfilt) set" where
  "apply_change (EV_ADD s f) R = insert (s, f) R"
| "apply_change (EV_DELETE s f) R = R - {(s, f)}"

text \<open>
  A call of \<open>kevent\<close> that succeeds has applied every change, one that fails only the changes before the first that it rejected. Waiting
  does not change what is registered, as long as no filter is registered to be removed with its event.
\<close>

definition kqueue_doc :: "'k kevent \<Rightarrow> 'k waiting \<Rightarrow> ('k \<Rightarrow> (int \<times> evfilt) set) \<Rightarrow> bool" where
  "kqueue_doc kevent wait filters \<longleftrightarrow>
     (\<forall>cs k k'. kevent cs k = (True, k') \<longrightarrow> filters k' = fold apply_change cs (filters k)) \<and>
     (\<forall>cs k k'. kevent cs k = (False, k') \<longrightarrow> (\<exists>n. (n < length cs \<or> cs = []) \<and> filters k' = fold apply_change (take n cs) (filters k))) \<and>
     (\<forall>n k a k'. wait n k = (a, k') \<longrightarrow> filters k' = filters k)"

definition watched :: "watch \<Rightarrow> (int \<times> evfilt) set" where
  "watched w = (\<lambda>s. (s, EVFILT_READ)) ` active_read_fds w \<union> (\<lambda>s. (s, EVFILT_WRITE)) ` active_write_fds w"

section \<open>Lemmas\<close>

lemma watched_member [simp]:
  "(s, EVFILT_READ) \<in> watched w \<longleftrightarrow> s \<in> active_read_fds w" "(s, EVFILT_WRITE) \<in> watched w \<longleftrightarrow> s \<in> active_write_fds w"
  by (auto simp: watched_def)

lemma watched_eqI:
  assumes "\<And>s. (s, EVFILT_READ) \<in> R \<longleftrightarrow> s \<in> active_read_fds w" "\<And>s. (s, EVFILT_WRITE) \<in> R \<longleftrightarrow> s \<in> active_write_fds w"
  shows "R = watched w"
proof (rule set_eqI)
  fix x
  show "x \<in> R \<longleftrightarrow> x \<in> watched w" using assms by (cases x; cases "snd x") auto
qed

lemma perror_frame [simp]:
  "active_read_fds (perror m w) = active_read_fds w" "active_write_fds (perror m w) = active_write_fds w" "perrors (perror m w) = perrors w @ [m]"
  "watched (perror m w) = watched w"
  by (simp_all add: perror_def watched_def)

lemma differI: "(x \<in> A) \<noteq> (x \<in> B) \<Longrightarrow> A \<noteq> B"
  by blast

text \<open>What the array of changes holds: each one is effective, and all of them turn the filters of the old sets into those of the new.\<close>

lemma sock_events_changes:
  assumes "sock_events w s r wr = (es, w')"
  shows "fold apply_change es (watched w) = watched w'" "length es \<le> 2" "perrors w' = perrors w"
    "n < length es \<or> es = [] \<Longrightarrow> fold apply_change (take n es) (watched w) = watched w' \<longleftrightarrow> es = []"
    "active_read_fds w' = (if r = 1 then insert s (active_read_fds w) else if r = 0 then active_read_fds w - {s} else active_read_fds w)"
    "active_write_fds w' = (if wr = 1 then insert s (active_write_fds w) else if wr = 0 then active_write_fds w - {s} else active_write_fds w)"
proof -
  note ev = assms [unfolded sock_events_def read_change_def write_change_def Let_def]
  show "length es \<le> 2" "perrors w' = perrors w"
      "active_read_fds w' = (if r = 1 then insert s (active_read_fds w) else if r = 0 then active_read_fds w - {s} else active_read_fds w)"
      "active_write_fds w' = (if wr = 1 then insert s (active_write_fds w) else if wr = 0 then active_write_fds w - {s} else active_write_fds w)"
    using ev by (auto split: if_splits)
  show "fold apply_change es (watched w) = watched w'"
    using ev by (intro watched_eqI) (auto split: if_splits)
  assume "n < length es \<or> es = []"
  moreover have "fold apply_change (take n es) (watched w) \<noteq> watched w'" if "n < length es"
  proof (rule differI [of "if n = 0 \<and> (r = 1 \<or> r = 0) \<and> (s \<in> active_read_fds w \<longleftrightarrow> r = 0) then (s, EVFILT_READ) else (s, EVFILT_WRITE)"])
  qed (use ev that in \<open>auto split: if_splits simp: less_Suc_eq\<close>)
  ultimately show "fold apply_change (take n es) (watched w) = watched w' \<longleftrightarrow> es = []"
    using ev by (auto split: if_splits)
qed

lemma sock_events_needed:
  assumes "sock_events w s r wr = (es, w')"
  shows "EV_ADD a f \<in> set es \<Longrightarrow> (a, f) \<notin> watched w" "EV_DELETE a f \<in> set es \<Longrightarrow> (a, f) \<in> watched w"
  using assms by (auto simp: sock_events_def read_change_def write_change_def split: if_splits)

lemma watched_card:
  assumes "finite (active_read_fds w)" "finite (active_write_fds w)"
  shows "card (watched w) = num_events w"
proof -
  let ?R = "(\<lambda>s. (s, EVFILT_READ)) ` active_read_fds w" and ?W = "(\<lambda>s. (s, EVFILT_WRITE)) ` active_write_fds w"
  have "?R \<inter> ?W = {}" by auto
  then have "card (watched w) = card ?R + card ?W" using assms by (simp add: watched_def card_Un_disjoint)
  then show ?thesis by (simp add: card_image inj_on_def num_events_def)
qed

lemma kqueue_docD:
  assumes "kqueue_doc kevent wait filters"
  shows "kevent cs k = (True, k') \<Longrightarrow> filters k' = fold apply_change cs (filters k)"
    "kevent cs k = (False, k') \<Longrightarrow> \<exists>n. (n < length cs \<or> cs = []) \<and> filters k' = fold apply_change (take n cs) (filters k)"
    "wait n k = (a, k') \<Longrightarrow> filters k' = filters k"
  using assms unfolding kqueue_doc_def by blast+

text \<open>The queue is in step as long as no failed change has been reported.\<close>

definition in_step :: "('k \<Rightarrow> (int \<times> evfilt) set) \<Rightarrow> watch \<times> 'k \<Rightarrow> bool" where
  "in_step filters p \<longleftrightarrow> filters (snd p) = watched (fst p)"

definition watch_ok :: "('k \<Rightarrow> (int \<times> evfilt) set) \<Rightarrow> watch \<times> 'k \<Rightarrow> bool" where
  "watch_ok filters p \<longleftrightarrow> finite (active_read_fds (fst p)) \<and> finite (active_write_fds (fst p)) \<and>
     (init_failed \<notin> set (perrors (fst p)) \<longrightarrow> in_step filters p)"

lemma watch_ok_room: "watch_ok filters (w, k) \<Longrightarrow> init_failed \<notin> set (perrors w) \<Longrightarrow> card (filters k) = num_events w"
  by (simp add: watch_ok_def in_step_def watched_card)

lemma sock_cb_ok:
  assumes "kqueue_doc kevent wait filters" "watch_ok filters p"
  shows "watch_ok filters (sock_cb kevent s r wr p)" "set (perrors (fst p)) \<subseteq> set (perrors (fst (sock_cb kevent s r wr p)))"
proof -
  obtain w k where p: "p = (w, k)" by (cases p)
  obtain es w' where e: "sock_events w s r wr = (es, w')" by force
  obtain ok k' where k: "kevent es k = (ok, k')" by force
  note c = sock_events_changes [OF e]
  have "filters k' = fold apply_change es (filters k)" if ok using kqueue_docD(1) [OF assms(1)] k that by simp
  then show "watch_ok filters (sock_cb kevent s r wr p)"
    using assms(2) c(1,3,5,6) by (auto simp: p sock_cb_def e k watch_ok_def in_step_def Let_def)
  show "set (perrors (fst p)) \<subseteq> set (perrors (fst (sock_cb kevent s r wr p)))"
    using c(3) by (auto simp: p sock_cb_def e k Let_def)
qed

lemma calls_ok:
  assumes "kqueue_doc kevent wait filters" "watch_ok filters p"
  shows "watch_ok filters (fold (\<lambda>(s, r, wr). sock_cb kevent s r wr) xs p) \<and>
    set (perrors (fst p)) \<subseteq> set (perrors (fst (fold (\<lambda>(s, r, wr). sock_cb kevent s r wr) xs p)))"
  using assms(2)
proof (induction xs arbitrary: p)
  case (Cons x xs)
  obtain s r wr where x: "x = (s, r, wr)" by (cases x)
  show ?case using Cons.IH [OF sock_cb_ok(1) [OF assms(1) Cons.prems, of s r wr]] sock_cb_ok(2) [OF assms(1) Cons.prems, of s r wr] x by auto
qed simp

lemma dispatch_ok:
  assumes "kqueue_doc kevent wait filters" "watch_ok filters (snd st)"
  shows "watch_ok filters (snd (dispatch kevent ares e st)) \<and> set (perrors (fst (snd st))) \<subseteq> set (perrors (fst (snd (dispatch kevent ares e st))))"
  using calls_ok [OF assms] by (cases st; cases e; cases "snd e") (simp_all add: dispatch_def process_fd_def case_prod_beta)

lemma dispatches_ok:
  assumes "kqueue_doc kevent wait filters"
  shows "watch_ok filters (snd st) \<Longrightarrow> watch_ok filters (snd (fold (dispatch kevent ares) es st)) \<and>
    set (perrors (fst (snd st))) \<subseteq> set (perrors (fst (snd (fold (dispatch kevent ares) es st))))"
proof (induction es arbitrary: st)
  case (Cons e es)
  show ?case using Cons.IH dispatch_ok [OF assms Cons.prems, of ares e] by fastforce
qed simp

text \<open>One round of the loop, whatever the answer, and when it is the last.\<close>

definition wait_round :: "'k kevent \<Rightarrow> 'k waiting \<Rightarrow> 'c resolver \<Rightarrow> ('c, 'k) kq_state \<Rightarrow> ('c, 'k) kq_state" where
  "wait_round kevent wait ares st =
     (case st of (c, w, k) \<Rightarrow>
        case wait (num_events w) k of (KqFailed, k') \<Rightarrow> (c, w, k') | (KqEvents es, k') \<Rightarrow> fold (dispatch kevent ares) es (c, w, k'))"

definition last_wait :: "'k waiting \<Rightarrow> nat \<times> 'k \<Rightarrow> bool" where
  "last_wait wait q \<longleftrightarrow> fst (wait (fst q) (snd q)) \<in> {KqFailed, KqEvents []}"

definition wait_of :: "('c, 'k) kq_state \<Rightarrow> nat \<times> 'k" where
  "wait_of st = (num_events (fst (snd st)), snd (snd st))"

section \<open>Properties\<close>

text \<open>
  C39. The callback, for any kernel that does what is documented of \<open>kevent\<close>: it asks for at most two changes, adds no filter that is registered and
  deletes none that is not, and notes in the two sets what it was told. When the kernel accepts the changes, its filters stay in step with the sets. When it rejects one,
  the failure is reported, but the sets have been updated already: the queue is out of step, and because a further call with the same
  arguments asks for nothing, the change is never tried again.
\<close>

theorem sock_cb_keeps_step:
  assumes "kqueue_doc kevent wait filters" "in_step filters (w, k)" "sock_events w s r wr = (es, u)" "kevent es k = (ok, k')"
    and "sock_cb kevent s r wr (w, k) = (w', k'')"
  shows "k'' = k' \<and> length es \<le> 2 \<and>
    (\<forall>a f. (EV_ADD a f \<in> set es \<longrightarrow> (a, f) \<notin> filters k) \<and> (EV_DELETE a f \<in> set es \<longrightarrow> (a, f) \<in> filters k)) \<and> (r \<in> {0, 1} \<longrightarrow> (s \<in> active_read_fds w' \<longleftrightarrow> r = 1)) \<and> (wr \<in> {0, 1} \<longrightarrow> (s \<in> active_write_fds w' \<longleftrightarrow> wr = 1)) \<and>
    active_read_fds w' - {s} = active_read_fds w - {s} \<and> active_write_fds w' - {s} = active_write_fds w - {s} \<and>
    fst (sock_events w' s r wr) = [] \<and>
    (if ok then perrors w' = perrors w \<and> in_step filters (w', k'')
     else perrors w' = perrors w @ [init_failed] \<and> (in_step filters (w', k'') \<longleftrightarrow> es = []))"
proof -
  note c = sock_events_changes [OF assms(3)]
  have w': "w' = (if ok then u else perror init_failed u)" "k'' = k'" using assms(3-5) by (simp_all add: sock_cb_def)
  have sets: "active_read_fds w' = active_read_fds u" "active_write_fds w' = active_write_fds u" "watched w' = watched u"
    by (simp_all add: w'(1))
  have "in_step filters (w', k'')" if ok
    using kqueue_docD(1) [OF assms(1)] assms(2,4) that c(1) by (simp add: in_step_def w')
  moreover have "in_step filters (w', k'') \<longleftrightarrow> es = []" if "\<not> ok"
  proof -
    have "kevent es k = (False, k')" using assms(4) that by simp
    then obtain n where "n < length es \<or> es = []" "filters k' = fold apply_change (take n es) (filters k)"
      using kqueue_docD(2) [OF assms(1)] by blast
    then show ?thesis using assms(2) c(4) by (simp add: in_step_def w'(2) sets(3))
  qed
  moreover have "\<forall>a f. (EV_ADD a f \<in> set es \<longrightarrow> (a, f) \<notin> filters k) \<and> (EV_DELETE a f \<in> set es \<longrightarrow> (a, f) \<in> filters k)"
    using sock_events_needed [OF assms(3)] assms(2) by (simp add: in_step_def)
  moreover have "read_change w' s r = ([], w')" "write_change w' s wr = ([], w')"
    using c(5,6) by (auto simp: read_change_def write_change_def sets)
  ultimately show ?thesis using c(2,3,5,6) w' by (auto simp: sets sock_events_def)
qed

text \<open>A kernel with room for a given number of filters and with scripted answers.\<close>

record demo_kernel =
  dk_filters :: "(int \<times> evfilt) set"
  dk_room :: nat
  dk_answers :: "kq_answer list"

fun demo_kevent :: "demo_kernel kevent" where
  "demo_kevent [] k = (True, k)"
| "demo_kevent (EV_ADD s f # cs) k =
     (if card (dk_filters k) < dk_room k then demo_kevent cs (k\<lparr>dk_filters := insert (s, f) (dk_filters k)\<rparr>) else (False, k))"
| "demo_kevent (EV_DELETE s f # cs) k =
     (if (s, f) \<in> dk_filters k then demo_kevent cs (k\<lparr>dk_filters := dk_filters k - {(s, f)}\<rparr>) else (False, k))"

fun demo_wait :: "demo_kernel waiting" where
  "demo_wait n k = (case dk_answers k of [] \<Rightarrow> (KqEvents [], k) | a # as \<Rightarrow> (a, k\<lparr>dk_answers := as\<rparr>))"

lemma demo_kevent_accepts: "demo_kevent cs k = (True, k') \<Longrightarrow> dk_filters k' = fold apply_change cs (dk_filters k)"
  by (induction cs k rule: demo_kevent.induct) (auto split: if_splits)

lemma demo_kevent_rejects:
  "demo_kevent cs k = (False, k') \<Longrightarrow> \<exists>n. n < length cs \<and> dk_filters k' = fold apply_change (take n cs) (dk_filters k)"
proof (induction cs k rule: demo_kevent.induct)
  case (2 s f cs k)
  show ?case
  proof (cases "card (dk_filters k) < dk_room k")
    case True
    then obtain n where "n < length cs \<and> dk_filters k' = fold apply_change (take n cs) (insert (s, f) (dk_filters k))" using 2 by auto
    then show ?thesis by (intro exI [of _ "Suc n"]) simp
  qed (use "2.prems" in \<open>auto intro!: exI [of _ 0]\<close>)
next
  case (3 s f cs k)
  show ?case
  proof (cases "(s, f) \<in> dk_filters k")
    case True
    then obtain n where "n < length cs \<and> dk_filters k' = fold apply_change (take n cs) (dk_filters k - {(s, f)})" using 3 by auto
    then show ?thesis by (intro exI [of _ "Suc n"]) simp
  qed (use "3.prems" in \<open>auto intro!: exI [of _ 0]\<close>)
qed simp

lemma demo_kernel_doc: "kqueue_doc demo_kevent demo_wait dk_filters"
proof -
  have "dk_filters k' = dk_filters k" if "demo_wait n k = (a, k')" for n k a k'
    using that by (cases "dk_answers k") auto
  then show ?thesis unfolding kqueue_doc_def using demo_kevent_accepts demo_kevent_rejects by metis
qed

definition demo_kq :: "nat \<Rightarrow> kq_answer list \<Rightarrow> demo_kernel" where
  "demo_kq room as = \<lparr>dk_filters = {}, dk_room = room, dk_answers = as\<rparr>"

text \<open>With room for one filter the read filter is registered and the write filter is not, though both sets hold the socket.\<close>

theorem sock_cb_keeps_step_witness:
  "(\<exists>w k. sock_cb demo_kevent 5 1 0 (new_watch, demo_kq 1 []) = (w, k) \<and> in_step dk_filters (w, k) \<and> active_read_fds w = {5} \<and> perrors w = []) \<and>
   (\<exists>w k. sock_cb demo_kevent 5 1 1 (new_watch, demo_kq 1 []) = (w, k) \<and> \<not> in_step dk_filters (w, k) \<and> 5 \<in> active_write_fds w \<and>
     perrors w = [init_failed] \<and> fst (sock_events w 5 1 1) = [])"
proof -
  let ?k = "demo_kq 1 []" and ?r = "EV_ADD 5 EVFILT_READ" and ?w = "EV_ADD 5 EVFILT_WRITE"
  have i: "in_step dk_filters (new_watch, ?k)" by (simp add: in_step_def demo_kq_def new_watch_def watched_def)
  have e: "sock_events new_watch 5 1 0 = ([?r], new_watch\<lparr>active_read_fds := {5}\<rparr>)"
      "sock_events new_watch 5 1 1 = ([?r, ?w], new_watch\<lparr>active_read_fds := {5}, active_write_fds := {5}\<rparr>)"
    by (simp_all add: sock_events_def read_change_def write_change_def new_watch_def)
  have k: "demo_kevent [?r] ?k = (True, ?k\<lparr>dk_filters := {(5, EVFILT_READ)}\<rparr>)" "demo_kevent [?r, ?w] ?k = (False, ?k\<lparr>dk_filters := {(5, EVFILT_READ)}\<rparr>)"
    by (simp_all add: demo_kq_def)
  have n: "active_read_fds new_watch = {}" "active_write_fds new_watch = {}" "perrors new_watch = []" by (simp_all add: new_watch_def)
  obtain w1 k1 where c1: "sock_cb demo_kevent 5 1 0 (new_watch, ?k) = (w1, k1)" by force
  obtain w2 k2 where c2: "sock_cb demo_kevent 5 1 1 (new_watch, ?k) = (w2, k2)" by force
  show ?thesis
    unfolding c1 c2
    using sock_cb_keeps_step [OF demo_kernel_doc i e(1) k(1) c1] sock_cb_keeps_step [OF demo_kernel_doc i e(2) k(2) c2] by (auto simp: n)
qed

text \<open>What a run of the loop from a state guarantees, with what its messages include.\<close>

definition run_ok :: "'k waiting \<Rightarrow> ('k \<Rightarrow> (int \<times> evfilt) set) \<Rightarrow> nat \<Rightarrow> watch \<Rightarrow> watch \<times> 'k \<Rightarrow> (nat \<times> 'k) list \<Rightarrow> bool" where
  "run_ok wait filters N w p rounds \<longleftrightarrow> set (perrors w) \<subseteq> set (perrors (fst p)) \<and>
    rounds \<noteq> [] \<and> length rounds \<le> Suc N \<and> last_wait wait (last rounds) \<and> (\<forall>q \<in> set (butlast rounds). \<not> last_wait wait q) \<and>
    (init_failed \<notin> set (perrors (fst p)) \<longrightarrow> in_step filters p \<and> (\<forall>(n, q) \<in> set rounds. n = card (filters q)))"

lemma wait_ares_last:
  assumes "kqueue_doc kevent wait filters" "watch_ok filters (w, k)" "last_wait wait (num_events w, k)"
  shows "\<exists>p rounds. wait_ares kevent wait ares (Suc n) (c, w, k) = Some ((c, p), rounds) \<and> run_ok wait filters N w p rounds"
proof -
  obtain a k1 where a: "wait (num_events w) k = (a, k1)" by force
  then have f: "filters k1 = filters k" by (rule kqueue_docD(3) [OF assms(1)])
  have "kevent_failed \<noteq> init_failed" by (simp add: kevent_failed_def init_failed_def)
  then show ?thesis
    using assms(2,3) a f watch_ok_room [OF assms(2)] by (auto simp: last_wait_def run_ok_def watch_ok_def in_step_def)
qed

lemma wait_ares_more:
  assumes "kqueue_doc kevent wait filters" "watch_ok filters (w, k)" "\<not> last_wait wait (num_events w, k)"
    and st_def: "st = wait_round kevent wait ares (c, w, k)"
  shows "wait_ares kevent wait ares (Suc n) (c, w, k) = map_option (\<lambda>(st, rounds). (st, (num_events w, k) # rounds)) (wait_ares kevent wait ares n st)"
    "watch_ok filters (snd st)" "set (perrors w) \<subseteq> set (perrors (fst (snd st)))"
proof -
  obtain e es k1 where a: "wait (num_events w) k = (KqEvents (e # es), k1)"
    using assms(3) by (auto simp: last_wait_def) (metis kq_answer.exhaust list.exhaust prod.collapse)
  then have st: "st = fold (dispatch kevent ares) (e # es) (c, w, k1)" by (simp add: st_def wait_round_def)
  then show "wait_ares kevent wait ares (Suc n) (c, w, k) = map_option (\<lambda>(st, rounds). (st, (num_events w, k) # rounds)) (wait_ares kevent wait ares n st)"
    using a by simp
  have "watch_ok filters (snd (c, w, k1))" using assms(2) kqueue_docD(3) [OF assms(1) a] by (simp add: watch_ok_def in_step_def)
  from dispatches_ok [OF assms(1) this, of ares "e # es"]
  show "watch_ok filters (snd st)" "set (perrors w) \<subseteq> set (perrors (fst (snd st)))" by (simp_all add: st)
qed

lemma wait_ares_run:
  assumes d: "kqueue_doc kevent wait filters"
  shows "watch_ok filters (w, k) \<Longrightarrow> last_wait wait (wait_of ((wait_round kevent wait ares ^^ N) (c, w, k))) \<Longrightarrow> N < fuel \<Longrightarrow>
    \<exists>c' p rounds. wait_ares kevent wait ares fuel (c, w, k) = Some ((c', p), rounds) \<and> run_ok wait filters N w p rounds"
proof (induction N arbitrary: c w k fuel)
  case 0
  then obtain n where n: "fuel = Suc n" by (cases fuel) auto
  have l: "last_wait wait (num_events w, k)" using "0.prems"(2) by (simp add: wait_of_def)
  show ?case using wait_ares_last [OF d "0.prems"(1) l, where ares = ares and n = n and c = c] n by blast
next
  case (Suc N)
  then obtain n where n: "fuel = Suc n" "N < n" by (cases fuel) auto
  show ?case
  proof (cases "last_wait wait (num_events w, k)")
    case True
    then show ?thesis using wait_ares_last [OF d Suc.prems(1) True, where ares = ares and n = n and c = c] n(1) by blast
  next
    case False
    note m = wait_ares_more [OF d Suc.prems(1) False refl, where ares = ares and c = c]
    obtain c1 w1 k1 where st: "wait_round kevent wait ares (c, w, k) = (c1, w1, k1)" by (metis prod_cases3)
    have "last_wait wait (wait_of ((wait_round kevent wait ares ^^ N) (c1, w1, k1)))"
      using Suc.prems(2) by (simp add: funpow_swap1 st)
    from Suc.IH [OF _ this n(2)] m(2) obtain c' p rounds where
      r: "wait_ares kevent wait ares n (c1, w1, k1) = Some ((c', p), rounds)" "run_ok wait filters N w1 p rounds" by (auto simp: st)
    have sub: "set (perrors w) \<subseteq> set (perrors (fst p))" using r(2) m(3) by (auto simp: run_ok_def st)
    then have "init_failed \<notin> set (perrors (fst p)) \<longrightarrow> num_events w = card (filters k)" using watch_ok_room [OF Suc.prems(1)] by (metis subsetD)
    then have "run_ok wait filters (Suc N) w p ((num_events w, k) # rounds)"
      using r(2) sub False by (auto simp: run_ok_def)
    then show ?thesis using r(1) m(1) [of n] by (auto simp: n(1) st)
  qed
qed

text \<open>
  C40. The loop ends at the first round in which the kernel reports a timeout or a failure, whatever the resolver does on the way: if there is such a
  round, then as many rounds are enough. As long as the kernel has accepted every change, each array of events has room for
  exactly one event per filter registered in that round, and the queue is in step with the sets at the end.
\<close>

theorem wait_ares_ends:
  assumes "kqueue_doc kevent wait filters" "watch_ok filters (w, k)"
    and "last_wait wait (wait_of ((wait_round kevent wait ares ^^ N) (c, w, k)))" "N < fuel"
  shows "\<exists>c' w' k' rounds. wait_ares kevent wait ares fuel (c, w, k) = Some ((c', w', k'), rounds) \<and>
    rounds \<noteq> [] \<and> length rounds \<le> Suc N \<and> last_wait wait (last rounds) \<and> (\<forall>q \<in> set (butlast rounds). \<not> last_wait wait q) \<and>
    (init_failed \<notin> set (perrors w') \<longrightarrow> in_step filters (w', k') \<and> (\<forall>(n, q) \<in> set rounds. n = card (filters q)))"
  using wait_ares_run [OF assms] by (fastforce simp: run_ok_def)

text \<open>An event on a socket, whereupon the resolver closes it, then a timeout: arrays of one and of no event.\<close>

definition demo_resolver :: "nat resolver" where
  "demo_resolver read write c = ([(read, 0, 0)], c + 1)"

theorem wait_ares_ends_witness:
  "\<exists>c w k rounds. wait_ares demo_kevent demo_wait demo_resolver 2
       (0, \<lparr>active_read_fds = {5}, active_write_fds = {}, perrors = []\<rparr>,
        \<lparr>dk_filters = {(5, EVFILT_READ)}, dk_room = 1, dk_answers = [KqEvents [(5, EVFILT_READ)]]\<rparr>) = Some ((c, w, k), rounds) \<and>
     in_step dk_filters (w, k) \<and> (\<forall>(n, q) \<in> set rounds. n = card (dk_filters q)) \<and> map fst rounds = [1, 0]"
proof -
  let ?w = "\<lparr>active_read_fds = {5}, active_write_fds = {}, perrors = []\<rparr>"
  let ?k = "\<lparr>dk_filters = {(5, EVFILT_READ)}, dk_room = 1, dk_answers = [KqEvents [(5, EVFILT_READ)]]\<rparr>"
  note steps = dispatch_def process_fd_def sock_cb_def sock_events_def read_change_def write_change_def demo_resolver_def
  have o: "watch_ok dk_filters (?w, ?k)" by (simp add: watch_ok_def in_step_def watched_def)
  have l: "last_wait demo_wait (wait_of ((wait_round demo_kevent demo_wait demo_resolver ^^ 1) (0, ?w, ?k)))"
    by (simp add: wait_round_def wait_of_def last_wait_def steps)
  have "\<exists>c w k rounds. wait_ares demo_kevent demo_wait demo_resolver 2 (0, ?w, ?k) = Some ((c, w, k), rounds) \<and> perrors w = [] \<and> map fst rounds = [1, 0]"
    by (simp add: numeral_2_eq_2 num_events_def steps)
  with wait_ares_ends [OF demo_kernel_doc o l, of 2] show ?thesis by fastforce
qed

end
