(* ===== verification/IoLoop.thy ===== *)
theory IoLoop
  imports Prelude
begin

text \<open>
  The event loops of \<open>ioloop/poll.cc\<close>, \<open>ioloop/main.cc\<close>, \<open>ioloop/epoll-live.cc\<close> and \<open>kqueue-fifos.cc\<close>. What the operating system and
  the capture library answer, round by round, is an argument; a loop returns what it prints and does, and whether it has ended within
  these answers.
\<close>

definition line :: "string \<Rightarrow> string" where
  "line s = s @ [CHR 0x0A]"

section \<open>Reading with poll\<close>

datatype loop_end = StillRunning | PollFailed | Ended

text \<open>One round has the result of \<open>poll\<close> and, when that is not \<open>-1\<close>, the result of \<open>read\<close>. \<open>perror\<close> prints to the error stream.\<close>

fun poll_rounds :: "(int \<times> int) list \<Rightarrow> string \<times> loop_end" where
  "poll_rounds [] = ([], StillRunning)"
| "poll_rounds ((polled, buff_sz) # rest) =
     (if polled = -1 then (line ''calling poll'', PollFailed)
      else
        let start = line ''calling poll'' @ line ''poll returned!''
        in if buff_sz = 1 then (start, Ended)
           else if buff_sz = 0 then (start @ line ''eof'', Ended)
           else (case poll_rounds rest of (out, e) \<Rightarrow> (start @ line (''read '' @ lld buff_sz @ '' bytes'') @ out, e)))"

definition poll_main :: "(int \<times> int) list \<Rightarrow> string \<times> loop_end" where
  "poll_main rounds =
     (case poll_rounds rounds of
        (out, Ended) \<Rightarrow> (line ''App Started'' @ out @ line ''App Ended'', Ended)
      | (out, e) \<Rightarrow> (line ''App Started'' @ out, e))"

section \<open>The libuv callbacks\<close>

text \<open>What a callback prints, and whether it stops its handle; \<open>error_text\<close> is \<open>strerror(errno)\<close>.\<close>

definition file_callback :: "string \<Rightarrow> int \<Rightarrow> int \<Rightarrow> int \<Rightarrow> string \<times> bool" where
  "file_callback error_text status events bytes =
     (let start = line (lld status @ '' '' @ lld events)
      in if bytes = 1 then (start @ line (''error '' @ error_text), True)
         else if bytes = 0 then (start @ line ''eof'', True)
         else (start @ line (''read '' @ lld bytes @ '' bytes''), False))"

text \<open>The result of \<open>pcap_dispatch\<close> is the number of packets, here with the lengths of those handed to \<open>pcap_hdlr\<close>.\<close>

definition pcap_hdlr :: "int \<Rightarrow> string" where
  "pcap_hdlr len = line (''got packet of length '' @ lld len)"

definition pcap_poll_callback :: "int \<Rightarrow> int \<Rightarrow> int list \<times> int \<Rightarrow> string \<times> bool" where
  "pcap_poll_callback status events answer =
     (case answer of (packets, loop) \<Rightarrow>
       let out = concat (map pcap_hdlr packets) @
             line (''(status = '' @ lld status @ '', events = '' @ lld events @ '') loop returned '' @ lld loop)
       in if loop = 0 then (out @ line ''out of data?'', True) else (out, False))"

definition pcap_idle_callback :: "int list \<times> int \<Rightarrow> string \<times> bool" where
  "pcap_idle_callback answer =
     (case answer of (packets, dispatched) \<Rightarrow>
       let out = concat (map pcap_hdlr packets) @ line (''dispatch returned '' @ lld dispatched)
       in if dispatched = 0 then (out @ line ''out of data?'', True) else (out, False))"

section \<open>Opening an interface\<close>

text \<open>The answers of the capture library, in the order of the calls; statuses are as returned. \<open>pcap_create\<close> gives a handle or not.\<close>

record pcap_answers =
  created :: bool
  snaplen :: int
  promisc :: int
  timeout :: int
  buffer_size :: int
  activated :: int
  selectable_fd :: int

datatype open_result = NullHandle | Failed string | Opened int

text \<open>
  \<open>OpenIntf\<close>, with \<open>-1\<close> together with the call whose message is printed; \<open>pcap_geterr\<close> of a null handle is undefined. The netmask it
  computes is not used. \<open>HAVE_LINUX\<close> is not set by the build.
\<close>

definition OpenIntf :: "pcap_answers \<Rightarrow> open_result" where
  "OpenIntf a =
     (if \<not> created a then NullHandle
      else if snaplen a \<noteq> 0 then Failed ''pcap_set_snaplen''
      else if promisc a \<noteq> 0 then Failed ''pcap_set_promisc''
      else if timeout a \<noteq> 0 then Failed ''pcap_set_timeout''
      else if buffer_size a \<noteq> 0 then Failed ''pcap_set_buffer_size''
      else if activated a \<noteq> 0 then Failed ''pcap_activate''
      else if selectable_fd a = -1 then Failed ''pcap_get_selectable_fd''
      else Opened (selectable_fd a))"

section \<open>The epoll loop\<close>

definition EPOLLIN :: uint32 where "EPOLLIN = 0x001"
definition EPOLLERR :: uint32 where "EPOLLERR = 0x008"
definition EPOLLHUP :: uint32 where "EPOLLHUP = 0x010"

text \<open>One event: what is printed, and how many packets are taken from the handle; \<open>len\<close> is the length of the next packet.\<close>

definition epoll_event :: "int \<Rightarrow> uint32 \<Rightarrow> string \<times> nat" where
  "epoll_event len events =
     (if events = EPOLLERR \<or> events = EPOLLHUP then (line ''epoll had an error'', 0)
      else if events = EPOLLIN then (line (''packet of length '' @ lld len), 1)
      else ([], 0))"

definition epoll_round :: "int \<times> uint32 list \<Rightarrow> int \<Rightarrow> string \<times> nat" where
  "epoll_round answer len =
     (case answer of (ret, events) \<Rightarrow>
       let start = line ''Waiting for data from queue''
       in if ret = -1 then (start, 0)
          else if ret = 0 then (start @ line ''timeout'', 0)
          else
            let rs = map (epoll_event len) (take (nat ret) events)
            in (start @ concat (map fst rs), sum_list (map snd rs)))"

section \<open>The kqueue loop over a fifo and a pipe\<close>

record kev =
  ident :: int
  ev_error :: bool
  ev_eof :: bool

text \<open>The inner loop: what is printed, and the descriptors read. A break leaves only this loop.\<close>

fun fifo_events :: "int \<Rightarrow> int \<Rightarrow> kev list \<Rightarrow> string \<times> int list" where
  "fifo_events pipe_fd fifo_fd [] = ([], [])"
| "fifo_events pipe_fd fifo_fd (e # es) =
     (if ev_error e then (line ''flags had error'', [])
      else if ev_eof e then (line ''premature end of file!'', [])
      else
        let (out, fds) =
              (if ident e = pipe_fd then (line ''Got data from pipe'', [pipe_fd])
               else if ident e = fifo_fd then (line ''Got data from fifo'', [fifo_fd])
               else ([], []));
            (out', fds') = fifo_events pipe_fd fifo_fd es
        in (out @ out', fds @ fds'))"

datatype kev_answer = KevFailed | KevTimeout | KevEvents "kev list"

fun fifo_loop :: "int \<Rightarrow> int \<Rightarrow> kev_answer list \<Rightarrow> nat \<Rightarrow> string \<times> int list \<times> bool" where
  "fifo_loop pipe_fd fifo_fd [] cnt = ([], [], False)"
| "fifo_loop pipe_fd fifo_fd (a # as) cnt =
     (let start = line ''main: Waiting for kevent''
      in case a of
           KevFailed \<Rightarrow> (start, [], True)
         | KevTimeout \<Rightarrow>
             if cnt + 1 = 50 then (start @ line ''timeout'', [], True)
             else (case fifo_loop pipe_fd fifo_fd as (cnt + 1) of (out, fds, e) \<Rightarrow> (start @ line ''timeout'' @ out, fds, e))
         | KevEvents es \<Rightarrow>
             (case fifo_events pipe_fd fifo_fd es of (out', fds') \<Rightarrow>
               (case fifo_loop pipe_fd fifo_fd as cnt of (out, fds, e) \<Rightarrow> (start @ out' @ out, fds' @ fds, e))))"

section \<open>Lemmas\<close>

text \<open>The first round at which \<open>poll\<close> fails or \<open>read\<close> returns 0 or 1 decides how the loop ends.\<close>

definition decisive :: "int \<times> int \<Rightarrow> bool" where
  "decisive r \<longleftrightarrow> fst r = -1 \<or> snd r \<in> {0, 1}"

lemma poll_rounds_end:
  "snd (poll_rounds rounds) =
     (case find decisive rounds of None \<Rightarrow> StillRunning | Some (p, n) \<Rightarrow> if p = -1 then PollFailed else Ended)"
  by (induction rounds rule: poll_rounds.induct) (auto simp: decisive_def Let_def split: prod.splits)

lemma lld_minus_one: "lld (-1) = ''-1''"
  by code_simp

section \<open>Properties\<close>

text \<open>
  The tests of \<open>poll.cc\<close> and of the libuv callback compare the result of \<open>read\<close> with 1 where an error is \<open>-1\<close>: a read of one byte ends
  the program as if it had failed, and a failed read is reported as a number of bytes and the loop goes on. Otherwise the loop ends at the
  end of the file or when \<open>poll\<close> fails, whichever comes first, and not before.
\<close>

theorem poll_takes_one_byte_for_error:
  "poll_main ((0, 1) # rounds) = (line ''App Started'' @ line ''calling poll'' @ line ''poll returned!'' @ line ''App Ended'', Ended) \<and>
   poll_rounds ((0, -1) # rounds) =
     (line ''calling poll'' @ line ''poll returned!'' @ line ''read -1 bytes'' @ fst (poll_rounds rounds), snd (poll_rounds rounds)) \<and>
   snd (file_callback error_text status events 1) \<and> \<not> snd (file_callback error_text status events (-1)) \<and>
   snd (poll_rounds rounds) =
     (case find (\<lambda>(p, n). p = -1 \<or> n = 0 \<or> n = 1) rounds of
        None \<Rightarrow> StillRunning
      | Some (p, n) \<Rightarrow> if p = -1 then PollFailed else Ended)"
proof -
  have "decisive = (\<lambda>(p, n). p = -1 \<or> n = 0 \<or> n = 1)" by (auto simp: decisive_def)
  then show ?thesis
    using poll_rounds_end [of rounds] by (simp add: poll_main_def file_callback_def Let_def case_prod_beta lld_minus_one)
qed

text \<open>
  The loop of \<open>kqueue-fifos.cc\<close> ends exactly when a call of \<open>kevent\<close> fails or 50 of them have timed out, also with events in between;
  an error or end-of-file flag only skips the remaining events of its round.
\<close>

definition kev_timeouts :: "kev_answer list \<Rightarrow> nat" where
  "kev_timeouts as = length (filter (\<lambda>a. a = KevTimeout) as)"

theorem fifo_loop_ends:
  "snd (snd (fifo_loop pipe_fd fifo_fd answers 0)) \<longleftrightarrow> KevFailed \<in> set answers \<or> 50 \<le> kev_timeouts answers"
proof -
  have "cnt < 50 \<Longrightarrow> snd (snd (fifo_loop pipe_fd fifo_fd as cnt)) \<longleftrightarrow> KevFailed \<in> set as \<or> 50 \<le> cnt + kev_timeouts as" for cnt as
  proof (induction "as" arbitrary: cnt)
    case Nil
    then show ?case by (simp add: kev_timeouts_def)
  next
    case (Cons a "as")
    show ?case
    proof (cases a)
      case KevTimeout
      show ?thesis
      proof (cases "cnt + 1 = 50")
        case True
        then show ?thesis using KevTimeout by (simp add: kev_timeouts_def)
      next
        case False
        then show ?thesis
          using Cons.IH [of "cnt + 1"] Cons.prems KevTimeout by (auto simp: kev_timeouts_def Let_def split: prod.splits)
      qed
    next
      case (KevEvents es)
      then show ?thesis using Cons.IH [of cnt] Cons.prems by (auto simp: kev_timeouts_def Let_def split: prod.splits)
    qed simp
  qed
  from this [of 0 answers] show ?thesis by simp
qed

text \<open>
  The epoll loop compares the flags of an event as a whole: data that arrives together with a hang-up or error is neither read nor
  reported.
\<close>

theorem epoll_ignores_combined_flags:
  "epoll_event len (EPOLLIN OR EPOLLHUP) = ([], 0) \<and> epoll_event len (EPOLLIN OR EPOLLERR) = ([], 0) \<and>
   epoll_round (1, [EPOLLIN OR EPOLLHUP]) len = (line ''Waiting for data from queue'', 0) \<and>
   epoll_round (1, [EPOLLIN]) len = (line ''Waiting for data from queue'' @ line (''packet of length '' @ lld len), 1)"
  by (simp add: epoll_event_def epoll_round_def EPOLLIN_def EPOLLERR_def EPOLLHUP_def)

end
