(* ===== verification/QueueDriver.thy ===== *)
theory QueueDriver
  imports Complex_Main PriorityQueueVect BHeapProps
begin

text \<open>
  The benchmark and tests of \<open>queue/main.cc\<close> as a whole: each block fills one container with elements made by \<open>new\<close> and empties it.
  A pointer to an element stands together with the time of the element, which no container changes; the n-th call of \<open>new\<close> of a run
  returns a fresh address. \<open>std::shuffle\<close> and the clock are parameters. Doubles are exact numbers here, and all times of elements are
  integers.
\<close>

section \<open>The helpers\<close>

definition generate_randoms :: "(int list \<Rightarrow> int list) \<Rightarrow> nat \<Rightarrow> int list" where
  "generate_randoms shuffle n = shuffle (map int [1..<Suc n])"

record timeval =
  tv_sec :: int
  tv_usec :: int

definition time_diff :: "timeval \<Rightarrow> timeval \<Rightarrow> rat" where
  "time_diff start finish =
     (let start_time = of_int (tv_sec start) + of_int (tv_usec start) / 1000000;
          end_time = of_int (tv_sec finish) + of_int (tv_usec finish) / 1000000
      in end_time - start_time)"

text \<open>The lines printed by \<open>diagnostics\<close>; a quotient by zero prints as infinity or not-a-number.\<close>

datatype diag_line =
    StockLine rat rat rat
  | SizesDiffer
  | IndexDiffers nat rat rat
  | CompareLine string rat "rat option" rat "rat option" rat "rat option"

definition quotient :: "rat \<Rightarrow> rat \<Rightarrow> rat option" where
  "quotient a b = (if b = 0 then None else Some (a / b))"

fun compare_outputs :: "nat \<Rightarrow> rat list \<Rightarrow> rat list \<Rightarrow> diag_line list" where
  "compare_outputs i (s # stock) (x # output) =
     (if x \<noteq> s then [IndexDiffers i s x] else compare_outputs (i + 1) stock output)"
| "compare_outputs i stock output = []"

definition diagnostics ::
  "string \<Rightarrow> timeval \<times> timeval \<times> timeval \<Rightarrow> rat list \<Rightarrow> rat list \<Rightarrow> rat \<Rightarrow> rat \<Rightarrow> diag_line list" where
  "diagnostics place clock stock output stock_add stock_remove =
     (case clock of (start, mid, finish) \<Rightarrow>
       let add_time = time_diff start mid;
           remove_time = time_diff mid finish
       in if stock_add = 0 then [StockLine add_time remove_time (add_time + remove_time)]
          else
            (if length output \<noteq> length stock then [SizesDiffer]
             else if output \<noteq> [] then compare_outputs 0 stock output else []) @
            [CompareLine place add_time (quotient add_time stock_add) remove_time (quotient remove_time stock_remove)
               (add_time + remove_time) (quotient (add_time + remove_time) (stock_add + stock_remove))])"

section \<open>The containers\<close>

type_synonym obj = "ptr \<times> int"

text \<open>The elements made for the values \<open>rs\<close>, from the address \<open>base\<close> on.\<close>

definition new_elements :: "ptr \<Rightarrow> int list \<Rightarrow> obj list" where
  "new_elements base rs = zip [base..<base + length rs] rs"

definition Comparer :: "obj \<Rightarrow> obj \<Rightarrow> bool" where
  "Comparer l r \<longleftrightarrow> snd l < snd r"

text \<open>\<open>auto* e = new PQ_Element(r); q.Add(e);\<close> and \<open>e = q.Remove(); ... e->Time()\<close>.\<close>

definition add_new :: "int PriorityQueue \<Rightarrow> obj \<Rightarrow> int PriorityQueue" where
  "add_new q e = fst (Add (q\<lparr>elems := (elems q)(fst e := new_PQ_Element (snd e))\<rparr>) (fst e))"

definition remove_time :: "int PriorityQueue \<Rightarrow> obj option \<times> int PriorityQueue" where
  "remove_time q = (case Remove q of (None, q') \<Rightarrow> (None, q') | (Some e, q') \<Rightarrow> (Some (e, Time q' e), q'))"

text \<open>
  The standard containers with a comparator: \<open>std::priority_queue\<close> has its greatest element on top, \<open>std::set\<close> is in ascending order and
  ignores an element equivalent to one it holds, \<open>std::multiset\<close> puts it after its equals. Each is the list of its elements from the one
  that is taken first.
\<close>

fun std_push :: "('e \<Rightarrow> 'e \<Rightarrow> bool) \<Rightarrow> 'e list \<Rightarrow> 'e \<Rightarrow> 'e list" where
  "std_push lt [] e = [e]"
| "std_push lt (x # xs) e = (if lt x e then e # x # xs else x # std_push lt xs e)"

fun std_set_insert :: "('e \<Rightarrow> 'e \<Rightarrow> bool) \<Rightarrow> 'e list \<Rightarrow> 'e \<Rightarrow> 'e list" where
  "std_set_insert lt [] e = [e]"
| "std_set_insert lt (x # xs) e =
     (if lt e x then e # x # xs else if lt x e then x # std_set_insert lt xs e else x # xs)"

fun std_multiset_insert :: "('e \<Rightarrow> 'e \<Rightarrow> bool) \<Rightarrow> 'e list \<Rightarrow> 'e \<Rightarrow> 'e list" where
  "std_multiset_insert lt [] e = [e]"
| "std_multiset_insert lt (x # xs) e = (if lt e x then e # x # xs else x # std_multiset_insert lt xs e)"

fun std_take :: "'e list \<Rightarrow> 'e option \<times> 'e list" where
  "std_take [] = (None, [])"
| "std_take (e # es) = (Some e, es)"

section \<open>The benchmark\<close>

text \<open>A block: the elements made by \<open>new\<close>, the elements in the order they leave the container, and those given to \<open>delete\<close>.\<close>

record block =
  allocated :: "obj list"
  taken :: "obj list"
  deleted :: "obj list"

text \<open>
  The destructor of the queue finds it empty: the loop ends when \<open>Remove\<close> returns null. The initial size of a queue is 16. \<open>None\<close> means
  that a loop took more rounds than there are elements, plus the last one.
\<close>

definition pq_block :: "(ptr \<Rightarrow> int PQ_Element) \<Rightarrow> ptr \<Rightarrow> int list \<Rightarrow> (int list \<times> block) option" where
  "pq_block st base randoms =
     (let es = new_elements base randoms
      in case drain remove_time (Suc (length es)) (fill add_new es (new_PriorityQueue st 16)) of
           None \<Rightarrow> None
         | Some out \<Rightarrow> Some (map snd out, \<lparr>allocated = es, taken = out, deleted = out\<rparr>))"

definition std_pq_block :: "ptr \<Rightarrow> int list \<Rightarrow> block option" where
  "std_pq_block base randoms =
     (let es = new_elements base randoms
      in case drain std_take (Suc (length es)) (fill (std_push Comparer) es []) of
           None \<Rightarrow> None
         | Some out \<Rightarrow> Some \<lparr>allocated = es, taken = out, deleted = out\<rparr>)"

text \<open>This block only erases the pointers.\<close>

definition std_set_block :: "ptr \<Rightarrow> int list \<Rightarrow> block option" where
  "std_set_block base randoms =
     (let es = new_elements base randoms
      in case drain std_take (Suc (length es)) (fill (std_set_insert Comparer) es []) of
           None \<Rightarrow> None
         | Some out \<Rightarrow> Some \<lparr>allocated = es, taken = out, deleted = []\<rparr>)"

text \<open>The blocks for \<open>rollbear::prio_queue\<close> differ in the block size; the pointer is deleted before it is popped.\<close>

definition rollbear_block :: "nat \<Rightarrow> ptr \<Rightarrow> int list \<Rightarrow> block option" where
  "rollbear_block bs base randoms =
     (let es = new_elements base randoms
      in case drain (bq_remove bs) (Suc (length es)) (fill (bq_add bs) (map (\<lambda>(p, r). (r, p)) es) new_prio_queue) of
           None \<Rightarrow> None
         | Some out \<Rightarrow>
             let out = map (\<lambda>(r, p). (p, r)) out
             in Some \<lparr>allocated = es, taken = out, deleted = out\<rparr>)"

text \<open>
  The whole benchmark, lt the block for \<open>absl::btree_set\<close>, a container that is not part of the repository: the contents of \<open>ordered\<close>,
  and for each block what it does and what \<open>diagnostics\<close> prints. \<open>clock\<close> has the three readings of each block.
\<close>

definition benchmark ::
  "(int list \<Rightarrow> int list) \<Rightarrow> (ptr \<Rightarrow> int PQ_Element) \<Rightarrow> (nat \<Rightarrow> timeval \<times> timeval \<times> timeval) \<Rightarrow> nat \<Rightarrow>
   (int list \<times> (string \<times> block \<times> diag_line list) list) option" where
  "benchmark shuffle st clock n =
     (let randoms = generate_randoms shuffle n;
          base = (\<lambda>k. 1 + k * n);
          (start, mid, finish) = clock 0;
          stock_add = time_diff start mid;
          stock_remove = time_diff mid finish;
          others =
            [(''StdPQ'', std_pq_block (base 1) randoms, 1),
             (''std::multiset'', std_set_block (base 2) randoms, 2),
             (''rollbear-8'', rollbear_block 8 (base 3) randoms, 3),
             (''rollbear-16'', rollbear_block 16 (base 4) randoms, 4),
             (''rollbear-32'', rollbear_block 32 (base 5) randoms, 5),
             (''rollbear-64'', rollbear_block 64 (base 6) randoms, 6)]
      in case pq_block st (base 0) randoms of
           None \<Rightarrow> None
         | Some (ts, b) \<Rightarrow>
             if list_all (\<lambda>(name, r, k). r \<noteq> None) others then
               Some (ts,
                 (''PQ'', b, diagnostics ''PQ'' (clock 0) [] [] 0 0) #
                 map (\<lambda>(name, r, k). (name, the r, diagnostics name (clock k) [] [] stock_add stock_remove)) others)
             else None)"

section \<open>The tests\<close>

datatype out_line = HeapLine nat nat | ElementLine int int | SizeLine nat | TimeLine int | PrioLine int | EmptyLine

definition delete_PriorityQueue :: "'t PriorityQueue \<Rightarrow> ptr list" where
  "delete_PriorityQueue q = take (heap_size q) (heap q)"

definition Output :: "int PriorityQueue \<Rightarrow> out_line list" where
  "Output q =
     HeapLine (heap_size q) (max_heap_size q) #
     map (\<lambda>e. ElementLine (Offset q e) (Time q e)) (take (heap_size q) (heap q))"

fun multiset_trace :: "obj list \<Rightarrow> obj list \<Rightarrow> out_line list \<times> obj list" where
  "multiset_trace [] q = ([], q)"
| "multiset_trace (e # es) q =
     (let q = std_multiset_insert Comparer q e;
          (out, q') = multiset_trace es q
      in (SizeLine (length q) # map (TimeLine \<circ> snd) q @ out, q'))"

text \<open>What \<open>ordering\<close> prints, and the addresses of its elements that are never deleted.\<close>

definition ordering_values :: "int list" where
  "ordering_values = [9, 4, 8, 1, 6, 7, 2, 5, 10, 3]"

definition ordering :: "(ptr \<Rightarrow> int PQ_Element) \<Rightarrow> (out_line list \<times> ptr list) option" where
  "ordering st =
     (let es = new_elements 1 ordering_values;
          q = fill add_new es (new_PriorityQueue st 16);
          q' = snd (Remove q);
          freed = delete_PriorityQueue q';
          es2 = new_elements 11 ordering_values;
          (out2, q2) = multiset_trace es2 [];
          es3 = new_elements 21 ordering_values
      in case drain (bq_remove 8) (Suc (length es3)) (fill (bq_add 8) (map (\<lambda>(p, r). (r, p)) es3) new_prio_queue) of
           None \<Rightarrow> None
         | Some out3 \<Rightarrow>
             Some (Output q @ [EmptyLine] @ out2 @ map (PrioLine \<circ> fst) out3,
               filter (\<lambda>p. p \<notin> set (freed @ map snd out3)) (map fst (es @ es2 @ es3))))"


text \<open>What \<open>quick_test\<close> prints: the times of the first two queues, the pointers its last loop reads, and the address of what is not deleted.\<close>

definition quick_test_times :: "int list" where
  "quick_test_times = [1, 3, 2, 5, 4]"

definition add_new_vect :: "int PriorityQueueVect \<Rightarrow> obj \<Rightarrow> int PriorityQueueVect" where
  "add_new_vect q e = fst (Vect_Add (q\<lparr>v_elems := (v_elems q)(fst e := new_PQ_Element (snd e))\<rparr>) (fst e))"

definition remove_time_vect :: "int PriorityQueueVect \<Rightarrow> obj option \<times> int PriorityQueueVect" where
  "remove_time_vect q = (case Vect_Remove q of (None, q') \<Rightarrow> (None, q') | (Some e, q') \<Rightarrow> (Some (e, Vect_Time q' e), q'))"

definition quick_test :: "(ptr \<Rightarrow> int PQ_Element) \<Rightarrow> (int list \<times> int list \<times> ptr option list) option" where
  "quick_test st =
     (let es1 = new_elements 1 quick_test_times;
          es2 = new_elements 6 quick_test_times;
          es3 = map (\<lambda>(p, r). (r, p)) es2
      in case (drain remove_time (Suc (length es1)) (fill add_new es1 (new_PriorityQueue st 16)),
               drain remove_time_vect (Suc (length es2)) (fill add_new_vect es2 (new_PriorityQueueVect st 16)),
               quick_test_loop 16 (Suc (length es3)) (fill (bq_add 16) es3 new_prio_queue)) of
           (Some out1, Some out2, Some out3) \<Rightarrow> Some (map snd out1, map snd out2, out3)
         | _ \<Rightarrow> None)"

section \<open>The containers as priority queues\<close>

lemma pq_alloc:
  assumes "pq_inv q" "p \<notin># contents q"
  shows "pq_inv (q\<lparr>elems := (elems q)(p := e)\<rparr>)" "contents (q\<lparr>elems := (elems q)(p := e)\<rparr>) = contents q"
    "Time (q\<lparr>elems := (elems q)(p := e)\<rparr>) = (Time q)(p := elt_time e)"
proof -
  have a: "heap q ! i \<noteq> p" if "i < heap_size q" for i
    using assms that by (auto simp: contents_def bag_def pq_inv_def in_set_conv_nth)
  have b: "heap q ! (i div 2) \<noteq> p" if "i < heap_size q" for i
    by (rule a) (rule le_less_trans [OF div_le_dividend that])
  show "pq_inv (q\<lparr>elems := (elems q)(p := e)\<rparr>)"
    using assms(1) by (simp add: pq_inv_def offsets_ok_def ordered_def Offset_def Time_def a b)
qed (auto simp: contents_def bag_def Time_def)

abbreviation objs :: "int PriorityQueue \<Rightarrow> obj multiset" where
  "objs q \<equiv> image_mset (\<lambda>p. (p, Time q p)) (contents q)"

lemma add_new_ok:
  assumes "pq_inv q" "fst e \<notin># contents q"
  shows "pq_inv (add_new q e)" "contents (add_new q e) = add_mset (fst e) (contents q)" "objs (add_new q e) = add_mset e (objs q)"
proof -
  note a = pq_alloc [OF assms, of "new_PQ_Element (snd e)"]
  have "fst e \<notin># contents (q\<lparr>elems := (elems q)(fst e := new_PQ_Element (snd e))\<rparr>)" using assms(2) a(2) by simp
  note b = Add_correct [OF a(1) this]
  show "pq_inv (add_new q e)" "contents (add_new q e) = add_mset (fst e) (contents q)"
    using b a by (simp_all add: add_new_def)
  moreover have "Time (add_new q e) = (Time q)(fst e := snd e)" using b a by (simp add: add_new_def new_PQ_Element_def)
  ultimately show "objs (add_new q e) = add_mset e (objs q)" using assms(2) by (cases e) (auto intro!: image_mset_cong)
qed

text \<open>Elements are told apart by their address: \<open>\<tau>\<close> gives the time of the element at each address.\<close>

interpretation nq: pq_laws pq_inv objs "\<lambda>q. snd" "\<lambda>q e. fst e \<notin># contents q \<and> snd e = \<tau> (fst e)" add_new remove_time
  for \<tau> :: "ptr \<Rightarrow> int"
proof (unfold_locales, goal_cases)
  case (1 q)
  then show ?case by (simp add: remove_time_def Remove_empty)
next
  case (2 q)
  then obtain e q' where "Remove q = (Some e, q')" "e \<in># contents q" "contents q' = contents q - {#e#}"
      "\<forall>x \<in># contents q. Time q e \<le> Time q x" "pq_inv q'" "Time q' = Time q"
    using pq.pop_min [of q] by auto
  then show ?case by (auto simp: remove_time_def image_mset_Diff)
next
  case (6 q e x)
  then show ?case using add_new_ok(2) [of q e] by (auto simp: prod_eq_iff)
qed (use add_new_ok in auto)

text \<open>The two standard containers: the priority queue takes any element, the set one whose time it does not hold yet.\<close>

lemma std_push_mset [simp]: "mset (std_push lt xs e) = add_mset e (mset xs)"
  by (induction xs) auto

lemma std_push_set [simp]: "set (std_push lt xs e) = insert e (set xs)"
  by (metis set_mset_add_mset_insert set_mset_mset std_push_mset)

abbreviation falling :: "obj list \<Rightarrow> bool" where
  "falling \<equiv> sorted_wrt (\<lambda>x y. snd y \<le> snd x)"

lemma std_push_falling: "falling xs \<Longrightarrow> falling (std_push Comparer xs e)"
  by (induction xs) (auto simp: Comparer_def)

interpretation sq: pq_total falling mset "\<lambda>q e. - snd e" "\<lambda>q e. True" "std_push Comparer" std_take
proof (unfold_locales, goal_cases)
  case (2 q)
  then show ?case by (cases q) auto
qed (auto simp: std_push_falling)

abbreviation rising :: "obj list \<Rightarrow> bool" where
  "rising \<equiv> sorted_wrt (\<lambda>x y. snd x < snd y)"

lemma std_set_insert_ok:
  assumes "rising xs" "snd e \<notin> snd ` set xs"
  shows "rising (std_set_insert Comparer xs e) \<and> mset (std_set_insert Comparer xs e) = add_mset e (mset xs)"
  using assms
proof (induction xs)
  case (Cons x xs)
  then have "set (std_set_insert Comparer xs e) = insert e (set xs)"
    by (metis (no_types, lifting) image_insert insertCI list.simps(15) set_mset_add_mset_insert set_mset_mset sorted_wrt.simps(2))
  moreover have "Comparer e x \<longleftrightarrow> snd e < snd x" "Comparer x e \<longleftrightarrow> snd x < snd e" by (simp_all add: Comparer_def)
  ultimately show ?case using Cons by auto
qed simp

interpretation ss: pq_laws rising mset "\<lambda>q. snd" "\<lambda>q e. snd e \<notin> snd ` set q \<and> fst e = \<alpha> (snd e)" "std_set_insert Comparer" std_take
  for \<alpha> :: "int \<Rightarrow> ptr"
proof (unfold_locales, goal_cases)
  case (2 q)
  then show ?case by (cases q) (auto simp: order.strict_implies_order)
next
  case (6 q e x)
  then have "set (std_set_insert Comparer q e) = insert e (set q)"
    using std_set_insert_ok [of q e] by (metis set_mset_add_mset_insert set_mset_mset)
  then show ?case using 6 by (auto simp: prod_eq_iff)
qed (auto simp: std_set_insert_ok)


section \<open>The blocks\<close>

lemma new_elements_simps [simp]:
  "map fst (new_elements base rs) = [base..<base + length rs]" "map snd (new_elements base rs) = rs"
  "length (new_elements base rs) = length rs"
  by (simp_all add: new_elements_def)

lemma new_elements_distinct: "distinct (new_elements base rs)"
  using distinct_map [of fst "new_elements base rs"] by (simp del: distinct_zipI1)

lemma new_elements_time: "e \<in> set (new_elements base rs) \<Longrightarrow> snd e = rs ! (fst e - base)"
  by (auto simp: new_elements_def set_zip)

lemma new_elements_address:
  assumes "distinct rs" "e \<in> set (new_elements base rs)"
  shows "fst e = the (map_of (zip rs [base..<base + length rs]) (snd e))"
proof -
  obtain i where "i < length rs" "e = (base + i, rs ! i)" using assms(2) by (auto simp: new_elements_def set_zip)
  then show ?thesis using map_of_zip_nth [of rs "[base..<base + length rs]" i] assms(1) by simp
qed

lemma pq_block_ok:
  "\<exists>out. pq_block st base rs = Some (map snd out, \<lparr>allocated = new_elements base rs, taken = out, deleted = out\<rparr>) \<and>
     mset out = mset (new_elements base rs) \<and> sorted (map snd out)"
proof -
  let ?es = "new_elements base rs"
  have "\<exists>out. drain remove_time (Suc (length ?es)) (fill add_new ?es (new_PriorityQueue st 16)) = Some out \<and>
      mset out = mset ?es \<and> sorted (map snd out)"
    using new_PriorityQueue_inv [of 16 st]
    by (intro nq.fill_drain [where \<tau> = "\<lambda>p. rs ! (p - base)"]) (simp_all add: new_elements_distinct new_elements_time)
  then show ?thesis by (auto simp: pq_block_def Let_def simp del: drain.simps)
qed

lemma std_pq_block_ok:
  "\<exists>out. std_pq_block base rs = Some \<lparr>allocated = new_elements base rs, taken = out, deleted = out\<rparr> \<and>
     mset out = mset (new_elements base rs) \<and> sorted (rev (map snd out))"
proof -
  have "sorted (map (\<lambda>e. - snd e) out) \<longleftrightarrow> sorted (rev (map snd out))" for out :: "obj list"
    by (simp add: sorted_wrt_rev sorted_wrt_map)
  then show ?thesis
    using sq.fill_drain_any [of "[]" "new_elements base rs"] by (auto simp: std_pq_block_def Let_def simp del: drain.simps)
qed

lemma std_set_block_ok:
  assumes "distinct rs"
  shows "\<exists>out. std_set_block base rs = Some \<lparr>allocated = new_elements base rs, taken = out, deleted = []\<rparr> \<and>
     mset out = mset (new_elements base rs) \<and> sorted (map snd out)"
proof -
  let ?es = "new_elements base rs"
  have "\<exists>out. drain std_take (Suc (length ?es)) (fill (std_set_insert Comparer) ?es []) = Some out \<and>
      mset out = mset ?es \<and> sorted (map snd out)"
    by (intro ss.fill_drain [where \<alpha> = "\<lambda>r. the (map_of (zip rs [base..<base + length rs]) r)"])
      (simp_all add: new_elements_distinct new_elements_address [OF assms])
  then show ?thesis by (auto simp: std_set_block_def Let_def simp del: drain.simps)
qed

lemma rollbear_block_ok:
  assumes "pow2_block bs"
  shows "\<exists>out. rollbear_block bs base rs = Some \<lparr>allocated = new_elements base rs, taken = out, deleted = out\<rparr> \<and>
     mset out = mset (new_elements base rs) \<and> sorted (map snd out)"
proof -
  let ?es = "map (\<lambda>(p, r). (r, p)) (new_elements base rs)"
  obtain out where out: "drain (bq_remove bs) (Suc (length ?es)) (fill (bq_add bs) ?es new_prio_queue) = Some out"
      "mset out = mset ?es" "sorted (map fst out)"
    using bq.fill_drain_any [of bs new_prio_queue ?es] new_prio_queue_ok [OF assms] assms by blast
  have "image_mset (\<lambda>(r, p). (p, r)) (mset out) = mset (new_elements base rs)"
    unfolding out(2) by (simp add: multiset.map_comp comp_def case_prod_beta)
  moreover have "snd \<circ> (\<lambda>(r, p). (p, r)) = (fst :: int \<times> ptr \<Rightarrow> int)" by auto
  ultimately show ?thesis
    using out(1,3) by (auto simp: rollbear_block_def Let_def simp del: drain.simps)
qed


text \<open>A rearrangement of the numbers that is in order is the numbers themselves.\<close>

lemma ascending_numbers:
  assumes "mset xs = mset (map int [1..<Suc n])" "sorted xs"
  shows "xs = map int [1..<Suc n]"
proof -
  have "sorted (map int [1..<Suc n])" by (simp add: sorted_map del: upt_Suc)
  then show ?thesis using assms by (metis properties_for_sort)
qed

lemma pow2_blocks:
  assumes "bs \<in> {8, 16, 32, 64}"
  shows "pow2_block bs"
proof -
  have "bs \<in> {2 ^ Suc 2, 2 ^ Suc 3, 2 ^ Suc 4, 2 ^ Suc 5}" using assms by simp
  then show ?thesis unfolding pow2_block_def by blast
qed

definition frees_all :: "nat \<Rightarrow> block \<Rightarrow> bool" where
  "frees_all n b \<longleftrightarrow> length (allocated b) = n \<and> distinct (map fst (allocated b)) \<and> mset (deleted b) = mset (allocated b)"

lemma taken_ascending:
  assumes "mset out = mset (new_elements base rs)" "sorted (map snd out)" "mset rs = mset (map int [1..<Suc n])"
  shows "map snd out = map int [1..<Suc n]"
proof -
  have "mset (map snd out) = mset rs" using assms(1) new_elements_simps(2) [of base rs] by (metis mset_map)
  then show ?thesis using assms(2,3) by (intro ascending_numbers) simp_all
qed

lemma taken_descending:
  assumes "mset out = mset (new_elements base rs)" "sorted (rev (map snd out))" "mset rs = mset (map int [1..<Suc n])"
  shows "map snd out = rev (map int [1..<Suc n])"
  using taken_ascending [of "rev out" base rs n] assms by (simp add: rev_map [symmetric] rev_swap del: upt_Suc)

section \<open>Properties\<close>

text \<open>
  C24. The benchmark on the numbers from 1 to \<open>n\<close> in any order ends, its first block records them in ascending order, every block takes all its
  elements out, \<open>std::priority_queue\<close> in descending order (its comparator makes it a queue for the greatest time) and the others in
  ascending order, and every block deletes each of its elements exactly once, except the block over \<open>std::set\<close>, which is reported as
  \<open>std::multiset\<close> and deletes none.
\<close>

theorem benchmark_memory:
  assumes "\<And>xs. mset (shuffle xs) = mset xs"
  shows "\<exists>b0 b1 b2 b3 b4 b5 b6 d0 d1 d2 d3 d4 d5 d6.
    benchmark shuffle st clock n =
      Some (map int [1..<Suc n],
        [(''PQ'', b0, d0), (''StdPQ'', b1, d1), (''std::multiset'', b2, d2), (''rollbear-8'', b3, d3), (''rollbear-16'', b4, d4),
         (''rollbear-32'', b5, d5), (''rollbear-64'', b6, d6)]) \<and>
    list_all (frees_all n) [b0, b1, b3, b4, b5, b6] \<and> deleted b2 = [] \<and> length (allocated b2) = n \<and>
    list_all (\<lambda>b. map snd (taken b) = map int [1..<Suc n]) [b0, b2, b3, b4, b5, b6] \<and>
    map snd (taken b1) = rev (map int [1..<Suc n])"
proof -
  define rs where "rs = generate_randoms shuffle n"
  have m: "mset rs = mset (map int [1..<Suc n])" using assms by (simp add: rs_def generate_randoms_def)
  have l: "length rs = n" using arg_cong [OF m, of size] by simp
  have d: "distinct rs" using mset_eq_imp_distinct_iff [OF m] by (simp add: distinct_map)
  note up = taken_ascending [OF _ _ m] and down = taken_descending [OF _ _ m]
  have frees: "frees_all n \<lparr>allocated = new_elements base rs, taken = out, deleted = out\<rparr>"
    if "mset out = mset (new_elements base rs)" for out base
    using that by (simp add: frees_all_def l)
  obtain o0 where b0: "pq_block st 1 rs = Some (map snd o0, \<lparr>allocated = new_elements 1 rs, taken = o0, deleted = o0\<rparr>)"
      "mset o0 = mset (new_elements 1 rs)" "sorted (map snd o0)"
    using pq_block_ok by blast
  obtain o1 where b1: "std_pq_block (1 + n) rs = Some \<lparr>allocated = new_elements (1 + n) rs, taken = o1, deleted = o1\<rparr>"
      "mset o1 = mset (new_elements (1 + n) rs)" "sorted (rev (map snd o1))"
    using std_pq_block_ok by blast
  obtain o2 where b2: "std_set_block (1 + 2 * n) rs = Some \<lparr>allocated = new_elements (1 + 2 * n) rs, taken = o2, deleted = []\<rparr>"
      "mset o2 = mset (new_elements (1 + 2 * n) rs)" "sorted (map snd o2)"
    using std_set_block_ok [OF d] by blast
  have "\<exists>out. rollbear_block bs base rs = Some \<lparr>allocated = new_elements base rs, taken = out, deleted = out\<rparr> \<and>
      frees_all n \<lparr>allocated = new_elements base rs, taken = out, deleted = out\<rparr> \<and> map snd out = map int [1..<Suc n]"
    if "bs \<in> {8, 16, 32, 64}" for bs base
    using rollbear_block_ok [OF pow2_blocks [OF that], of base rs] frees up by blast
  then obtain r where r: "\<And>bs base. bs \<in> {8, 16, 32, 64} \<Longrightarrow>
      rollbear_block bs base rs = Some \<lparr>allocated = new_elements base rs, taken = r bs base, deleted = r bs base\<rparr> \<and>
      frees_all n \<lparr>allocated = new_elements base rs, taken = r bs base, deleted = r bs base\<rparr> \<and>
      map snd (r bs base) = map int [1..<Suc n]"
    by metis
  show ?thesis
    using b0 b1 b2 up [OF b0(2,3)] up [OF b2(2,3)] down [OF b1(2,3)] frees [OF b0(2)] frees [OF b1(2)] r
    by (simp add: benchmark_def rs_def [symmetric] Let_def case_prod_beta l del: upt_Suc)
qed


theorem benchmark_memory_witness:
  "\<exists>b0 b1 b2 b3 b4 b5 b6 d0 d1 d2 d3 d4 d5 d6.
    benchmark rev (\<lambda>p. new_PQ_Element 0) (\<lambda>k. (\<lparr>tv_sec = 0, tv_usec = 0\<rparr>, \<lparr>tv_sec = 1, tv_usec = 0\<rparr>, \<lparr>tv_sec = 2, tv_usec = 0\<rparr>)) 200000 =
      Some (map int [1..<Suc 200000],
        [(''PQ'', b0, d0), (''StdPQ'', b1, d1), (''std::multiset'', b2, d2), (''rollbear-8'', b3, d3), (''rollbear-16'', b4, d4),
         (''rollbear-32'', b5, d5), (''rollbear-64'', b6, d6)]) \<and>
    list_all (frees_all 200000) [b0, b1, b3, b4, b5, b6] \<and> deleted b2 = [] \<and> length (allocated b2) = 200000 \<and>
    list_all (\<lambda>b. map snd (taken b) = map int [1..<Suc 200000]) [b0, b2, b3, b4, b5, b6] \<and>
    map snd (taken b1) = rev (map int [1..<Suc 200000])"
  by (rule benchmark_memory) (rule mset_rev)

lemma find_map_conv: "find P (map f xs) = map_option f (find (P \<circ> f) xs)"
  by (induction xs) auto

lemma compare_outputs_find:
  assumes "length stock = length out"
  shows "compare_outputs k stock out =
    (case find (\<lambda>i. out ! i \<noteq> stock ! i) [0..<length out] of
       None \<Rightarrow> [] | Some i \<Rightarrow> [IndexDiffers (k + i) (stock ! i) (out ! i)])"
  using assms
proof (induction stock out arbitrary: k rule: list_induct2)
  case (Cons s stock x out)
  have "[0..<length (x # out)] = 0 # map Suc [0..<length out]" by (simp add: upt_conv_Cons map_Suc_upt del: upt_Suc)
  then show ?case using Cons by (simp add: find_map_conv comp_def split: option.split del: upt_Suc)
qed simp

text \<open>
  Before its last line \<open>diagnostics\<close> reports outputs of different lengths, or the first index at which outputs of the same length differ.
  Its last line compares with the reference times, but a reference of no time at all counts as missing: then the outputs are not compared
  and the line is labelled as the reference, whatever the container.
\<close>

theorem diagnostics_report:
  "let lines = diagnostics place clock stock output stock_add stock_remove
   in butlast lines =
        (if stock_add = 0 then []
         else if length output \<noteq> length stock then [SizesDiffer]
         else (case find (\<lambda>i. output ! i \<noteq> stock ! i) [0..<length output] of
                 None \<Rightarrow> [] | Some i \<Rightarrow> [IndexDiffers i (stock ! i) (output ! i)])) \<and>
      ((\<exists>a r t. last lines = StockLine a r t) \<longleftrightarrow> stock_add = 0)"
  using compare_outputs_find [of stock "output" 0, unfolded add_0]
  by (auto simp: diagnostics_def Let_def butlast_append split: prod.splits)

text \<open>With distinct keys the B-heap's order is determined.\<close>

lemma rollbear_drain:
  assumes "pow2_block bs" "inj_on fst (set es)"
  shows "drain (bq_remove bs) (Suc (length es)) (fill (bq_add bs) es new_prio_queue) = Some (sort_key fst es)"
proof -
  obtain out where out: "drain (bq_remove bs) (Suc (length es)) (fill (bq_add bs) es new_prio_queue) = Some out"
      "mset out = mset es" "sorted (map fst out)"
    using bq.fill_drain_any [of bs new_prio_queue es] new_prio_queue_ok [OF assms(1)] assms(1) by blast
  then show ?thesis using sort_key_inj_key_eq [OF out(2) [symmetric] assms(2) out(3)] by (simp del: drain.simps)
qed

lemma ordering_first:
  "let q = fill add_new (new_elements 1 ordering_values) (new_PriorityQueue st 16)
   in Output q = HeapLine 10 16 # map (\<lambda>(off, t). ElementLine off t) (zip [0, 1, 2, 3, 4, 5, 6, 7, 8, 9] [1, 2, 3, 4, 6, 7, 8, 5, 10, 9]) \<and>
      delete_PriorityQueue (snd (Remove q)) = [7, 10, 5, 2, 1, 6, 3, 8, 9]"
  by code_simp

lemma ordering_keys:
  "let es = map (\<lambda>(p, r). (r, p)) (new_elements 21 ordering_values)
   in distinct (map fst es) \<and> length es = 10 \<and>
      sort_key fst es = [(1, 24), (2, 27), (3, 30), (4, 22), (5, 28), (6, 25), (7, 26), (8, 23), (9, 21), (10, 29)]"
  by code_simp

lemma ordering_addresses:
  "map fst (new_elements 1 ordering_values @ new_elements 11 ordering_values @ new_elements 21 ordering_values) = [1..<31]"
  by code_simp

text \<open>
  Of the 30 elements that \<open>ordering\<close> makes, 11 are never deleted: the one removed from the first queue and the ten of the multiset. The
  first queue is printed as the array of its heap, the last one in ascending order.
\<close>

theorem ordering_leaks:
  "ordering st = Some
     (HeapLine 10 16 # map (\<lambda>(off, t). ElementLine off t) (zip [0, 1, 2, 3, 4, 5, 6, 7, 8, 9] [1, 2, 3, 4, 6, 7, 8, 5, 10, 9]) @
      [EmptyLine] @ fst (multiset_trace (new_elements 11 ordering_values) []) @ map PrioLine [1, 2, 3, 4, 5, 6, 7, 8, 9, 10],
      4 # [11..<21])"
proof -
  let ?es = "map (\<lambda>(p, r). (r, p)) (new_elements 21 ordering_values)"
  let ?out = "[(1, 24), (2, 27), (3, 30), (4, 22), (5, 28), (6, 25), (7, 26), (8, 23), (9, 21), (10, 29)]"
  have a: "drain (bq_remove 8) (Suc (length (new_elements 21 ordering_values))) (fill (bq_add 8) ?es new_prio_queue) = Some ?out"
    using rollbear_drain [OF pow2_block_8, of ?es] ordering_keys by (simp add: distinct_map Let_def del: drain.simps fill.simps)
  have b: "filter (\<lambda>p. p \<notin> set ([7, 10, 5, 2, 1, 6, 3, 8, 9] @ map snd (?out :: (int \<times> ptr) list))) [1..<31] = 4 # [11..<21]"
    by code_simp
  note c = ordering_first [unfolded Let_def, of st, THEN conjunct1] ordering_first [unfolded Let_def, of st, THEN conjunct2]
  obtain out2 q2 where t: "multiset_trace (new_elements 11 ordering_values) [] = (out2, q2)" by force
  show ?thesis unfolding ordering_def Let_def a c t prod.case option.case ordering_addresses b by simp
qed

text \<open>
  The first two loops of \<open>quick_test\<close> print the times in ascending order; the last one, which reads after \<open>pop\<close>, skips the first element
  and ends with a read of a destroyed object.
\<close>

lemma quick_test_first:
  "drain remove_time (Suc (length (new_elements 1 quick_test_times))) (fill add_new (new_elements 1 quick_test_times) (new_PriorityQueue st 16)) =
     Some [(1, 1), (3, 2), (2, 3), (5, 4), (4, 5)]"
  by code_simp

lemma quick_test_second:
  "drain remove_time_vect (Suc (length (new_elements 6 quick_test_times)))
     (fill add_new_vect (new_elements 6 quick_test_times) (new_PriorityQueueVect st 16)) = Some [(6, 1), (8, 2), (7, 3), (10, 4), (9, 5)]"
  by code_simp

lemma quick_test_keys:
  "let es = map (\<lambda>(p, r). (r, p)) (new_elements 6 quick_test_times)
   in distinct (map fst es) \<and> length es = 5 \<and> sort_key fst es = [(1, 6), (2, 8), (3, 7), (4, 10), (5, 9)]"
  by code_simp

theorem quick_test_prints:
  "quick_test st = Some ([1, 2, 3, 4, 5], [1, 2, 3, 4, 5], [Some 8, Some 7, Some 10, Some 9, None])"
proof -
  let ?es = "map (\<lambda>(p, r). (r, p)) (new_elements 6 quick_test_times)"
  have p: "pow2_block 16" by (rule pow2_blocks) simp
  have "drain (bq_remove 16) (Suc (length ?es)) (fill (bq_add 16) ?es new_prio_queue) = Some [(1, 6), (2, 8), (3, 7), (4, 10), (5, 9)]"
    using rollbear_drain [OF p, of ?es] quick_test_keys by (simp add: distinct_map Let_def del: drain.simps fill.simps)
  moreover have "bq_inv 16 (fill (bq_add 16) ?es new_prio_queue)"
    using bq.fill_any [of 16 new_prio_queue ?es] new_prio_queue_ok [OF p] p by blast
  ultimately have "quick_test_loop 16 (Suc (length ?es)) (fill (bq_add 16) ?es new_prio_queue) = Some [Some 8, Some 7, Some 10, Some 9, None]"
    using quick_test_loop_drain [OF p] by fastforce
  note loop = this
  show ?thesis unfolding quick_test_def Let_def quick_test_first quick_test_second loop by simp
qed

end
