(* ===== verification/DictDump.thy ===== *)
theory DictDump
  imports DictProps
begin

text \<open>
  The dumps of \<open>dict/OpenDict.cc\<close>: \<open>DumpKeys\<close>, which writes the keys to a file, as text or in binary depending on the first key, and \<open>Dump\<close>,
  which prints statistics and the slots of the table. The sizes of the classes and the random number of the file name are arguments, as in
  \<open>MemoryAllocation\<close>. An \<open>int\<close> is written as four bytes, the lowest first. The columns of \<open>Dump\<close> are numbers here; their padding is left out.
\<close>

section \<open>DumpKeys\<close>

text \<open>\<open>isprint\<close> of the C locale.\<close>

definition isprint :: "byte \<Rightarrow> bool" where
  "isprint b \<longleftrightarrow> 0x20 \<le> b \<and> b \<le> 0x7E"

definition GetKey :: "DictEntry \<Rightarrow> byte list" where
  "GetKey e = take (unat (de_key_size e)) (de_key e)"

record key_file =
  file_name :: string
  file_data :: "byte list"

text \<open>The loop \<open>while(table[i].Empty() && i<Capacity())\<close>; \<open>None\<close>: it reads the slot behind the table.\<close>

fun first_used :: "DictEntry list \<Rightarrow> DictEntry option" where
  "first_used [] = None"
| "first_used (e # es) = (if Empty e then first_used es else Some e)"

definition int_bytes :: "nat \<Rightarrow> byte list" where
  "int_bytes n = [of_nat n, of_nat (n div 2 ^ 8), of_nat (n div 2 ^ 16), of_nat (n div 2 ^ 24)]"

definition binary_record :: "DictEntry \<Rightarrow> byte list" where
  "binary_record e = int_bytes (unat (de_key_size e)) @ GetKey e"

definition text_record :: "DictEntry \<Rightarrow> byte list" where
  "text_record e = GetKey e @ [0x0A]"

definition used_slots :: "Dictionary \<Rightarrow> DictEntry list" where
  "used_slots d = filter (\<lambda>e. \<not> Empty e) (take (cap d) (table d))"

definition DumpKeys ::
  "nat \<Rightarrow> nat \<Rightarrow> nat \<Rightarrow> nat \<Rightarrow> nat \<Rightarrow> Dictionary \<Rightarrow> dict_error + key_file option" where
  "DumpKeys size_Dictionary size_DictEntry size_vector order_capacity rand d =
     (if table d = [] then Inr None
      else
        case first_used (table d) of
          None \<Rightarrow> Inl UndefinedBehaviour
        | Some e \<Rightarrow>
            let binary = list_ex (\<lambda>b. \<not> isprint b) (GetKey e);
                max_distance = fst (DistanceStats d 0);
                mem = MemoryAllocation size_Dictionary size_DictEntry size_vector order_capacity d
            in if Length d = 0 then Inl UndefinedBehaviour
               else
                 let start = lld (Length d) @ ''.'' @ dec_nat max_distance @ ''.'' @
                       dec_nat (mem div nat (Length d mod 2 ^ 32)) @ ''-''
                 in if binary then
                      Inr (Some \<lparr>file_name = start @ [char_of (65 + rand mod 26)] @ ''.key'',
                                 file_data = concat (map binary_record (used_slots d))\<rparr>)
                    else
                      Inr (Some \<lparr>file_name = start @ dec_nat (65 + rand mod 26) @ ''.ckey'',
                                 file_data = concat (map text_record (used_slots d))\<rparr>))"

section \<open>Dump\<close>

text \<open>The load is printed as the quotient of the two numbers.\<close>

record dump_heading =
  h_cap :: nat
  h_ent :: int
  h_max :: int
  h_load :: "int \<times> nat"
  h_max_dist :: nat
  h_mem :: nat
  h_mem_ent :: nat
  h_key_ent :: nat
  h_lg :: nat
  h_remaps :: nat
  h_remap_end :: int

datatype dump_row = EmptyRow nat | UsedRow nat bool int nat int uint32 uint64 nat nat

definition DICT_NUM_DISTANCES :: nat where
  "DICT_NUM_DISTANCES = 5"

definition dump_head :: "nat \<Rightarrow> nat \<Rightarrow> nat \<Rightarrow> nat \<Rightarrow> Dictionary \<Rightarrow> dump_heading" where
  "dump_head size_Dictionary size_DictEntry size_vector order_capacity d =
     (let key_size = sum_list (map (\<lambda>e. pad_size (unat (de_key_size e))) (used_slots d));
          mem = MemoryAllocation size_Dictionary size_DictEntry size_vector order_capacity d;
          ent = (if Length d \<noteq> 0 then nat (Length d mod 2 ^ 32) else 1)
      in \<lparr>h_cap = cap d, h_ent = Length d, h_max = MaxLength d,
          h_load = (Length d, if table d \<noteq> [] then cap d else 1), h_max_dist = fst (DistanceStats d DICT_NUM_DISTANCES), h_mem = mem,
          h_mem_ent = mem div ent, h_key_ent = key_size div ent, h_lg = log2_buckets d, h_remaps = remaps d, h_remap_end = remap_end d\<rparr>)"

text \<open>The percentages of the entries by distance; nothing is printed for an empty dictionary.\<close>

definition dump_percentages :: "Dictionary \<Rightarrow> int list" where
  "dump_percentages d =
     (if Length d > 0
      then map (\<lambda>n. 100 * int n div Length d) (snd (DistanceStats d DICT_NUM_DISTANCES))
      else [])"

definition dump_slot :: "Dictionary \<Rightarrow> nat \<Rightarrow> dump_row" where
  "dump_slot d i =
     (let e = table d ! i
      in if Empty e then EmptyRow i
         else UsedRow i (int i \<le> remap_end d) (BucketByPosition d i) (unat (de_distance e)) (OffsetInClusterByPosition d i)
                (de_hash e) (FibHash (ucast (de_hash e))) (unat (FibHash (ucast (de_hash e)) AND 0xFF)) (unat (de_key_size e)))"

definition Dump ::
  "nat \<Rightarrow> nat \<Rightarrow> nat \<Rightarrow> nat \<Rightarrow> Dictionary \<Rightarrow> int \<Rightarrow> dump_heading \<times> int list \<times> dump_row list" where
  "Dump size_Dictionary size_DictEntry size_vector order_capacity d level =
     (dump_head size_Dictionary size_DictEntry size_vector order_capacity d, dump_percentages d,
      if level \<ge> 1 then map (dump_slot d) [0..<cap d] else [])"


section \<open>Statistics\<close>

lemma distance_step_hist:
  assumes "0 < n" "length (snd s) = n"
  shows "length (snd (distance_step n s e)) = n \<and>
    sum_list (snd (distance_step n s e)) = sum_list (snd s) + (if Empty e then 0 else 1) \<and>
    fst s \<le> fst (distance_step n s e) \<and> (Empty e \<or> unat (de_distance e) \<le> fst (distance_step n s e))"
  using assms by (cases s) (auto simp: distance_step_def Let_def sum_list_update)

lemma distances_hist:
  assumes "0 < n" "length (snd s) = n"
  shows "length (snd (foldl (distance_step n) s es)) = n \<and>
    sum_list (snd (foldl (distance_step n) s es)) = sum_list (snd s) + length (filter (\<lambda>e. \<not> Empty e) es) \<and>
    fst s \<le> fst (foldl (distance_step n) s es) \<and>
    (\<forall>e \<in> set es. Empty e \<or> unat (de_distance e) \<le> fst (foldl (distance_step n) s es))"
  using assms
proof (induction es arbitrary: s)
  case (Cons e es)
  note step = distance_step_hist [OF Cons.prems, of e]
  from Cons.IH [OF Cons.prems(1), of "distance_step n s e"] step show ?case by auto
qed simp

lemma DistanceStats_hist:
  assumes "0 < n"
  shows "length (snd (DistanceStats d n)) = n" "sum_list (snd (DistanceStats d n)) = length (used_slots d)"
    "e \<in> set (used_slots d) \<Longrightarrow> unat (de_distance e) \<le> fst (DistanceStats d n)"
  using distances_hist [OF assms, of "(0, replicate n 0)" "take (cap d) (table d)"]
  by (auto simp: DistanceStats_def used_slots_def sum_list_replicate)

lemma used_slots_Length:
  assumes "wf_dict d"
  shows "Length d = int (length (used_slots d))" "table d \<noteq> [] \<Longrightarrow> used_slots d = filter (\<lambda>e. \<not> Empty e) (table d)"
proof -
  show f: "used_slots d = filter (\<lambda>e. \<not> Empty e) (table d)" if "table d \<noteq> []"
    using that assms by (simp add: used_slots_def wf_dict_def shape_def sized_def)
  show "Length d = int (length (used_slots d))"
  proof (cases "table d = []")
    case True
    then show ?thesis using assms by (simp add: used_slots_def wf_dict_def Length_def)
  next
    case False
    then have "num_entries d = int (length (assoc (table d)))"
      using assms by (simp add: wf_dict_def shape_def length_assoc size_placed)
    then show ?thesis using f [OF False] by (simp add: Length_def assoc_def)
  qed
qed

text \<open>Rounding each share down loses less than one per share.\<close>

lemma shares_bounds:
  assumes "0 < (N :: int)"
  shows "N * sum_list (map (\<lambda>n. 100 * int n div N) ns) \<le> 100 * int (sum_list ns)"
    "100 * int (sum_list ns) \<le> N * sum_list (map (\<lambda>n. 100 * int n div N) ns) + int (length ns) * (N - 1)"
proof (induction ns)
  case (Cons n ns)
  have "N * (100 * int n div N) + 100 * int n mod N = 100 * int n" by simp
  moreover have "0 \<le> 100 * int n mod N" "100 * int n mod N \<le> N - 1" using assms pos_mod_bound [of N "100 * int n"] by simp_all
  ultimately have "N * (100 * int n div N) \<le> 100 * int n" "100 * int n \<le> N * (100 * int n div N) + (N - 1)" by linarith+
  then show "N * sum_list (map (\<lambda>n. 100 * int n div N) (n # ns)) \<le> 100 * int (sum_list (n # ns))"
    "100 * int (sum_list (n # ns)) \<le> N * sum_list (map (\<lambda>n. 100 * int n div N) (n # ns)) + int (length (n # ns)) * (N - 1)"
    using Cons.IH by (simp_all add: algebra_simps)
qed simp_all

lemma percentages_bounds:
  assumes "0 < sum_list ns" "N = int (sum_list ns)" "length ns = 5"
  shows "\<forall>p \<in> set (map (\<lambda>n. 100 * int n div N) ns). 0 \<le> p \<and> p \<le> 100"
    "96 \<le> sum_list (map (\<lambda>n. 100 * int n div N) ns)" "sum_list (map (\<lambda>n. 100 * int n div N) ns) \<le> 100"
proof -
  let ?S = "sum_list (map (\<lambda>n. 100 * int n div N) ns)"
  have N: "0 < N" using assms(1,2) by simp
  note b = shares_bounds [OF N, of ns]
  show "?S \<le> 100" using b(1) N unfolding assms(2) [symmetric] by (metis mult.commute mult_le_cancel_left_pos)
  have "100 * N \<le> N * ?S + 5 * (N - 1)" using b(2) assms(3) unfolding assms(2) [symmetric] by simp
  moreover have "N * 95 < x" if "100 * N \<le> x + 5 * (N - 1)" for x using that N by simp
  ultimately have "N * 95 < N * ?S" by blast
  then have "95 < ?S" using N by (simp only: mult_less_cancel_left_pos)
  then show "96 \<le> ?S" by simp
  have "100 * int n div N \<le> 100" if "n \<in> set ns" for n
  proof -
    have "int n \<le> N" using member_le_sum_list [OF that] assms(2) by simp
    then show ?thesis using N zdiv_mono1 [of "100 * int n" "100 * N" N] by simp
  qed
  then show "\<forall>p \<in> set (map (\<lambda>n. 100 * int n div N) ns). 0 \<le> p \<and> p \<le> 100"
    using N by (auto simp: pos_imp_zdiv_nonneg_iff)
qed

text \<open>The bucket printed for a slot.\<close>

lemma slot_bucket:
  assumes "wf_dict d" "i < cap d" "\<not> Empty (table d ! i)"
  shows "0 \<le> BucketByPosition d i" "BucketByPosition d i < 2 ^ log2_buckets d"
    "\<not> int i \<le> remap_end d \<Longrightarrow> BucketByPosition d i = int (BucketByHash (ucast (de_hash (table d ! i))) (log2_buckets d))"
proof -
  have w: "shape d" "settled d" using assms(1,2) by (auto simp: wf_dict_def Capacity_def Let_def split: if_splits)
  have o: "occ (table d) i" using w assms(2,3) by (auto simp: occ_def shape_def sized_def)
  have b: "BucketByPosition d i = bk (table d) i" by (simp add: BucketByPosition_def bk_def dist_def)
  obtain j where "bk (table d) i = home (log2_buckets d - j) (table d ! i)" using shape_entry(2) [OF w(1) o] by blast
  then have h: "bk (table d) i = int (BucketByHash (ucast (de_hash (table d ! i))) (log2_buckets d - j))" by (simp add: home_def)
  show "0 \<le> BucketByPosition d i" using b h by simp
  have "BucketByHash (ucast (de_hash (table d ! i))) (log2_buckets d - j) < 2 ^ (log2_buckets d - j)" by (rule BucketByHash_less)
  also have "\<dots> \<le> 2 ^ log2_buckets d" by (simp add: power_increasing)
  finally show "BucketByPosition d i < 2 ^ log2_buckets d" using b h by (simp flip: of_nat_less_iff)
  show "BucketByPosition d i = int (BucketByHash (ucast (de_hash (table d ! i))) (log2_buckets d))" if "\<not> int i \<le> remap_end d"
    using that w(2) o b by (simp add: settled_def home_def)
qed


section \<open>The files\<close>

text \<open>How the two formats are read back.\<close>

definition bytes_int :: "byte list \<Rightarrow> nat" where
  "bytes_int bs = unat (bs ! 0) + unat (bs ! 1) * 2 ^ 8 + unat (bs ! 2) * 2 ^ 16 + unat (bs ! 3) * 2 ^ 24"

function read_records :: "byte list \<Rightarrow> byte list list option" where
  "read_records bs =
     (if bs = [] then Some []
      else if length bs < 4 then None
      else
        let n = bytes_int bs; rest = drop 4 bs
        in if length rest < n then None else map_option (Cons (take n rest)) (read_records (drop n rest)))"
  by pat_completeness auto
termination
  by (relation "measure length") auto

declare read_records.simps [simp del]

fun read_lines :: "byte list \<Rightarrow> byte list \<Rightarrow> byte list list option" where
  "read_lines acc [] = (if acc = [] then Some [] else None)"
| "read_lines acc (b # bs) = (if b = 0x0A then map_option (Cons (rev acc)) (read_lines [] bs) else read_lines (b # acc) bs)"

lemma bytes_int_bytes:
  assumes "n < 2 ^ 32"
  shows "bytes_int (int_bytes n @ bs) = n"
proof -
  define a b c where "a = n div 256" and "b = a div 256" and "c = b div 256"
  have d: "n div 65536 = b" "n div 16777216 = c"
    using div_mult2_eq [of n 256 256] div_mult2_eq [of n 65536 256] by (simp_all add: a_def b_def c_def)
  have "n = n mod 256 + 256 * a" "a = a mod 256 + 256 * b" "b = b mod 256 + 256 * c" by (simp_all add: a_def b_def c_def)
  moreover have "c mod 256 = c" using assms by (simp add: d(2) [symmetric])
  ultimately have "n mod 256 + (a mod 256) * 256 + (b mod 256) * 65536 + (c mod 256) * 16777216 = n" by linarith
  moreover have "bytes_int (int_bytes n @ bs) = n mod 256 + (n div 256 mod 256) * 256 + (n div 65536 mod 256) * 65536 + (n div 16777216 mod 256) * 16777216"
    by (simp add: bytes_int_def int_bytes_def unat_of_nat)
  ultimately show ?thesis by (simp only: d a_def [symmetric])
qed

lemma read_binary_record:
  assumes "entry_ok e"
  shows "read_records (binary_record e @ bs) = map_option (Cons (de_key e)) (read_records bs)"
proof -
  have k: "unat (de_key_size e) = length (de_key e)" using assms by (simp add: entry_ok_def)
  have "unat (de_key_size e) < 2 ^ LENGTH(16)" by (rule unsigned_less)
  then have n: "bytes_int (int_bytes (length (de_key e)) @ bs) = length (de_key e)" for bs using bytes_int_bytes k by simp
  have "length (int_bytes m) = 4" "drop 4 (int_bytes m @ bs) = bs" "int_bytes m \<noteq> []" for m bs by (simp_all add: int_bytes_def)
  then show ?thesis using k n by (subst read_records.simps) (simp add: binary_record_def GetKey_def Let_def)
qed

lemma read_binary: "\<forall>e \<in> set es. entry_ok e \<Longrightarrow> read_records (concat (map binary_record es)) = Some (map de_key es)"
  by (induction es) (simp_all add: read_binary_record, simp add: read_records.simps)

lemma read_lines_key: "0x0A \<notin> set k \<Longrightarrow> read_lines acc (k @ 0x0A # bs) = map_option (Cons (rev acc @ k)) (read_lines [] bs)"
  by (induction k arbitrary: acc) auto

lemma read_text:
  assumes "\<forall>e \<in> set es. entry_ok e \<and> 0x0A \<notin> set (de_key e)"
  shows "read_lines [] (concat (map text_record es)) = Some (map de_key es)"
  using assms by (induction es) (auto simp: text_record_def GetKey_def entry_ok_def read_lines_key)

lemma first_used_hd: "first_used t = (case filter (\<lambda>e. \<not> Empty e) t of [] \<Rightarrow> None | e # es \<Rightarrow> Some e)"
  by (induction t) auto

lemma used_slots_ok:
  assumes "wf_dict d" "e \<in> set (used_slots d)"
  shows "entry_ok e"
proof -
  have t: "table d \<noteq> []" using assms(2) by (auto simp: used_slots_def)
  then obtain p where p: "p < length (table d)" "table d ! p = e" "\<not> Empty e"
    using assms by (auto simp: used_slots_Length(2) in_set_conv_nth)
  then show ?thesis using assms(1) t shape_entry(1) [of d p] by (auto simp: wf_dict_def occ_def)
qed


section \<open>Properties\<close>

text \<open>
  What \<open>Dump\<close> prints for a well-formed dictionary with entries: five percentages between 0 and 100 which add up to at least 96 and at most
  100 (each is rounded down), one row per slot, and for every entry a bucket of the table and a distance up to the maximum of the heading;
  without the mark of an entry that is still to be remapped, the bucket is that of its hash.
\<close>

theorem Dump_bounds:
  assumes "wf_dict d" "0 < Length d" "Dump sd se sv oc d 1 = (h, ps, rows)"
  shows "length ps = 5 \<and> (\<forall>p \<in> set ps. 0 \<le> p \<and> p \<le> 100) \<and> 96 \<le> sum_list ps \<and> sum_list ps \<le> 100 \<and> length rows = h_cap h \<and>
    (\<forall>i mark bucket dst off hash fibhash low size.
       UsedRow i mark bucket dst off hash fibhash low size \<in> set rows \<longrightarrow>
       0 \<le> bucket \<and> bucket < 2 ^ h_lg h \<and> dst \<le> h_max_dist h \<and>
       (\<not> mark \<longrightarrow> bucket = int (BucketByHash (ucast hash) (h_lg h))))"
proof -
  let ?ns = "snd (DistanceStats d 5)"
  have l: "length ?ns = 5" "sum_list ?ns = length (used_slots d)" using DistanceStats_hist(1,2) [of 5 d] by simp_all
  have N: "Length d = int (sum_list ?ns)" using used_slots_Length(1) [OF assms(1)] l(2) by simp
  have "h = dump_head sd se sv oc d" "ps = dump_percentages d" and rows: "rows = map (dump_slot d) [0..<cap d]"
    using assms(3) by (simp_all add: Dump_def)
  then have ps: "ps = map (\<lambda>n. 100 * int n div Length d) ?ns"
      and h: "h_cap h = cap d" "h_lg h = log2_buckets d" "h_max_dist h = fst (DistanceStats d 5)"
    using assms(2) by (simp_all add: dump_percentages_def dump_head_def DICT_NUM_DISTANCES_def Let_def)
  have "0 < sum_list ?ns" using assms(2) N by simp
  note b = percentages_bounds [OF this N l(1)]
  have "0 \<le> bucket \<and> bucket < 2 ^ h_lg h \<and> dst \<le> h_max_dist h \<and> (\<not> mark \<longrightarrow> bucket = int (BucketByHash (ucast hash) (h_lg h)))"
    if "UsedRow i mark bucket dst off hash fibhash low size \<in> set rows" for i mark bucket dst off hash fibhash low size
  proof -
    have i: "i < cap d" "\<not> Empty (table d ! i)" and r: "mark \<longleftrightarrow> int i \<le> remap_end d" "bucket = BucketByPosition d i"
        "dst = unat (de_distance (table d ! i))" "hash = de_hash (table d ! i)"
      using that by (auto simp: rows dump_slot_def Let_def split: if_splits)
    have "length (table d) = cap d" using assms(1) i(1) by (auto simp: wf_dict_def shape_def sized_def Capacity_def Let_def split: if_splits)
    then have "table d ! i \<in> set (used_slots d)" using i by (auto simp: used_slots_def)
    then have "dst \<le> h_max_dist h" using DistanceStats_hist(3) [of 5] h(3) r(3) by simp
    then show ?thesis using slot_bucket [OF assms(1) i] r h(2) by simp
  qed
  moreover have "length ps = 5" "length rows = h_cap h" using l(1) by (simp_all add: ps rows h(1))
  ultimately show ?thesis using b unfolding ps [symmetric] by blast
qed

theorem Dump_bounds_witness:
  "case Dump 96 24 24 0 demo_dict 1 of (h, ps, rows) \<Rightarrow> 96 \<le> sum_list ps \<and> sum_list ps \<le> 100 \<and> length rows = h_cap h"
proof -
  obtain h ps rows where D: "Dump 96 24 24 0 demo_dict 1 = (h, ps, rows)" by (metis prod_cases3)
  have "wf_dict demo_dict" "0 < Length demo_dict" using demo_dict_inv(1) demo_dict_fields(2) by (simp_all add: dict_inv_def Length_def)
  from Dump_bounds [OF this D] show ?thesis by (simp add: D)
qed

text \<open>
  C34. For a well-formed dictionary with entries \<open>DumpKeys\<close> writes a file, and the file holds every key of the dictionary once per entry: the
  binary format, chosen when the first key has a byte that does not print, can always be read back; the text format can be read back when
  no key has a line break.
\<close>

theorem DumpKeys_readable:
  assumes "wf_dict d" "0 < Length d"
  shows "\<exists>f. DumpKeys sd se sv oc r d = Inr (Some f) \<and>
    (if list_ex (\<lambda>b. \<not> isprint b) (de_key (hd (used_slots d)))
     then read_records (file_data f) = Some (map de_key (used_slots d))
     else list_all (\<lambda>e. 0x0A \<notin> set (de_key e)) (used_slots d) \<longrightarrow> read_lines [] (file_data f) = Some (map de_key (used_slots d))) \<and>
    set (map de_key (used_slots d)) = snd ` dom (dict_map d) \<and> int (length (used_slots d)) = Length d"
proof -
  note n = used_slots_Length(1) [OF assms(1)] and ok = used_slots_ok [OF assms(1)]
  have t: "table d \<noteq> []" using assms by (auto simp: wf_dict_def Length_def)
  note u = used_slots_Length(2) [OF assms(1) t]
  obtain e es where e: "used_slots d = e # es" using n assms(2) by (cases "used_slots d") auto
  then have f: "first_used (table d) = Some e" using u by (simp add: first_used_hd)
  have k: "GetKey e = de_key e" using ok [of e] e by (simp add: GetKey_def entry_ok_def)
  have "set (map de_key (used_slots d)) = snd ` dom (dict_map d)"
    unfolding dict_map_def dom_map_of_conv_image_fst u by (force simp: assoc_def kv_def key_of_def)
  moreover have "\<exists>f. DumpKeys sd se sv oc r d = Inr (Some f) \<and>
      file_data f = concat (map (if list_ex (\<lambda>b. \<not> isprint b) (de_key e) then binary_record else text_record) (used_slots d))"
    using t f k assms(2) by (simp add: DumpKeys_def Let_def)
  ultimately show ?thesis
    using read_binary [of "used_slots d"] read_text [of "used_slots d"] ok n e by (auto simp: list_all_iff)
qed

theorem DumpKeys_readable_witness:
  "\<exists>f. DumpKeys 96 24 24 0 7 demo_dict = Inr (Some f) \<and> read_records (file_data f) = Some (map de_key (used_slots demo_dict))"
proof -
  have "wf_dict demo_dict" "0 < Length demo_dict" using demo_dict_inv(1) demo_dict_fields(2) by (simp_all add: dict_inv_def Length_def)
  moreover have "list_ex (\<lambda>b. \<not> isprint b) (de_key (hd (used_slots demo_dict)))" by code_simp
  ultimately show ?thesis using DumpKeys_readable [of demo_dict 96 24 24 0 7] by auto
qed

text \<open>
  A dictionary whose table is allocated but holds no entry makes \<open>DumpKeys\<close> read behind the table: the search for the first key tests the
  slot before the bound.
\<close>

theorem DumpKeys_empty_overrun:
  assumes "wf_dict d" "table d \<noteq> []" "Length d = 0"
  shows "DumpKeys sd se sv oc r d = Inl UndefinedBehaviour"
proof -
  have "filter (\<lambda>e. \<not> Empty e) (table d) = []" using used_slots_Length [OF assms(1)] assms(2,3) by (simp del: filter_empty_conv)
  then have "first_used (table d) = None" by (simp add: first_used_hd del: filter_empty_conv)
  then show ?thesis using assms(2) by (simp add: DumpKeys_def)
qed

theorem DumpKeys_empty_overrun_witness: "DumpKeys 96 24 24 0 7 (new_Dictionary UNORDERED 16) = Inl UndefinedBehaviour"
proof (rule DumpKeys_empty_overrun)
  show "wf_dict (new_Dictionary UNORDERED 16)" using new_Dictionary_inv [of 16] by (simp add: dict_inv_def)
qed code_simp+

text \<open>The text format does not tell a key with a line break from two keys.\<close>

definition text_dict :: "(byte list \<times> uint64) list \<Rightarrow> Dictionary" where
  "text_dict ks =
     (case run_ops dict_step (new_Dictionary UNORDERED 0) (map (\<lambda>k. InsertOp k 1) ks) of
        Inr (_, d) \<Rightarrow> d | Inl _ \<Rightarrow> new_Dictionary UNORDERED 0)"

theorem DumpKeys_text_ambiguous:
  "let d1 = text_dict [([0x61], 0), ([0x62, 0x0A, 0x63], 1)];
       d2 = text_dict [([0x61], 0), ([0x62], 1), ([0x63], 3)]
   in Length d1 = 2 \<and> Length d2 = 3 \<and>
      (case (DumpKeys 96 24 24 0 7 d1, DumpKeys 96 24 24 0 7 d2) of
         (Inr (Some f1), Inr (Some f2)) \<Rightarrow> file_data f1 = [0x61, 0x0A, 0x62, 0x0A, 0x63, 0x0A] \<and> file_data f1 = file_data f2
       | _ \<Rightarrow> False)"
  by code_simp

end
