(* ===== verification/FifoOrder.thy ===== *)
theory FifoOrder
  imports FifoMap
begin

text \<open>
  The remaining operations of \<open>dict/fifo_map.hpp\<close>: insertions with a hint, iteration from the end, and the comparison operators, which are
  those of \<open>std::map\<close>: lexicographic over the entries in iteration order, each entry as a pair.
\<close>

text \<open>A hint may only change where the search starts: the standard requires the same result.\<close>

definition fifo_insert_hint :: "('k, 'v) fifo \<Rightarrow> nat \<Rightarrow> 'k \<times> 'v \<Rightarrow> nat \<times> ('k, 'v) fifo" where
  "fifo_insert_hint p hint val =
     (let (s, f) = fifo_add_key p (fst val);
          (r, xs) = smap_insert (map_lt s f) (nodes (m_map f)) val
      in (fst r, (s, f\<lparr>m_map := (m_map f)\<lparr>nodes := xs\<rparr>\<rparr>)))"

definition fifo_emplace_hint :: "('k, 'v) fifo \<Rightarrow> nat \<Rightarrow> 'k \<Rightarrow> 'v \<Rightarrow> nat \<times> ('k, 'v) fifo" where
  "fifo_emplace_hint p hint key arg =
     (let val = (key, arg);
          (s, f) = fifo_add_key p (fst val);
          (r, xs) = smap_insert (map_lt s f) (nodes (m_map f)) val
      in (fst r, (s, f\<lparr>m_map := (m_map f)\<lparr>nodes := xs\<rparr>\<rparr>)))"

text \<open>The entries met from \<open>rbegin\<close> to \<open>rend\<close>: a reverse iterator at distance \<open>i\<close> from \<open>rbegin\<close> shows the entry before position \<open>size - i\<close>.\<close>

definition fifo_reverse_entry :: "('k, 'v) fifo \<Rightarrow> nat \<Rightarrow> 'k \<times> 'v" where
  "fifo_reverse_entry p i = nodes (m_map (snd p)) ! (fifo_end p - i - 1)"

definition fifo_reversed :: "('k, 'v) fifo \<Rightarrow> ('k \<times> 'v) list" where
  "fifo_reversed p = map (fifo_reverse_entry p) [0..<fifo_end p]"

text \<open>\<open>operator<\<close> of pairs and of ranges.\<close>

definition pair_lt :: "'k::linorder \<times> 'v::linorder \<Rightarrow> 'k \<times> 'v \<Rightarrow> bool" where
  "pair_lt x y \<longleftrightarrow> fst x < fst y \<or> \<not> fst y < fst x \<and> snd x < snd y"

fun range_lt :: "('e \<Rightarrow> 'e \<Rightarrow> bool) \<Rightarrow> 'e list \<Rightarrow> 'e list \<Rightarrow> bool" where
  "range_lt lt xs [] = False"
| "range_lt lt [] (y # ys) = True"
| "range_lt lt (x # xs) (y # ys) = (if lt x y then True else if lt y x then False else range_lt lt xs ys)"

definition fifo_ne :: "('k, 'v) fifo_map \<Rightarrow> ('k, 'v) fifo_map \<Rightarrow> bool" where
  "fifo_ne lhs rhs \<longleftrightarrow> nodes (m_map lhs) \<noteq> nodes (m_map rhs)"

definition fifo_lt :: "('k::linorder, 'v::linorder) fifo_map \<Rightarrow> ('k, 'v) fifo_map \<Rightarrow> bool" where
  "fifo_lt lhs rhs \<longleftrightarrow> range_lt pair_lt (nodes (m_map lhs)) (nodes (m_map rhs))"

definition fifo_gt :: "('k::linorder, 'v::linorder) fifo_map \<Rightarrow> ('k, 'v) fifo_map \<Rightarrow> bool" where
  "fifo_gt lhs rhs \<longleftrightarrow> range_lt pair_lt (nodes (m_map rhs)) (nodes (m_map lhs))"

definition fifo_le :: "('k::linorder, 'v::linorder) fifo_map \<Rightarrow> ('k, 'v) fifo_map \<Rightarrow> bool" where
  "fifo_le lhs rhs \<longleftrightarrow> \<not> range_lt pair_lt (nodes (m_map rhs)) (nodes (m_map lhs))"

definition fifo_ge :: "('k::linorder, 'v::linorder) fifo_map \<Rightarrow> ('k, 'v) fifo_map \<Rightarrow> bool" where
  "fifo_ge lhs rhs \<longleftrightarrow> \<not> range_lt pair_lt (nodes (m_map lhs)) (nodes (m_map rhs))"

section \<open>Orders of ranges\<close>

text \<open>A strict linear order of the elements gives one of the ranges.\<close>

locale element_order =
  fixes lt :: "'e \<Rightarrow> 'e \<Rightarrow> bool"
  assumes lt_irrefl: "\<not> lt x x"
    and lt_trans: "lt x y \<Longrightarrow> lt y z \<Longrightarrow> lt x z"
    and lt_total: "\<not> lt x y \<Longrightarrow> \<not> lt y x \<Longrightarrow> x = y"
begin

lemma range_irrefl: "\<not> range_lt lt xs xs"
  by (induction xs) (simp_all add: lt_irrefl)

lemma range_total: "\<not> range_lt lt xs ys \<Longrightarrow> \<not> range_lt lt ys xs \<Longrightarrow> xs = ys"
proof (induction xs ys rule: list_induct2')
  case (4 x xs y ys)
  then show ?case using lt_total [of x y] by (auto split: if_splits)
qed simp_all

lemma range_trans: "range_lt lt xs ys \<Longrightarrow> range_lt lt ys zs \<Longrightarrow> range_lt lt xs zs"
proof (induction xs arbitrary: ys zs)
  case Nil
  then show ?case by (cases ys; cases zs) auto
next
  case (Cons x xs)
  then obtain y ys' z zs' where e: "ys = y # ys'" "zs = z # zs'" by (cases ys; cases zs) auto
  have "lt x y \<or> x = y \<and> range_lt lt xs ys'" "lt y z \<or> y = z \<and> range_lt lt ys' zs'"
    using Cons.prems lt_total unfolding e by (auto split: if_splits)
  then have "lt x z \<or> x = z \<and> range_lt lt xs zs'" using lt_trans Cons.IH by blast
  then show ?case using lt_irrefl unfolding e by auto
qed

end

interpretation pairs: element_order pair_lt
  by unfold_locales (auto simp: pair_lt_def prod_eq_iff)


section \<open>Iteration from the end\<close>

lemma fifo_reversed_entries: "fifo_reversed p = rev (fifo_entries p)"
  by (rule nth_equalityI) (simp_all add: fifo_reversed_def fifo_reverse_entry_def fifo_end_entries fifo_entries_def rev_nth)

lemma fifo_hint_insert: "fifo_insert_hint p hint val = (fst (fst (fifo_insert p val)), snd (fifo_insert p val))"
  by (simp add: fifo_insert_hint_def fifo_insert_def Let_def case_prod_beta)

section \<open>Properties\<close>

text \<open>
  The six comparison operators of \<open>fifo_map\<close> are those of one strict linear order, whose equality is \<open>operator==\<close>: equal entries in the
  same order of insertion.
\<close>

theorem fifo_compare_linear:
  "\<not> fifo_lt a a \<and> (fifo_lt a b \<and> fifo_lt b c \<longrightarrow> fifo_lt a c) \<and>
   (fifo_eq a b \<longleftrightarrow> \<not> fifo_lt a b \<and> \<not> fifo_lt b a) \<and> (fifo_ne a b \<longleftrightarrow> fifo_lt a b \<or> fifo_lt b a) \<and>
   (fifo_le a b \<longleftrightarrow> fifo_lt a b \<or> fifo_eq a b) \<and> (fifo_gt a b \<longleftrightarrow> fifo_lt b a) \<and> (fifo_ge a b \<longleftrightarrow> fifo_gt a b \<or> fifo_eq a b)"
proof -
  have irr: "\<not> range_lt pair_lt xs xs" for xs :: "('a \<times> 'b) list" by (rule pairs.range_irrefl)
  have asym: "\<not> range_lt pair_lt ys xs" if "range_lt pair_lt xs ys" for xs ys :: "('a \<times> 'b) list"
    using that pairs.range_trans irr by blast
  show ?thesis
    unfolding fifo_lt_def fifo_eq_def fifo_ne_def fifo_le_def fifo_gt_def fifo_ge_def
    using irr asym pairs.range_trans pairs.range_total by metis
qed

theorem fifo_compare_linear_witness:
  "fifo_ne (snd (fifo_range (\<lambda>_. Map.empty) 0 [(7 :: nat, 1 :: nat), (3, 2)])) (snd (fifo_range (\<lambda>_. Map.empty) 0 [(3, 2), (7, 1)])) \<and>
   fifo_lt (snd (fifo_range (\<lambda>_. Map.empty) 0 [(3 :: nat, 2 :: nat), (7, 1)])) (snd (fifo_range (\<lambda>_. Map.empty) 0 [(7, 1), (3, 2)]))"
proof -
  let ?a = "snd (fifo_range (\<lambda>_. Map.empty) 0 [(7 :: nat, 1 :: nat), (3, 2)])"
  let ?b = "snd (fifo_range (\<lambda>_. Map.empty) 0 [(3 :: nat, 2 :: nat), (7, 1)])"
  have "fifo_lt ?b ?a" by code_simp
  then show ?thesis using fifo_compare_linear [of ?a ?b ?a] by blast
qed

text \<open>
  Insertion with a hint has the result of the insertion without one, whatever the hint: an entry for a new key goes to the end, where the
  iteration from the end meets it first, and an entry for a key that is present changes nothing.
\<close>

theorem fifo_hint_irrelevant:
  assumes "fifo_ok p"
  shows "\<exists>p'. fifo_insert_hint p hint (k, v) = (key_index (fifo_entries p) k, p') \<and>
    fifo_emplace_hint p hint' k v = (key_index (fifo_entries p) k, p') \<and> fifo_ok p' \<and>
    fifo_reversed p' = (if k \<in> fst ` set (fifo_entries p) then fifo_reversed p else (k, v) # fifo_reversed p)"
proof -
  have "fifo_emplace_hint p hint' k v = fifo_insert_hint p hint (k, v)" by (simp add: fifo_emplace_hint_def fifo_insert_hint_def Let_def)
  moreover obtain p' where "fifo_insert p (k, v) = ((key_index (fifo_entries p) k, k \<notin> fst ` set (fifo_entries p)), p')" "fifo_ok p'"
      "fifo_entries p' = al_insert (fifo_entries p) k v"
    using fifo_insert_ok [OF assms] by blast
  ultimately show ?thesis by (simp add: fifo_hint_insert fifo_reversed_entries al_insert_def)
qed

theorem fifo_hint_irrelevant_witness:
  "\<exists>p'. fifo_insert_hint (demo_tables, demo_fifo) 0 (5, ''c'') = (2, p') \<and> fifo_ok p' \<and> fifo_reversed p' = [(5, ''c''), (3, ''b''), (7, ''a'')]"
proof -
  have e: "fifo_entries (demo_tables, demo_fifo) = [(7, ''a''), (3, ''b'')]" using demo_fifo_ok(2) by (simp add: fifo_entries_def)
  show ?thesis
    using fifo_hint_irrelevant [OF demo_fifo_ok(1), of 0 5 "''c''" 0] by (auto simp: e fifo_reversed_entries key_index_def numeral_2_eq_2)
qed

end
