(* ===== verification/CaresMain.thy ===== *)
theory CaresMain
  imports CaresHost
begin

text \<open>
  The main functions of the samples under \<open>c-ares/\<close> as the sequences of their calls, and the callbacks that \<open>CaresTtl\<close> and \<open>CaresHost\<close> do
  not have. The calls of \<open>kqueue\<close>, \<open>ares_library_init\<close>, \<open>ares_init_options\<close> and \<open>ares_create_query\<close> can fail and then end the program with
  status 1; their results are an argument. The protocol of the library says in which order the calls may come.
\<close>

section \<open>The calls\<close>

datatype ares_call =
    OpenQueue
  | InitLibrary
  | OpenChannel
  | SetServers string
  | SetSocketCallback
  | GetHostByName string
  | GetHostByAddr string
  | GetAddrInfo string
  | QueryName string
  | MakeQuery string
  | SendQuery
  | WaitReplies
  | FreeString
  | DestroyChannel
  | CleanupLibrary

fun fallible :: "ares_call \<Rightarrow> bool" where
  "fallible OpenQueue = True"
| "fallible InitLibrary = True"
| "fallible OpenChannel = True"
| "fallible (MakeQuery _) = True"
| "fallible _ = False"

text \<open>The exit status and the calls that were made with success.\<close>

fun run_calls :: "(ares_call \<Rightarrow> bool) \<Rightarrow> ares_call list \<Rightarrow> int \<times> ares_call list" where
  "run_calls succeeds [] = (0, [])"
| "run_calls succeeds (c # cs) =
     (if fallible c \<and> \<not> succeeds c then (1, [])
      else case run_calls succeeds cs of (status, done) \<Rightarrow> (status, c # done))"

definition mkquery_main :: "ares_call list" where
  "mkquery_main =
     [InitLibrary, OpenChannel, SetSocketCallback, MakeQuery ''google.com'', SendQuery, WaitReplies, FreeString,
      DestroyChannel, CleanupLibrary]"

definition query_main :: "ares_call list" where
  "query_main =
     [InitLibrary, OpenChannel, SetSocketCallback, QueryName ''1.1.1.1.in-addr.arpa'', WaitReplies, DestroyChannel, CleanupLibrary]"

definition timeouts_main :: "ares_call list" where
  "timeouts_main =
     [InitLibrary, OpenChannel, SetServers ''3.219.212.117'', SetSocketCallback, GetHostByName ''google.com'', WaitReplies,
      DestroyChannel, CleanupLibrary]"

definition tcpbug_main :: "ares_call list" where
  "tcpbug_main =
     [InitLibrary, OpenChannel, SetServers ''1.1.1.1'', MakeQuery ''10.144.253.17.in-addr.arpa'', SendQuery, WaitReplies, FreeString,
      DestroyChannel, CleanupLibrary]"

definition gethostbyname_main :: "ares_call list" where
  "gethostbyname_main =
     [InitLibrary, OpenChannel, SetSocketCallback, GetHostByName ''google.com'', GetHostByName ''apple.com'', WaitReplies,
      GetHostByName ''microsoft.com'', WaitReplies, DestroyChannel, CleanupLibrary]"

definition gethostbyaddr_main :: "ares_call list" where
  "gethostbyaddr_main =
     [InitLibrary, OpenChannel, SetSocketCallback, GetHostByAddr ''1.1.1.1'', WaitReplies, DestroyChannel, CleanupLibrary]"

definition getaddrinfo_main :: "ares_call list" where
  "getaddrinfo_main =
     [InitLibrary, OpenChannel, SetSocketCallback, GetAddrInfo ''one.one.one.one'', WaitReplies, DestroyChannel, CleanupLibrary]"

definition hostfile_main :: "ares_call list" where
  "hostfile_main =
     [InitLibrary, OpenChannel, SetSocketCallback, GetHostByName ''google.com'', GetHostByName ''zeektest'', GetAddrInfo ''zeektest'',
      GetHostByAddr ''10.0.0.10'', WaitReplies, MakeQuery ''zeektest'', SendQuery, WaitReplies, FreeString, DestroyChannel, CleanupLibrary]"

definition kqueue_main :: "ares_call list" where
  "kqueue_main =
     [OpenQueue, InitLibrary, OpenChannel, SetServers ''1.1.1.1'', MakeQuery ''10.144.253.17.in-addr.arpa'', SendQuery, WaitReplies,
      FreeString, DestroyChannel, CleanupLibrary]"

section \<open>The callbacks\<close>

definition plain_a_callback :: "ares_api \<Rightarrow> nat \<Rightarrow> byte list \<Rightarrow> string" where
  "plain_a_callback api status buf =
     (if status \<noteq> ARES_SUCCESS then ''Failed to lookup '' @ ares_strerror api status @ nl
      else case parse_a_reply api buf of
             Inl r \<Rightarrow> ''Failed to parse A record '' @ ares_strerror api r @ nl
           | Inr name \<Rightarrow> ''query_a_callback parsed host: '' @ name @ nl)"

text \<open>\<open>query_ptr_callback\<close> of \<open>cares_mkquery.c\<close> and \<open>ptr_callback\<close> of \<open>cares_query.c\<close> name another record type.\<close>

definition mkquery_ptr_callback :: "ares_api \<Rightarrow> nat \<Rightarrow> byte list \<Rightarrow> string" where
  "mkquery_ptr_callback api status buf =
     (if status \<noteq> ARES_SUCCESS then ''Failed to lookup '' @ ares_strerror api status @ nl
      else case parse_ptr_reply api buf of
             Inl r \<Rightarrow> ''Failed to parse NS record '' @ ares_strerror api r @ nl
           | Inr name \<Rightarrow> ''query_ptr_callback parsed host: '' @ name @ nl)"

definition ptr_callback :: "ares_api \<Rightarrow> nat \<Rightarrow> byte list \<Rightarrow> string" where
  "ptr_callback api status buf =
     (if status \<noteq> ARES_SUCCESS then ''Failed to lookup '' @ ares_strerror api status @ nl
      else case parse_ptr_reply api buf of
             Inl r \<Rightarrow> ''Failed to parse NS record '' @ ares_strerror api r @ nl
           | Inr name \<Rightarrow> ''ptr_callback parsed host: '' @ name @ nl)"

text \<open>\<open>query_ptr_callback\<close> of \<open>cares_apple_tcpbug.c\<close> and of \<open>cares_kqueue.cc\<close>.\<close>

definition tcpbug_ptr_callback :: "ares_api \<Rightarrow> nat \<Rightarrow> byte list \<Rightarrow> string" where
  "tcpbug_ptr_callback api status buf =
     (if status \<noteq> ARES_SUCCESS then ''Failed to lookup '' @ ares_strerror api status @ nl
      else case parse_ptr_reply api buf of
             Inl r \<Rightarrow> ''Failed to parse PTR record '' @ ares_strerror api r @ nl
           | Inr name \<Rightarrow> ''query_ptr_callback parsed host: '' @ name @ nl)"

text \<open>\<open>callback\<close> of \<open>cares_timeouts.c\<close>.\<close>

definition timeouts_callback :: "ares_api \<Rightarrow> address_text \<Rightarrow> nat \<Rightarrow> int \<Rightarrow> hostent option \<Rightarrow> string option" where
  "timeouts_callback api txt status timeouts host =
     (case host of
        None \<Rightarrow> Some (failed_lookup api status @ ''timeouts: '' @ lld timeouts @ nl)
      | Some e \<Rightarrow>
          if status \<noteq> ARES_SUCCESS then Some (failed_lookup api status @ ''timeouts: '' @ lld timeouts @ nl)
          else map_option (\<lambda>s. ''Found address name '' @ h_name e @ nl @ s) (print_addrs txt (h_addrtype e) nl (h_addr_list e)))"

section \<open>The protocol\<close>

text \<open>
  What is held: the event queue, the library, the channel, the bytes of a query, and the number of requests whose callback has not run. A
  call out of order is \<open>None\<close>: requests need a channel, the channel the library, \<open>WaitReplies\<close> ends when all callbacks have run. For
  \<open>cares_kqueue.cc\<close>, whose loop also ends at a timeout or a failure of \<open>kevent\<close>, it stands for a wait in which the replies arrive; requests that
  are pending when it ends otherwise are cancelled with the channel.
\<close>

record held =
  queue_open :: bool
  library :: bool
  channel :: bool
  query_bytes :: bool
  requests :: nat

definition nothing_held :: held where
  "nothing_held = \<lparr>queue_open = False, library = False, channel = False, query_bytes = False, requests = 0\<rparr>"

fun hold :: "held \<Rightarrow> ares_call \<Rightarrow> held option" where
  "hold h OpenQueue = (if queue_open h then None else Some (h\<lparr>queue_open := True\<rparr>))"
| "hold h InitLibrary = (if library h then None else Some (h\<lparr>library := True\<rparr>))"
| "hold h OpenChannel = (if library h \<and> \<not> channel h then Some (h\<lparr>channel := True\<rparr>) else None)"
| "hold h (SetServers _) = (if channel h then Some h else None)"
| "hold h SetSocketCallback = (if channel h then Some h else None)"
| "hold h (GetHostByName _) = (if channel h then Some (h\<lparr>requests := Suc (requests h)\<rparr>) else None)"
| "hold h (GetHostByAddr _) = (if channel h then Some (h\<lparr>requests := Suc (requests h)\<rparr>) else None)"
| "hold h (GetAddrInfo _) = (if channel h then Some (h\<lparr>requests := Suc (requests h)\<rparr>) else None)"
| "hold h (QueryName _) = (if channel h then Some (h\<lparr>requests := Suc (requests h)\<rparr>) else None)"
| "hold h (MakeQuery _) = (if query_bytes h then None else Some (h\<lparr>query_bytes := True\<rparr>))"
| "hold h SendQuery = (if channel h \<and> query_bytes h then Some (h\<lparr>requests := Suc (requests h)\<rparr>) else None)"
| "hold h WaitReplies = (if channel h then Some (h\<lparr>requests := 0\<rparr>) else None)"
| "hold h FreeString = (if query_bytes h then Some (h\<lparr>query_bytes := False\<rparr>) else None)"
| "hold h DestroyChannel = (if channel h then Some (h\<lparr>channel := False\<rparr>) else None)"
| "hold h CleanupLibrary = (if library h \<and> \<not> channel h then Some (h\<lparr>library := False\<rparr>) else None)"

fun hold_all :: "held \<Rightarrow> ares_call list \<Rightarrow> held option" where
  "hold_all h [] = Some h"
| "hold_all h (c # cs) = (case hold h c of None \<Rightarrow> None | Some h' \<Rightarrow> hold_all h' cs)"

text \<open>
  A script is tidy when its calls are in order, nothing is held after the last one but the event queue, no request is pending when the
  channel goes, and something is held after every proper part of it that has a call.
\<close>

definition tidy :: "ares_call list \<Rightarrow> bool" where
  "tidy cs \<longleftrightarrow>
     map_option (\<lambda>h. h\<lparr>queue_open := False\<rparr>) (hold_all nothing_held cs) = Some nothing_held \<and>
     list_all (\<lambda>n. hold_all nothing_held (take n cs) \<noteq> Some nothing_held) [1..<length cs]"

definition sample_mains :: "ares_call list list" where
  "sample_mains =
     [mkquery_main, query_main, timeouts_main, tcpbug_main, gethostbyname_main, gethostbyaddr_main, getaddrinfo_main, hostfile_main,
      kqueue_main]"

section \<open>Lemmas\<close>

lemma hold_all_append: "hold_all h (cs @ ds) = (case hold_all h cs of None \<Rightarrow> None | Some h' \<Rightarrow> hold_all h' ds)"
  by (induction cs arbitrary: h) (auto split: option.splits)

lemma run_calls_prefix:
  "\<exists>ds. cs = snd (run_calls succeeds cs) @ ds \<and> (fst (run_calls succeeds cs) = 0 \<longleftrightarrow> ds = []) \<and>
     (fst (run_calls succeeds cs) = 0 \<or> fst (run_calls succeeds cs) = 1)"
  by (induction cs) (auto split: prod.splits)

lemma tidy_run:
  assumes "tidy cs" "run_calls succeeds cs = (status, done)"
  shows "\<exists>h. hold_all nothing_held done = Some h \<and>
    (status = 0 \<longrightarrow> done = cs \<and> h\<lparr>queue_open := False\<rparr> = nothing_held) \<and> (status \<noteq> 0 \<longrightarrow> status = 1 \<and> (h = nothing_held \<longleftrightarrow> done = []))"
proof -
  obtain ds where ds: "cs = done @ ds" "status = 0 \<longleftrightarrow> ds = []" "status = 0 \<or> status = 1"
    using run_calls_prefix [of cs succeeds] assms(2) by auto
  obtain e where e: "hold_all nothing_held cs = Some e" "e\<lparr>queue_open := False\<rparr> = nothing_held" using assms(1) by (auto simp: tidy_def)
  then obtain h where h: "hold_all nothing_held done = Some h" unfolding ds(1) by (auto simp: hold_all_append split: option.splits)
  have "h \<noteq> nothing_held" if "status \<noteq> 0" "done \<noteq> []"
  proof -
    have "length done \<in> set [1..<length cs]" using that ds by (auto simp: Suc_le_eq)
    moreover have "take (length done) cs = done" by (simp add: ds(1))
    ultimately show ?thesis using assms(1) h unfolding tidy_def list_all_iff by metis
  qed
  moreover have "h = nothing_held" if "done = []" using h that by simp
  ultimately show ?thesis using h e ds by auto
qed

lemma sample_mains_tidy: "list_all tidy sample_mains"
  by code_simp

section \<open>Properties\<close>

text \<open>
  C38. Whatever calls fail, the main function of every sample makes its calls in the order the library asks for. With exit status 0 it has made
  all of them and released everything but the event queue; with exit status 1 it leaves what it had acquired, unless the very first call
  failed.
\<close>

theorem mains_follow_protocol:
  assumes "cs \<in> set sample_mains" "run_calls succeeds cs = (status, done)"
  shows "\<exists>h. hold_all nothing_held done = Some h \<and>
    (status = 0 \<longrightarrow> done = cs \<and> h\<lparr>queue_open := False\<rparr> = nothing_held) \<and>
    (status \<noteq> 0 \<longrightarrow> status = 1 \<and> (h = nothing_held \<longleftrightarrow> done = []))"
proof (rule tidy_run [OF _ assms(2)])
  show "tidy cs" using sample_mains_tidy assms(1) by (simp add: list_all_iff)
qed

theorem mains_follow_protocol_witness:
  "\<exists>h. hold_all nothing_held [InitLibrary, OpenChannel, SetSocketCallback] = Some h \<and> h \<noteq> nothing_held"
proof -
  have "run_calls (\<lambda>c. \<not> (c = MakeQuery ''google.com'')) mkquery_main = (1, [InitLibrary, OpenChannel, SetSocketCallback])"
    by (simp add: mkquery_main_def)
  moreover have "mkquery_main \<in> set sample_mains" by (simp add: sample_mains_def)
  ultimately show ?thesis using mains_follow_protocol [of mkquery_main] by fastforce
qed

end
