(* ===== verification/KqueueLoops.thy ===== *)
theory KqueueLoops
  imports IoLoop
begin

text \<open>
  The two capture loops over kqueue, \<open>ioloop/kqueue.cc\<close> (a file) and \<open>ioloop/kqueue-live.cc\<close> (an interface). The answers of \<open>kevent\<close> and the
  lengths of the packets, as in \<open>IoLoop\<close>, are arguments, one element per round; a loop returns what it prints and whether it has ended.
\<close>

section \<open>Reading a capture file\<close>

text \<open>
  An answer with an event has its flags, and the packet that \<open>pcap_next\<close> then returns: its length, or none, with the length field as it was.
\<close>

datatype next_packet = Packet nat | NoPacket

datatype file_answer = FileFailed | FileTimeout | FileEvent kev next_packet

text \<open>\<open>cnt\<close> and \<open>packets\<close> are the counters, \<open>len\<close> the length field of the packet header. A timeout prints the cleared event.\<close>

fun file_loop :: "file_answer list \<Rightarrow> nat \<Rightarrow> nat \<Rightarrow> nat \<Rightarrow> string \<times> bool" where
  "file_loop [] cnt packets len = ([], False)"
| "file_loop (a # as) cnt packets len =
     (case a of
        FileFailed \<Rightarrow> ([], True)
      | FileTimeout \<Rightarrow>
          if cnt + 1 = 50 then (line ''timeout'', True)
          else (case file_loop as (cnt + 1) packets len of (out, e) \<Rightarrow> (line ''timeout'' @ line ''0 0'' @ out, e))
      | FileEvent ke p \<Rightarrow>
          if ev_error ke then (line ''flags had error'', True)
          else if ev_eof ke then (line ''premature end of file!'', True)
          else
            let len = (case p of Packet n \<Rightarrow> n | NoPacket \<Rightarrow> len);
                now = line (''packet '' @ dec_nat (packets + 1) @ '' of length '' @ dec_nat len)
            in if p = NoPacket then (now, True)
               else (case file_loop as cnt (packets + 1) len of (out, e) \<Rightarrow> (now @ out, e)))"

section \<open>Reading an interface\<close>

text \<open>\<open>OpenIntf\<close> of this file returns the descriptor without a test for \<open>PCAP_ERROR\<close>; the caller does not test for \<open>-1\<close>.\<close>

definition OpenIntf_live :: "pcap_answers \<Rightarrow> open_result" where
  "OpenIntf_live a =
     (if \<not> created a then NullHandle
      else if snaplen a \<noteq> 0 then Failed ''pcap_set_snaplen''
      else if promisc a \<noteq> 0 then Failed ''pcap_set_promisc''
      else if timeout a \<noteq> 0 then Failed ''pcap_set_timeout''
      else if buffer_size a \<noteq> 0 then Failed ''pcap_set_buffer_size''
      else if activated a \<noteq> 0 then Failed ''pcap_activate''
      else Opened (selectable_fd a))"

definition EV_ADD :: uint16 where "EV_ADD = 0x0001"
definition EV_ERROR :: uint16 where "EV_ERROR = 0x4000"
definition EV_EOF :: uint16 where "EV_EOF = 0x8000"

text \<open>
  The events arrive in the vector \<open>events\<close>, of length one; the loop tests the flags of \<open>ke\<close>, the change that registered the descriptor. One
  round has the result of \<open>kevent\<close>, the flags of the event that arrived, and the packet.
\<close>

fun live_loop :: "uint16 \<Rightarrow> (int \<times> uint16 \<times> next_packet) list \<Rightarrow> nat \<Rightarrow> string \<times> bool" where
  "live_loop ke_flags [] len = ([], False)"
| "live_loop ke_flags ((ret, flags, p) # rest) len =
     (if ret = -1 then live_loop ke_flags rest len
      else if ret = 0 then (case live_loop ke_flags rest len of (out, e) \<Rightarrow> (line ''timeout'' @ out, e))
      else
        let ready = line (lld ret @ '' interfaces ready'')
        in if ke_flags AND EV_ERROR \<noteq> 0 then (ready @ line ''flags had error'', True)
           else if ke_flags AND EV_EOF \<noteq> 0 then (ready @ line ''premature end of file!'', True)
           else
             let len = (case p of Packet n \<Rightarrow> n | NoPacket \<Rightarrow> len)
             in (case live_loop ke_flags rest len of (out, e) \<Rightarrow>
                  (ready @ line (''packet of length '' @ dec_nat len) @ out, e)))"

definition live_main :: "(int \<times> uint16 \<times> next_packet) list \<Rightarrow> string \<times> bool" where
  "live_main rounds = live_loop EV_ADD rounds 0"

section \<open>Properties\<close>

definition file_ends :: "file_answer \<Rightarrow> bool" where
  "file_ends a \<longleftrightarrow>
     (case a of
        FileFailed \<Rightarrow> True
      | FileTimeout \<Rightarrow> False
      | FileEvent ke p \<Rightarrow> ev_error ke \<or> ev_eof ke \<or> p = NoPacket)"

definition file_timeouts :: "file_answer list \<Rightarrow> nat" where
  "file_timeouts as = length (filter (\<lambda>a. a = FileTimeout) as)"

lemma file_loop_end:
  "cnt < 50 \<Longrightarrow> snd (file_loop as cnt packets len) \<longleftrightarrow> list_ex file_ends as \<or> 50 \<le> cnt + file_timeouts as"
proof (induction "as" arbitrary: cnt packets len)
  case Nil
  then show ?case by (simp add: file_timeouts_def)
next
  case (Cons a "as")
  have t: "file_timeouts (a # as) = (if a = FileTimeout then Suc (file_timeouts as) else file_timeouts as)" by (simp add: file_timeouts_def)
  show ?case
  proof (cases a)
    case FileTimeout
    show ?thesis
    proof (cases "cnt + 1 = 50")
      case False
      then show ?thesis using Cons.IH [of "cnt + 1" packets len] Cons.prems FileTimeout t by (simp add: file_ends_def case_prod_beta)
    qed (use FileTimeout t in simp)
  next
    case (FileEvent ke p)
    then show ?thesis using Cons.IH [of cnt "packets + 1"] Cons.prems t by (simp add: file_ends_def Let_def case_prod_beta)
  qed (simp add: file_ends_def)
qed

text \<open>
  The loop over a capture file ends exactly when a call of \<open>kevent\<close> fails, an event has an error or end-of-file flag, there is no packet, or 50
  calls have timed out.
\<close>

theorem file_loop_ends:
  "snd (file_loop answers 0 0 0) \<longleftrightarrow> list_ex file_ends answers \<or> 50 \<le> file_timeouts answers"
  using file_loop_end [of 0 answers 0 0] by simp

text \<open>
  The loop over an interface never ends: it tests the flags of the change it registered, so that an event with an error or end-of-file flag
  is taken for a packet, and a descriptor that could not be opened or a failing \<open>kevent\<close> is polled for ever.
\<close>

theorem live_loop_never_ends:
  "\<not> snd (live_main rounds) \<and>
   live_main [(1, EV_ERROR, NoPacket)] = (line ''1 interfaces ready'' @ line ''packet of length 0'', False) \<and>
   (OpenIntf_live a = Opened (-1) \<longleftrightarrow>
      (case OpenIntf a of Failed s \<Rightarrow> s = ''pcap_get_selectable_fd'' | _ \<Rightarrow> False))"
proof -
  have f: "EV_ADD AND EV_ERROR = 0" "EV_ADD AND EV_EOF = 0" by (simp_all add: EV_ADD_def EV_ERROR_def EV_EOF_def)
  have "\<not> snd (live_loop EV_ADD rs len)" for rs len
  proof (induction rs arbitrary: len)
    case (Cons r rs)
    then show ?case by (cases r) (simp add: f Let_def case_prod_beta)
  qed simp
  moreover have "lld 1 = ''1''" "dec_nat 0 = ''0''" by code_simp+
  ultimately show ?thesis by (auto simp: live_main_def f OpenIntf_live_def OpenIntf_def)
qed

end
