(* ===== verification/DigestPrint.thy ===== *)
theory DigestPrint
  imports ByteOrder
begin

text \<open>
  The printing of digests in \<open>dict/digest.h\<close>. The result is a static buffer of 256 characters: a state that lives on between the calls. A write
  outside of the buffer is \<open>None\<close>. The digits are those of \<open>ByteOrder\<close>.
\<close>

text \<open>\<open>%02x\<close> of a byte.\<close>

definition hex2 :: "byte \<Rightarrow> string" where
  "hex2 b = [hex_digit (unat b div 16), hex_digit (unat b mod 16)]"

definition new_buf :: string where
  "new_buf = replicate 256 (CHR 0x00)"

text \<open>\<open>snprintf(buf + pos, 3, "%02x", b)\<close>: two digits and the terminator.\<close>

definition snprintf_hex :: "string \<Rightarrow> nat \<Rightarrow> byte \<Rightarrow> string option" where
  "snprintf_hex buf pos b =
     (if pos + 3 \<le> length buf then Some (take pos buf @ hex2 b @ [CHR 0x00] @ drop (pos + 3) buf) else None)"

fun digest_loop :: "string \<Rightarrow> nat \<Rightarrow> byte list \<Rightarrow> string option" where
  "digest_loop buf i [] = Some buf"
| "digest_loop buf i (b # bs) = (case snprintf_hex buf (i * 2) b of None \<Rightarrow> None | Some buf \<Rightarrow> digest_loop buf (i + 1) bs)"

definition digest_print :: "string \<Rightarrow> byte list \<Rightarrow> nat \<Rightarrow> string option" where
  "digest_print buf digest n = digest_loop buf 0 (take n digest)"

text \<open>What the caller reads in the buffer, up to the terminator.\<close>

definition c_string :: "string \<Rightarrow> string" where
  "c_string buf = takeWhile (\<lambda>c. c \<noteq> CHR 0x00) buf"

definition MD5_DIGEST_LENGTH :: nat where "MD5_DIGEST_LENGTH = 16"
definition SHA_DIGEST_LENGTH :: nat where "SHA_DIGEST_LENGTH = 20"
definition SHA256_DIGEST_LENGTH :: nat where "SHA256_DIGEST_LENGTH = 32"

definition md5_digest_print :: "string \<Rightarrow> byte list \<Rightarrow> string option" where
  "md5_digest_print buf digest = digest_print buf digest MD5_DIGEST_LENGTH"

definition sha1_digest_print :: "string \<Rightarrow> byte list \<Rightarrow> string option" where
  "sha1_digest_print buf digest = digest_print buf digest SHA_DIGEST_LENGTH"

definition sha256_digest_print :: "string \<Rightarrow> byte list \<Rightarrow> string option" where
  "sha256_digest_print buf digest = digest_print buf digest SHA256_DIGEST_LENGTH"

section \<open>Reading the digits back\<close>

definition digit_value :: "char \<Rightarrow> nat" where
  "digit_value c = (if (of_char c :: nat) < 58 then of_char c - 48 else of_char c - 87)"

fun unhex :: "string \<Rightarrow> byte list" where
  "unhex (a # b # cs) = of_nat (digit_value a * 16 + digit_value b) # unhex cs"
| "unhex _ = []"

lemma digit_value_hex [simp]: "n < 16 \<Longrightarrow> digit_value (hex_digit n) = n"
  by (auto simp: digit_value_def hex_digit_def)

lemma hex_digit_nonzero: "n < 16 \<Longrightarrow> hex_digit n \<noteq> CHR 0x00"
proof
  assume "n < 16" "hex_digit n = CHR 0x00"
  then have "(of_char (hex_digit n) :: nat) = 0" by simp
  then show False using \<open>n < 16\<close> by (simp add: hex_digit_def split: if_splits)
qed

lemma byte_nibbles: "unat (b :: byte) div 16 < 16" "unat b mod 16 < 16"
proof -
  have "unat b < 2 ^ LENGTH(8)" by (rule unsigned_less)
  then show "unat b div 16 < 16" by simp
qed simp

lemma unhex_hex: "unhex (concat (map hex2 bs)) = bs"
  by (induction bs) (simp_all add: hex2_def byte_nibbles)

lemma length_hex: "length (concat (map hex2 bs)) = 2 * length bs"
  by (induction bs) (simp_all add: hex2_def)

lemma hex_nonzero: "CHR 0x00 \<notin> set (concat (map hex2 bs))"
  by (induction bs) (simp_all add: hex2_def hex_digit_nonzero [OF byte_nibbles(1), THEN not_sym] hex_digit_nonzero [OF byte_nibbles(2), THEN not_sym])

lemma c_string_terminated: "CHR 0x00 \<notin> set xs \<Longrightarrow> c_string (xs @ CHR 0x00 # ys) = xs"
  by (induction xs) (auto simp: c_string_def)

text \<open>The loop writes the digits behind those of the earlier rounds.\<close>

lemma digest_loop_writes:
  "bs \<noteq> [] \<Longrightarrow> 2 * (i + length bs) < length buf \<Longrightarrow>
   digest_loop buf i bs =
     Some (take (2 * i) buf @ concat (map hex2 bs) @ [CHR 0x00] @ drop (2 * (i + length bs) + 1) buf)"
proof (induction bs arbitrary: buf i)
  case (Cons b bs)
  let ?buf = "take (2 * i) buf @ hex2 b @ [CHR 0x00] @ drop (2 * i + 3) buf"
  have h: "length (hex2 b) = 2" by (simp add: hex2_def)
  have l: "2 * i + 3 \<le> length buf" "length ?buf = length buf" using Cons.prems by (simp_all add: h)
  then have s: "digest_loop buf i (b # bs) = digest_loop ?buf (i + 1) bs" by (simp add: snprintf_hex_def mult.commute)
  show ?case
  proof (cases "bs = []")
    case True
    then show ?thesis unfolding s by (simp add: numeral_3_eq_3)
  next
    case False
    have "2 * (i + 1 + length bs) < length ?buf" using Cons.prems(2) l(2) by simp
    from Cons.IH [OF False this] have "digest_loop ?buf (i + 1) bs =
        Some (take (2 * (i + 1)) ?buf @ concat (map hex2 bs) @ [CHR 0x00] @ drop (2 * (i + 1 + length bs) + 1) ?buf)" .
    moreover have "take (2 * (i + 1)) ?buf = take (2 * i) buf @ hex2 b" using l(1) h by simp
    moreover have "drop (2 * (i + 1 + length bs) + 1) ?buf = drop (2 * (i + length (b # bs)) + 1) buf"
      using l(1) h False by (cases bs) (simp_all add: drop_append drop_Cons' numeral_3_eq_3 add.commute)
    ultimately show ?thesis unfolding s by simp
  qed
qed simp

lemma digest_loop_overrun: "length buf \<le> 2 * (i + length bs) \<Longrightarrow> bs \<noteq> [] \<Longrightarrow> digest_loop buf i bs = None"
proof (induction bs arbitrary: buf i)
  case (Cons b bs)
  show ?case
  proof (cases "snprintf_hex buf (i * 2) b")
    case (Some buf')
    then have "length buf' = length buf" "i * 2 + 3 \<le> length buf" by (auto simp: snprintf_hex_def hex2_def split: if_splits)
    then show ?thesis using Cons.IH [of buf' "i + 1"] Cons.prems(1) Some by (cases bs) auto
  qed simp
qed simp

section \<open>Properties\<close>

text \<open>
  \<open>digest_print\<close> writes two lower-case digits per byte, from which the digest can be read back, if the digest has between 1 and 127 bytes, as all
  the digests of the program have; with more bytes it writes outside of its buffer, and with none it returns what the call before it left.
\<close>

theorem digest_print_correct:
  assumes "length buf = 256" "n \<le> length digest"
  shows "if n = 0 then digest_print buf digest n = Some buf
    else if n \<le> 127 then
      (\<exists>buf'. digest_print buf digest n = Some buf' \<and> length buf' = 256 \<and> length (c_string buf') = 2 * n \<and> unhex (c_string buf') = take n digest)
    else digest_print buf digest n = None"
proof -
  let ?bs = "take n digest" and ?hex = "concat (map hex2 (take n digest))"
  have l: "length ?bs = n" using assms(2) by simp
  have "\<exists>buf'. digest_print buf digest n = Some buf' \<and> length buf' = 256 \<and> c_string buf' = ?hex" if n: "n \<noteq> 0" "n \<le> 127"
  proof -
    have ne: "?bs \<noteq> []" using l n(1) by auto
    have "digest_print buf digest n = Some (?hex @ [CHR 0x00] @ drop (2 * n + 1) buf)"
      using digest_loop_writes [of ?bs 0 buf, OF ne] n l assms(1) by (simp add: digest_print_def)
    moreover have "c_string (?hex @ [CHR 0x00] @ drop (2 * n + 1) buf) = ?hex"
      using c_string_terminated [OF hex_nonzero, of ?bs] by (simp only: append_Cons append_Nil)
    ultimately show ?thesis using length_hex [of ?bs] l n(2) assms(1) by auto
  qed
  moreover have "digest_print buf digest n = None" if "\<not> n \<le> 127"
  proof -
    have "?bs \<noteq> []" "length buf \<le> 2 * (0 + length ?bs)" using that l assms(1) by auto
    then show ?thesis using digest_loop_overrun unfolding digest_print_def by blast
  qed
  moreover have "digest_print buf digest 0 = Some buf" by (simp add: digest_print_def)
  moreover have "length ?hex = 2 * n" "unhex ?hex = ?bs" using length_hex [of ?bs] unhex_hex [of ?bs] l by simp_all
  ultimately show ?thesis by auto
qed

theorem digest_print_correct_witness:
  "\<exists>buf'. digest_print new_buf [0xDE, 0xAD, 0xBE, 0xEF] 4 = Some buf' \<and> unhex (c_string buf') = [0xDE, 0xAD, 0xBE, 0xEF]"
  using digest_print_correct [of new_buf 4 "[0xDE, 0xAD, 0xBE, 0xEF]"] by (auto simp: new_buf_def)

end
