(* ===== verification/Dirname.thy ===== *)
theory Dirname
  imports Prelude
begin

text \<open>
  \<open>do_dirname\<close> of \<open>dirname.cc\<close>: a copy of the text into a buffer, and the function \<open>dirname\<close> of the C library on it. The buffer has one character
  more than the text; \<open>strncpy\<close> copies up to a zero character and fills the rest with zeros.
\<close>

text \<open>The text up to its first zero character.\<close>

definition c_text :: "string \<Rightarrow> string" where
  "c_text s = takeWhile (\<lambda>c. c \<noteq> CHR 0x00) s"

definition strncpy :: "string \<Rightarrow> nat \<Rightarrow> string" where
  "strncpy s n = c_text (take n s) @ replicate (n - length (c_text (take n s))) (CHR 0x00)"

definition slash :: char where
  "slash = CHR ''/''"

definition drop_end :: "(char \<Rightarrow> bool) \<Rightarrow> string \<Rightarrow> string" where
  "drop_end P s = rev (dropWhile P (rev s))"

text \<open>
  \<open>dirname\<close> as POSIX describes it: trailing slashes do not count, then the last component and the slashes before it go; a path without a slash
  has the directory \<open>.\<close>, and only slashes have the directory \<open>/\<close>.
\<close>

definition posix_dirname :: "string \<Rightarrow> string" where
  "posix_dirname s =
     (if s = [] then ''.''
      else
        let t = drop_end (\<lambda>c. c = slash) s
        in if t = [] then [slash]
           else if slash \<notin> set t then ''.''
           else
             let d = drop_end (\<lambda>c. c = slash) (drop_end (\<lambda>c. c \<noteq> slash) t)
             in if d = [] then [slash] else d)"

definition do_dirname :: "string \<Rightarrow> string" where
  "do_dirname s =
     (let tmp = strncpy s (length s) @ [CHR 0x00]
      in posix_dirname (c_text tmp))"

text \<open>The lines that \<open>main\<close> prints.\<close>

definition dirname_main :: "string list" where
  "dirname_main = map do_dirname [''/'', ''///////'', ''abcd'', ''/a/b/c'', '''', ''/a////////b///////c'']"

section \<open>Lemmas\<close>

lemma c_text_id: "CHR 0x00 \<notin> set s \<Longrightarrow> c_text s = s"
  by (auto simp: c_text_def takeWhile_eq_all_conv)

lemma c_text_append: "CHR 0x00 \<notin> set s \<Longrightarrow> c_text (s @ ys) = s @ c_text ys"
  by (induction s) (auto simp: c_text_def)

lemma c_text_zeros: "c_text (replicate n (CHR 0x00) @ [CHR 0x00]) = []"
  by (cases n) (simp_all add: c_text_def)

lemma c_text_no_zero: "CHR 0x00 \<notin> set (c_text s)"
  by (auto simp: c_text_def dest: set_takeWhileD)

lemma do_dirname_text: "do_dirname s = posix_dirname (c_text s)"
  using c_text_append [OF c_text_no_zero [of s]] by (simp add: do_dirname_def strncpy_def c_text_zeros)

section \<open>Properties\<close>

text \<open>
  A path with a directory part: \<open>dir / name\<close>, with any number of slashes in between and at the end, has the directory \<open>dir\<close>; without a
  directory part it is the current directory, directly under the root it is the root. The copy loses nothing of a text without zero characters.
\<close>

theorem do_dirname_splits:
  assumes "CHR 0x00 \<notin> set (dir @ name)" "name \<noteq> []" "slash \<notin> set name" "dir = [] \<or> last dir \<noteq> slash"
  shows "do_dirname (dir @ replicate (Suc m) slash @ name @ replicate n slash) = (if dir = [] then [slash] else dir) \<and>
    do_dirname (name @ replicate n slash) = ''.'' \<and> do_dirname (replicate (Suc m) slash) = [slash]"
proof -
  have z: "CHR 0x00 \<notin> set (replicate k slash)" for k by (simp add: slash_def)
  have end_slashes: "drop_end (\<lambda>c. c = slash) (s @ replicate k slash) = s" if "s = [] \<or> last s \<noteq> slash" for s k
    using that by (cases s rule: rev_cases) (simp_all add: drop_end_def dropWhile_append)
  have end_name: "drop_end (\<lambda>c. c \<noteq> slash) (s @ replicate (Suc m) slash @ name) = s @ replicate (Suc m) slash" for s
  proof -
    have "rev (s @ replicate (Suc m) slash @ name) = rev name @ replicate (Suc m) slash @ rev s"
      by (simp only: rev_append rev_replicate append.assoc)
    then have "rev (s @ replicate (Suc m) slash @ name) = rev name @ slash # replicate m slash @ rev s" by simp
    moreover have "dropWhile (\<lambda>c. c \<noteq> slash) (rev name @ slash # replicate m slash @ rev s) = slash # replicate m slash @ rev s"
      using assms(3) by (subst dropWhile_append2) auto
    ultimately show ?thesis by (simp add: drop_end_def replicate_append_same)
  qed
  have l: "last name \<noteq> slash" using assms(2,3) by (metis last_in_set)
  let ?p = "dir @ replicate (Suc m) slash @ name @ replicate n slash"
  have "c_text ?p = ?p" by (rule c_text_id) (use assms(1) z in auto)
  moreover have "drop_end (\<lambda>c. c = slash) ?p = dir @ replicate (Suc m) slash @ name"
    using end_slashes [of "dir @ replicate (Suc m) slash @ name" n] l assms(2) by simp
  ultimately have "do_dirname ?p = (if dir = [] then [slash] else dir)"
    using assms(2,4) end_name [of dir] end_slashes [of dir "Suc m"] by (simp add: do_dirname_text posix_dirname_def Let_def)
  moreover have "c_text (name @ replicate n slash) = name @ replicate n slash" by (rule c_text_id) (use assms(1) z in auto)
  then have "do_dirname (name @ replicate n slash) = ''.''"
    using assms(2,3) end_slashes [of name n] l by (simp add: do_dirname_text posix_dirname_def Let_def)
  moreover have "do_dirname (replicate (Suc m) slash) = [slash]"
    using c_text_id [OF z] end_slashes [of "[]" "Suc m"] by (simp add: do_dirname_text posix_dirname_def Let_def del: replicate_Suc)
  ultimately show ?thesis by blast
qed

theorem do_dirname_splits_witness: "do_dirname ''/a////////b///////c'' = ''/a////////b''"
  using do_dirname_splits [of "''/a////////b''" "''c''" 6 0] by (simp add: slash_def numeral_eq_Suc)

text \<open>What the program prints.\<close>

theorem dirname_main_output: "dirname_main = [''/'', ''/'', ''.'', ''/a/b'', ''.'', ''/a////////b'']"
  by code_simp

end
