(* ===== verification/Spec2Isabelle.thy ===== *)
theory Spec2Isabelle
  imports SipHash PriorityQueueVect BHeapVoid DictIter HashKey ZList FifoMap VxlanProps Glob Base64 WinConsole
    ByteOrder DictDriverProps CaresHost KqueueWatch IoLoop QueueDriver DictDump FifoOrder CaresMain
    KqueueLoops DigestPrint Dirname
begin

text \<open>
  A verification library for the repository's data structures, hash kernels, packet tools and system samples. The
  repository is a collection of experiments around the network monitor Zeek; the code with data structures and
  algorithms of its own is in \<open>dict/\<close>, \<open>queue/\<close>, \<open>hashing/\<close>, \<open>pcap2vxlan/\<close> and \<open>ConsoleApplication1/\<close>; \<open>c-ares/\<close>,
  \<open>ioloop/\<close> and the files at the top level are programs around a library or the operating system.

  \<^bold>\<open>The parts and how they interact.\<close>
  \<open>dict/OpenDict.{h,cc}\<close> is a clustered hash table with incremental remapping. Its clients reach it through
  \<open>PDict\<close> and \<open>HashKey\<close> (\<open>dict/Hash.{h,cc}\<close>): a key is a byte block, copied or owned, and a hash, which comes from
  SipHash (\<open>dict/siphash24.cc\<close>) for keys of up to 36 bytes and from an MD5-based code otherwise. Beside it \<open>dict/\<close>
  holds the growing array \<open>List<T>\<close> and \<open>fifo_map\<close>, a \<open>std::map\<close> that lists its entries in the order of insertion.
  \<open>hashing/\<close> has three more SipHash kernels that are timed against each other. \<open>queue/\<close> has four priority
  queues, driven by the same loops of \<open>queue/main.cc\<close>: a binary heap, the same heap with an iterative sift-down, a
  sorted vector and a B-heap. \<open>pcap2vxlan\<close> wraps the packets of a capture into VXLAN. \<open>ConsoleApplication1\<close> is a
  console program for Windows: its commands list sockets, processes, services, event logs and users through manager classes
  over the system's interfaces, and \<open>Glob.cpp\<close> is a pathname search over the directory search of Windows. \<open>dict/test.cc\<close>
  drives the dictionary, \<open>fifo_map\<close> and the standard maps with the same keys.

  \<^bold>\<open>The theories.\<close>
  \<^item> \<open>Prelude\<close>: machine types, theorem collections, lemmas on lists and words.
  \<^item> \<open>SipHash\<close>: \<open>dict/siphash24.cc\<close> (\<open>siphash\<close>), \<open>hashing/stock\<close>, \<open>hashing/siphash-bench\<close> (\<open>siphash24\<close>) and
    \<open>hashing/floodyberry\<close> (\<open>floody_siphash\<close>), on words of 64 bits, with their self tests. The locale \<open>sip_kernel\<close> is
    the contract of a kernel and is interpreted on all four: the word-at-a-time and the C kernel compute the digest of
    the reference kernel on every message, and the self tests agree.
  \<^item> \<open>PQ_Spec\<close>: the contract of a priority queue over a multiset of elements (\<open>pq_laws\<close>, and \<open>pq_total\<close> for queues that
    accept every element), with the loops \<open>fill\<close> and \<open>drain\<close>; in the locales, draining a filled queue
    returns all elements in order.
  \<^item> \<open>PriorityQueue\<close>: \<open>PriorityQueue.{h,cc}\<close> and \<open>PriorityQueueUnrolled.cc\<close>. The state is the array of pointers and
    the store of the elements, each with its time and its offset; the invariant says that the array is a heap and that
    every offset is right. \<open>Add\<close> and both forms of \<open>Remove\<close> keep it and do what they promise; the unrolled class
    returns the same results and states.
  \<^item> \<open>PriorityQueueVect\<close>: the sorted vector, again an instance of the contract, and its agreement with the heap.
  \<^item> \<open>BHeap\<close>, \<open>BHeapOps\<close>, \<open>BHeapProps\<close>: \<open>queue/prio_queue.hpp\<close>. First the block addressing (parents and
    children form a tree that avoids the unused first slot of each block) and the \<open>skip_vector\<close> with its raw cells,
    then the loops of push, pop and reschedule, which are shown to return, then the queue as an instance of \<open>pq_total\<close>.
    \<open>BHeapVoid\<close>: the specialisation without payloads, growth on a memory of blocks when a copy throws, and the move
    constructor.
  \<^item> \<open>QueueDriver\<close>: the benchmark and tests of \<open>queue/main.cc\<close>, with elements made by \<open>new\<close> during the run. The heap with
    allocation, \<open>std::priority_queue\<close> and \<open>std::set\<close> are further instances of the queue contract.
  \<^item> \<open>OpenDict\<close>: the dictionary operation by operation. \<open>DictCluster\<close>: the shape of the table and what the two
    relocation loops do to it. \<open>DictMap\<close>: the invariant \<open>wf_dict\<close> and the abstract map \<open>dict_map\<close>, keyed by the 32-bit
    hash and the key bytes. \<open>DictRemap\<close>: growth and remapping. \<open>MapSpec\<close>: the contract of a dictionary as the locale
    \<open>map_impl\<close>. \<open>DictOps\<close>: its interpretation. \<open>DictProps\<close> and \<open>DictIter\<close>: the properties, and iteration with
    plain and robust cookies. \<open>DictDump\<close>: the files and tables of \<open>DumpKeys\<close> and \<open>Dump\<close>.
  \<^item> \<open>HashKey\<close>: \<open>Hash.{h,cc}\<close> over an explicit heap of blocks, and \<open>PDict\<close>, the composition of keys, hash function and
    dictionary. \<open>ConnKey\<close>: the composite keys of \<open>test.cc\<close> and \<open>ordered_map.cpp\<close> with their comparisons. \<open>StdMap\<close>: the
    ordered sequence of nodes of \<open>std::map\<close> under a comparison, whose laws are the locale \<open>key_order\<close>. \<open>DictDriver\<close>,
    \<open>DictDriverProps\<close>: the drivers of \<open>test.cc\<close>; the locale \<open>key_source\<close> is what the fill loop needs of the keys.
    \<open>DigestPrint\<close>: the printing of digests into a static buffer (\<open>dict/digest.h\<close>).
  \<^item> \<open>Simulation\<close>: refinement by runs of operations as a locale, interpreted in \<open>ZList\<close> (\<open>dict/List.h\<close> refines
    sequences) and \<open>FifoMap\<close> (\<open>dict/fifo_map.hpp\<close> refines an association list in the order of insertion; the table of
    timestamps is shared through pointers, so the tables live in a store under addresses). \<open>FifoOrder\<close>: its insertions with
    a hint, iteration from the end, and comparison operators, over the locale \<open>element_order\<close>.
  \<^item> \<open>Vxlan\<close>, \<open>VxlanProps\<close>: \<open>pcap2vxlan.{h,c}\<close> byte by byte: configuration, headers, checksum, packet loop, and a
    receiver that takes an encapsulated packet apart again.
  \<^item> \<open>Glob\<close>: \<open>glob\<close> and \<open>globfree\<close>, with the null pointer that a pattern without a separator leads to as a fault. \<open>WinUtil\<close>, \<open>WinSockets\<close>, \<open>EventLog\<close>, \<open>WinProcesses\<close>, \<open>Wmi\<close>, \<open>WinConsole\<close>: \<open>utils.h\<close>,
    the manager classes and the commands of the console program. The answers of the system are arguments, and the calls that
    acquire and release handles, libraries and interface pointers are recorded, so that the properties can pair them.
  \<^item> \<open>Base64\<close>: \<open>sha256-ssh-key-hashing.cc\<close>, decoder and encoder with their buffers and bounds, and the fingerprint of a key.
    \<open>ByteOrder\<close>: \<open>bytestring_to_doublefloat.cc\<close>. \<open>Dirname\<close>: \<open>dirname.cc\<close>.
  \<^item> \<open>CaresTtl\<close>, \<open>CaresHost\<close>, \<open>KqueueWatch\<close>, \<open>CaresMain\<close>: the samples of \<open>c-ares/\<close>: the parsing of a reply for its time to
    live, the callbacks that print, the callback that keeps a kqueue in step with the sockets of the resolver (over a kernel and a
    resolver with states of their own; the predicate \<open>kqueue_doc\<close> says what is documented of \<open>kevent\<close>), the waiting loops, and the main functions as sequences of calls under the protocol of the library.
  \<^item> \<open>IoLoop\<close>, \<open>KqueueLoops\<close>: the loops over poll, libuv, epoll and kqueue of \<open>ioloop/\<close> and \<open>kqueue-fifos.cc\<close>, over the
    sequence of answers the system gives.

  \<^bold>\<open>What the properties show.\<close>
  The dictionary: lookup, insertion and removal act on the abstract map as documented, runs of operations refine
  a map, remapping keeps the map, the invariant implies the code's own \<open>AssertValid\<close>, the indexed lookup agrees with the
  linear one, and iteration ends after it has visited every entry. The hypotheses name the limits of the code: 16-bit
  distances and key lengths, no order vector, robust iterators, and at most one unfinished growth (or iteration) for
  operations that remap during a lookup. Outside of them \<open>Lookup_finds_exactly\<close> says which stored keys a lookup
  finds; its witness is a lookup that makes another key unreachable after two unfinished growths. Counterexamples are
  an order vector that records a displaced entry and an entry that a robust iteration misses.
  The drivers: after the fill loops of \<open>test.cc\<close>, dictionary, map and \<open>fifo_map\<close> give the same answers, and their iterations
  meet the same entries. The queues keep their invariants, return the least element, and in the benchmark hand out all
  elements in order, with every element deleted once except in the block over \<open>std::set\<close>. The kernels agree with the
  reference; encodings (VXLAN, Base64, key dumps, byte order) can be read back, and the decoders stay within
  their buffers or, where they do not, the property says for which inputs. The system programs release what they
  acquire on the paths the properties name, their listings are in order, and their loops end at the answers the properties
  name. Error properties and lemmas prove the defects found, such as the abort of \<open>Remove(e)\<close> when the times of two elements
  tie, \<open>swap\<close> of \<open>fifo_map\<close> after which each map compares by the timestamps of the other,
  socket sets that are updated although the kernel rejected the change, outer MAC addresses that are the bytes of a
  pointer, a pathname search that ends at the first entry it skips, a key dump that reads behind an empty table, and loops
  that test the wrong flags.

  \<^bold>\<open>Errors, loops and bounds.\<close>
  A failed assertion or abort is an error value or \<open>None\<close>. Loops with an evident measure are \<open>fun\<close> or \<open>function\<close>; the
  loops of the B-heap are partial functions into \<open>option\<close>, and every property of them states that they return. A loop that
  ends only when the system says so recurses over the list of the system's answers and reports whether it has ended, or, over a system with a
  state (\<open>wait_ares\<close>), takes fuel; the property says how many rounds are enough.
  \<open>drain\<close> and the loop of \<open>quick_test\<close> take fuel; one unit per element and one for the final test are enough, and
  the properties say so. Words keep their width where the code depends on it (hashes, distances, key sizes, checksums,
  header fields); positions and counts that the code keeps in \<open>int\<close> are numbers, exact while the
  structure fits into memory.

  \<^bold>\<open>What is assumed.\<close>
  Memory does not run out. Times are a linear order (doubles without NaN) with \<open>-HUGE_VAL\<close> below all times in the
  queues that use it. The machine is little-endian with 64-bit pointers. MD5, \<open>ether_aton\<close>, \<open>inet_pton\<close>,
  \<open>qsort\<close>, the directory search and the home directory are parameters, and so are SHA-256, \<open>std::shuffle\<close>, the clock, the
  interfaces of Windows, the c-ares resolver, \<open>inet_ntop\<close>, \<open>kevent\<close>, \<open>poll\<close>, \<open>epoll\<close> and the capture library; what a property
  relies on is a named hypothesis, and its witness has a concrete function for it. The containers of the standard
  library are the ordered sequences of their elements. Doubles that are only added and divided for a report are
  exact numbers.

  \<^bold>\<open>Not modelled.\<close>
  \<open>pcap2gre.{h,c}\<close> is a damaged copy that is not valid C. The programs \<open>asio.cc\<close>, \<open>libevent.cc\<close>, \<open>uv-pcap.cc\<close>, \<open>poll-pcap.cc\<close>,
  \<open>wakeup.cc\<close> and \<open>setsignal.{h,c}\<close> hand their work to an event library or the system. \<open>chrono_perf_test.cc\<close>, \<open>is_convertible.cpp\<close>,
  \<open>test-rvo.cpp\<close>, \<open>variadic.cc\<close> and \<open>sqlite-conflict.c\<close> try out the compiler, the clock and SQLite. Also left out: containers of
  abseil in the benchmark, the padding of printed columns, the wrappers of OpenSSL in \<open>digest.h\<close>, the 128-bit build of SipHash, class
  declarations and type aliases, configuration macros, scripts and patches.
\<close>

end
